(* ===== verification/Xv6_Prelude.thy ===== *)
theory Xv6_Prelude
  imports Main "HOL-Library.Word"
begin

text \<open>
  Shared vocabulary of the development: the C integer types as machine words, the outcome of a
  kernel routine, the state monad in which the kernel code is written, its weakest-precondition
  calculus, and the byte-addressed memory with its little-endian loads and stores.

  A kernel routine is a function from the kernel state to an outcome.  \<open>Ok v s\<close> is a normal
  return, \<open>Panic msg\<close> is a call of \<^verbatim>\<open>panic(msg)\<close>, \<open>Sleep s\<close> means that the thread has
  given up the processor in \<^verbatim>\<open>sched()\<close> with the state \<open>s\<close>, and \<open>Hang\<close> that the
  code loops forever.
\<close>

unbundle bit_operations_syntax

named_theorems wp \<open>weakest-precondition rules of the kernel monad\<close>
named_theorems keep \<open>frame rules: what a routine leaves unchanged\<close>
named_theorems mem_simps \<open>loads and stores of the byte memory\<close>

subsection \<open>C integer types\<close>

type_synonym u8 = "8 word"
type_synonym u16 = "16 word"
type_synonym u32 = "32 word"
type_synonym u64 = "64 word"
type_synonym addr = "64 word"
type_synonym memory = "64 word \<Rightarrow> 8 word"

subsection \<open>The kernel monad\<close>

datatype ('a, 's) res = Ok 'a 's | Panic string | Sleep 's | Hang

type_synonym ('s, 'a) kM = "'s \<Rightarrow> ('a, 's) res"

definition ret :: "'a \<Rightarrow> ('s, 'a) kM" where
  "ret x = (\<lambda>s. Ok x s)"

definition bnd :: "('s, 'a) kM \<Rightarrow> ('a \<Rightarrow> ('s, 'b) kM) \<Rightarrow> ('s, 'b) kM" where
  "bnd m f = (\<lambda>s. case m s of Ok x t \<Rightarrow> f x t | Panic e \<Rightarrow> Panic e | Sleep t \<Rightarrow> Sleep t | Hang \<Rightarrow> Hang)"

definition gets :: "('s \<Rightarrow> 'a) \<Rightarrow> ('s, 'a) kM" where
  "gets f = (\<lambda>s. Ok (f s) s)"

definition upd :: "('s \<Rightarrow> 's) \<Rightarrow> ('s, unit) kM" where
  "upd f = (\<lambda>s. Ok () (f s))"

definition panic :: "string \<Rightarrow> ('s, 'a) kM" where
  "panic msg = (\<lambda>s. Panic msg)"

definition hang :: "('s, 'a) kM" where
  "hang = (\<lambda>s. Hang)"

definition sched_away :: "('s, 'a) kM" where
  "sched_away = (\<lambda>s. Sleep s)"

definition whenM :: "bool \<Rightarrow> ('s, unit) kM \<Rightarrow> ('s, unit) kM" where
  "whenM b m = (if b then m else ret ())"

text \<open>
  Total correctness: \<open>runs m s P\<close> says that \<open>m\<close>, started in \<open>s\<close>, returns (it neither
  panics, sleeps nor loops) and its value and final state satisfy \<open>P\<close>.
\<close>

definition runs :: "('s, 'a) kM \<Rightarrow> 's \<Rightarrow> ('a \<Rightarrow> 's \<Rightarrow> bool) \<Rightarrow> bool" where
  "runs m s P = (case m s of Ok x t \<Rightarrow> P x t | Panic _ \<Rightarrow> False | Sleep _ \<Rightarrow> False | Hang \<Rightarrow> False)"

lemma runs_ret [wp, simp]: "runs (ret x) s P = P x s"
  by (simp add: runs_def ret_def)

lemma runs_bnd [wp, simp]: "runs (bnd m f) s P = runs m s (\<lambda>x t. runs (f x) t P)"
  by (auto simp: runs_def bnd_def split: res.splits)

lemma runs_gets [wp, simp]: "runs (gets f) s P = P (f s) s"
  by (simp add: runs_def gets_def)

lemma runs_upd [wp, simp]: "runs (upd f) s P = P () (f s)"
  by (simp add: runs_def upd_def)

lemma runs_panic [wp, simp]: "runs (panic e) s P = False"
  by (simp add: runs_def panic_def)

lemma runs_hang [wp, simp]: "runs hang s P = False"
  by (simp add: runs_def hang_def)

lemma runs_sched_away [wp, simp]: "runs sched_away s P = False"
  by (simp add: runs_def sched_away_def)

lemma runs_if [wp]: "runs (if b then m else n) s P = (if b then runs m s P else runs n s P)"
  by simp

lemma runs_whenM [wp, simp]: "runs (whenM b m) s P = (if b then runs m s P else P () s)"
  by (simp add: whenM_def)

lemma runs_mono: "runs m s P \<Longrightarrow> (\<And>x t. P x t \<Longrightarrow> Q x t) \<Longrightarrow> runs m s Q"
  by (auto simp: runs_def split: res.splits)

lemma runs_conj: "runs m s P \<Longrightarrow> runs m s Q \<Longrightarrow> runs m s (\<lambda>x t. P x t \<and> Q x t)"
  by (auto simp: runs_def split: res.splits)

lemma runs_OkE:
  assumes "runs m s P"
  obtains x t where "m s = Ok x t" and "P x t"
  using assms by (auto simp: runs_def split: res.splits)

lemma runs_Ok_iff: "runs m s P \<longleftrightarrow> (\<exists>x t. m s = Ok x t \<and> P x t)"
  by (auto simp: runs_def split: res.splits)

lemma runs_OkI: "m s = Ok x t \<Longrightarrow> P x t \<Longrightarrow> runs m s P"
  by (simp add: runs_def)

lemma bnd_ret_left [simp]: "bnd (ret x) f = f x"
  by (simp add: bnd_def ret_def)

lemma bnd_assoc: "bnd (bnd m f) g = bnd m (\<lambda>x. bnd (f x) g)"
  by (rule ext) (simp add: bnd_def split: res.splits)

lemma bnd_Ok: "m s = Ok x t \<Longrightarrow> bnd m f s = f x t"
  by (simp add: bnd_def)

lemma bnd_eq_Ok_iff: "bnd m f s = Ok y u \<longleftrightarrow> (\<exists>x t. m s = Ok x t \<and> f x t = Ok y u)"
  by (auto simp: bnd_def split: res.splits)

text \<open>A counted loop \<^verbatim>\<open>for (x in xs) body(x)\<close>.\<close>

fun forM :: "'a list \<Rightarrow> ('a \<Rightarrow> ('s, unit) kM) \<Rightarrow> ('s, unit) kM" where
  "forM [] f = ret ()"
| "forM (x # xs) f = bnd (f x) (\<lambda>_. forM xs f)"

lemma runs_forM:
  assumes "I [] s"
    and "\<And>ys x zs t. xs = ys @ x # zs \<Longrightarrow> I ys t \<Longrightarrow> runs (f x) t (\<lambda>_. I (ys @ [x]))"
  shows "runs (forM xs f) s (\<lambda>_. I xs)"
proof -
  have "I ys t \<Longrightarrow> xs = ys @ zs \<Longrightarrow> runs (forM zs f) t (\<lambda>_. I xs)" for ys zs t
  proof (induction zs arbitrary: ys t)
    case (Cons z zs)
    then have "runs (f z) t (\<lambda>_. I (ys @ [z]))" by (intro assms(2)) auto
    then have "runs (f z) t (\<lambda>_ u. runs (forM zs f) u (\<lambda>_. I xs))"
      by (rule runs_mono) (use Cons in auto)
    then show ?case by simp
  qed simp
  from this [of "[]" s xs] assms(1) show ?thesis by simp
qed

text \<open>Frame conditions: \<open>keeps f m\<close> says that \<open>m\<close> does not change the part \<open>f\<close> of the state when it
  returns.\<close>

definition keeps :: "('s \<Rightarrow> 'v) \<Rightarrow> ('s, 'a) kM \<Rightarrow> bool" where
  "keeps f m \<longleftrightarrow> (\<forall>s x t. m s = Ok x t \<longrightarrow> f t = f s)"

lemma keepsD: "keeps f m \<Longrightarrow> m s = Ok x t \<Longrightarrow> f t = f s"
  by (simp add: keeps_def)

lemma keeps_basic [keep]:
  "keeps f (ret x)" "keeps f (gets g)" "keeps f (panic e)" "keeps f hang" "keeps f sched_away"
  by (simp_all add: keeps_def ret_def gets_def panic_def hang_def sched_away_def)

lemma keeps_upd [keep]: "(\<And>s. f (g s) = f s) \<Longrightarrow> keeps f (upd g)"
  by (simp add: keeps_def upd_def)

lemma keeps_bnd [keep]: "keeps f m \<Longrightarrow> (\<And>x. keeps f (g x)) \<Longrightarrow> keeps f (bnd m g)"
  unfolding keeps_def bnd_eq_Ok_iff by metis

lemma keeps_if [keep]: "(b \<Longrightarrow> keeps f m) \<Longrightarrow> (\<not> b \<Longrightarrow> keeps f n) \<Longrightarrow> keeps f (if b then m else n)"
  by simp

lemma keeps_whenM [keep]: "(b \<Longrightarrow> keeps f m) \<Longrightarrow> keeps f (whenM b m)"
  by (simp add: whenM_def keeps_basic)

lemma keeps_forM [keep]: "(\<And>x. keeps f (g x)) \<Longrightarrow> keeps f (forM xs g)"
  by (induction xs) (auto intro: keep)

lemma keeps_option [keep]:
  "(x = None \<Longrightarrow> keeps f m) \<Longrightarrow> (\<And>y. x = Some y \<Longrightarrow> keeps f (g y)) \<Longrightarrow>
   keeps f (case x of None \<Rightarrow> m | Some y \<Rightarrow> g y)"
  by (cases x) auto

lemma keeps_prod [keep]: "(\<And>a b. x = (a, b) \<Longrightarrow> keeps f (g a b)) \<Longrightarrow> keeps f (case x of (a, b) \<Rightarrow> g a b)"
  by (cases x) auto

lemma keeps_Let [keep]: "keeps f (g x) \<Longrightarrow> keeps f (let y = x in g y)"
  by simp

text \<open>The evaluation equations of the monad, for closed runs.\<close>

lemmas monad_defs = bnd_def ret_def gets_def upd_def panic_def whenM_def hang_def sched_away_def

subsection \<open>Byte memory\<close>

text \<open>RISC-V is little-endian: byte \<open>i\<close> of a word is its bits \<open>8 * i .. 8 * i + 7\<close>.\<close>

definition byte_of :: "u64 \<Rightarrow> nat \<Rightarrow> u8" where
  "byte_of w i = ucast (drop_bit (8 * i) w)"

definition ld64 :: "memory \<Rightarrow> addr \<Rightarrow> u64" where
  "ld64 m a =
     ucast (m a) OR push_bit 8 (ucast (m (a + 1))) OR push_bit 16 (ucast (m (a + 2)))
     OR push_bit 24 (ucast (m (a + 3))) OR push_bit 32 (ucast (m (a + 4)))
     OR push_bit 40 (ucast (m (a + 5))) OR push_bit 48 (ucast (m (a + 6)))
     OR push_bit 56 (ucast (m (a + 7)))"

definition sd64 :: "memory \<Rightarrow> addr \<Rightarrow> u64 \<Rightarrow> memory" where
  "sd64 m a v = (\<lambda>x. if unat (x - a) < 8 then byte_of v (unat (x - a)) else m x)"

text \<open>The bytes \<open>d .. d + n - 1\<close>, with addresses taken modulo \<open>2 ^ 64\<close> as the hardware does.\<close>

definition in_range :: "addr \<Rightarrow> nat \<Rightarrow> addr \<Rightarrow> bool" where
  "in_range d n a \<longleftrightarrow> unat (a - d) < n"

lemma byte_interval_cases:
  assumes "n < (64::nat)"
  shows "n < 8 \<or> (8 \<le> n \<and> n < 16) \<or> (16 \<le> n \<and> n < 24) \<or> (24 \<le> n \<and> n < 32) \<or>
    (32 \<le> n \<and> n < 40) \<or> (40 \<le> n \<and> n < 48) \<or> (48 \<le> n \<and> n < 56) \<or> (56 \<le> n \<and> n < 64)"
  using assms by presburger
lemma word_of_bytes:
  fixes v :: u64
  shows "ucast (ucast v :: u8) OR push_bit 8 (ucast (ucast (drop_bit 8 v) :: u8))
     OR push_bit 16 (ucast (ucast (drop_bit 16 v) :: u8)) OR push_bit 24 (ucast (ucast (drop_bit 24 v) :: u8))
     OR push_bit 32 (ucast (ucast (drop_bit 32 v) :: u8)) OR push_bit 40 (ucast (ucast (drop_bit 40 v) :: u8))
     OR push_bit 48 (ucast (ucast (drop_bit 48 v) :: u8)) OR push_bit 56 (ucast (ucast (drop_bit 56 v) :: u8)) = v"
proof (rule bit_word_eqI, goal_cases)
  case (1 n)
  then have "n < 64" by simp
  from byte_interval_cases [OF this] show ?case
    by (elim disjE conjE) (simp_all add: bit_simps less_diff_conv2)
qed

lemma unat_add_small:
  fixes a :: "'a::len word"
  assumes "unat a + n < 2 ^ LENGTH('a)"
  shows "unat (a + of_nat n) = unat a + n"
  using assms by (simp add: unat_word_ariths unat_of_nat)

lemma ld64_sd64_same [mem_simps, simp]: "ld64 (sd64 m a v) a = v"
  by (simp add: ld64_def sd64_def byte_of_def word_of_bytes)

lemma unat_less_64: "unat (x :: u64) < 18446744073709551616"
  using unsigned_less [of x, where ?'a = nat] by simp

lemma unat_less_32: "unat (x :: u32) < 4294967296"
  using unsigned_less [of x, where ?'a = nat] by simp

lemma in_range_shift:
  assumes "in_range b 8 x" and "8 \<le> unat (b - a)" and "8 \<le> unat (a - b)"
  shows "\<not> in_range a 8 x"
  using assms unat_less_64 [of x] unat_less_64 [of a] unat_less_64 [of b]
  by (auto simp: in_range_def unat_sub_if' split: if_splits)

lemma sd64_outside [mem_simps]: "\<not> in_range a 8 x \<Longrightarrow> sd64 m a v x = m x"
  by (simp add: sd64_def in_range_def)

lemma ld64_cong:
  assumes eq: "\<And>x. in_range a 8 x \<Longrightarrow> m x = m' x"
  shows "ld64 m a = ld64 m' a"
proof -
  have "m a = m' a" "m (a + 1) = m' (a + 1)" "m (a + 2) = m' (a + 2)" "m (a + 3) = m' (a + 3)"
    "m (a + 4) = m' (a + 4)" "m (a + 5) = m' (a + 5)" "m (a + 6) = m' (a + 6)" "m (a + 7) = m' (a + 7)"
    by (rule eq, simp add: in_range_def)+
  then show ?thesis by (simp only: ld64_def)
qed

lemma ld64_sd64_other [mem_simps]:
  "8 \<le> unat (b - a) \<Longrightarrow> 8 \<le> unat (a - b) \<Longrightarrow> ld64 (sd64 m a v) b = ld64 m b"
  by (rule ld64_cong) (simp add: sd64_outside in_range_shift)

end
