(* ===== verification/Riscv.thy ===== *)
theory Riscv
  imports Xv6_Prelude
begin

text \<open>
  The machine constants and address macros of \<^verbatim>\<open>kernel/riscv.h\<close>, \<^verbatim>\<open>kernel/memlayout.h\<close> and
  \<^verbatim>\<open>kernel/param.h\<close>: page rounding, Sv39 page-table entries and indices, the memory map.
  The lemmas relate the bit operations to arithmetic on addresses.
\<close>

subsection \<open>Pages and page-table entries (riscv.h)\<close>

type_synonym pte = "64 word"
type_synonym pagetable = "64 word"

definition PGSIZE :: u64 where "PGSIZE = 4096"
definition PGSHIFT :: nat where "PGSHIFT = 12"

definition PGROUNDUP :: "u64 \<Rightarrow> u64" where
  "PGROUNDUP sz = (sz + PGSIZE - 1) AND NOT (PGSIZE - 1)"

definition PGROUNDDOWN :: "u64 \<Rightarrow> u64" where
  "PGROUNDDOWN a = a AND NOT (PGSIZE - 1)"

definition PTE_V :: u64 where "PTE_V = push_bit 0 1"
definition PTE_R :: u64 where "PTE_R = push_bit 1 1"
definition PTE_W :: u64 where "PTE_W = push_bit 2 1"
definition PTE_X :: u64 where "PTE_X = push_bit 3 1"
definition PTE_U :: u64 where "PTE_U = push_bit 4 1"

definition PA2PTE :: "u64 \<Rightarrow> pte" where
  "PA2PTE pa = push_bit 10 (drop_bit 12 pa)"

definition PTE2PA :: "pte \<Rightarrow> u64" where
  "PTE2PA pte = push_bit 12 (drop_bit 10 pte)"

definition PTE_FLAGS :: "pte \<Rightarrow> u64" where
  "PTE_FLAGS pte = pte AND 0x3FF"

definition PXSHIFT :: "nat \<Rightarrow> nat" where
  "PXSHIFT level = PGSHIFT + 9 * level"

definition PX :: "nat \<Rightarrow> u64 \<Rightarrow> u64" where
  "PX level va = drop_bit (PXSHIFT level) va AND 0x1FF"

definition MAXVA :: u64 where
  "MAXVA = push_bit (9 + 9 + 9 + 12 - 1) 1"

definition MAKE_SATP :: "pagetable \<Rightarrow> u64" where
  "MAKE_SATP pt = push_bit 60 8 OR drop_bit 12 pt"

subsection \<open>Memory layout (memlayout.h)\<close>

definition UART0 :: u64 where "UART0 = 0x10000000"
definition VIRTIO0 :: u64 where "VIRTIO0 = 0x10001000"
definition PLIC :: u64 where "PLIC = 0x0c000000"
definition KERNBASE :: u64 where "KERNBASE = 0x80000000"
definition PHYSTOP :: u64 where "PHYSTOP = KERNBASE + 128 * 1024 * 1024"
definition TRAMPOLINE :: u64 where "TRAMPOLINE = MAXVA - PGSIZE"
definition TRAPFRAME :: u64 where "TRAPFRAME = TRAMPOLINE - PGSIZE"

definition KSTACK :: "nat \<Rightarrow> u64" where
  "KSTACK p = TRAMPOLINE - (of_nat p + 1) * 2 * PGSIZE"

subsection \<open>Parameters (param.h)\<close>

definition NPROC :: nat where "NPROC = 64"
definition NOFILE :: nat where "NOFILE = 16"
definition NFILE :: nat where "NFILE = 100"
definition NINODE :: nat where "NINODE = 50"
definition NDEV :: nat where "NDEV = 10"
definition ROOTDEV :: u32 where "ROOTDEV = 1"
definition MAXARG :: nat where "MAXARG = 32"
definition MAXOPBLOCKS :: nat where "MAXOPBLOCKS = 10"
definition LOGBLOCKS :: nat where "LOGBLOCKS = MAXOPBLOCKS * 3"
definition NBUF :: nat where "NBUF = MAXOPBLOCKS * 3"
definition FSSIZE :: nat where "FSSIZE = 2000"
definition MAXPATH :: nat where "MAXPATH = 128"
definition USERSTACK :: u64 where "USERSTACK = 1"

lemmas pte_bit_defs = PTE_V_def PTE_R_def PTE_W_def PTE_X_def PTE_U_def

lemmas layout_defs = PGSIZE_def PGSHIFT_def UART0_def VIRTIO0_def PLIC_def KERNBASE_def PHYSTOP_def
  MAXVA_def TRAMPOLINE_def TRAPFRAME_def

lemmas param_defs = NPROC_def NOFILE_def NFILE_def NINODE_def NDEV_def ROOTDEV_def MAXARG_def
  MAXOPBLOCKS_def LOGBLOCKS_def NBUF_def FSSIZE_def MAXPATH_def USERSTACK_def

subsection \<open>Arithmetic reading of the bit operations\<close>

lemma low_mask: "(4095 :: u64) = mask 12" "(1023 :: u64) = mask 10" "(511 :: u64) = mask 9"
  by (simp_all add: mask_eq_exp_minus_1)

lemma PGROUNDDOWN_push_drop: "PGROUNDDOWN a = push_bit 12 (drop_bit 12 a)"
  unfolding PGROUNDDOWN_def PGSIZE_def
  by (rule bit_word_eqI) (auto simp: low_mask bit_simps)

lemma unat_drop_bit_eq: "unat (drop_bit n a) = unat a div 2 ^ n" for a :: u64
  unfolding unsigned_drop_bit_eq
  by (simp add: drop_bit_eq_div take_bit_nat_eq_self unat_less_64)

lemma unat_push_drop: "unat (push_bit n (drop_bit n a)) = unat a div 2 ^ n * 2 ^ n" for a :: u64
proof -
  have "unat (push_bit n (drop_bit n a)) = take_bit 64 (unat a div 2 ^ n * 2 ^ n)"
    unfolding unsigned_push_bit_eq unat_drop_bit_eq by (simp add: push_bit_eq_mult)
  moreover have "unat a div 2 ^ n * 2 ^ n < 2 ^ 64"
    using unat_less_64 [of a] by (simp add: le_less_trans [OF div_times_less_eq_dividend])
  ultimately show ?thesis by (simp add: take_bit_nat_eq_self)
qed

lemma unat_PGROUNDDOWN: "unat (PGROUNDDOWN a) = unat a div 4096 * 4096"
  unfolding PGROUNDDOWN_push_drop by (subst unat_push_drop) simp

lemma PGROUNDDOWN_le: "PGROUNDDOWN a \<le> a"
  by (simp add: word_le_nat_alt unat_PGROUNDDOWN)

lemma PGROUNDDOWN_aligned [simp]: "unat (PGROUNDDOWN a) mod 4096 = 0"
  by (simp add: unat_PGROUNDDOWN)

lemma PGROUNDUP_DOWN: "PGROUNDUP a = PGROUNDDOWN (a + 4095)"
  by (simp add: PGROUNDUP_def PGROUNDDOWN_def PGSIZE_def add.commute)

lemma unat_PGROUNDUP:
  assumes "unat a + 4095 < 2 ^ 64"
  shows "unat (PGROUNDUP a) = (unat a + 4095) div 4096 * 4096"
proof -
  have "unat (a + of_nat 4095) = unat a + 4095"
    by (rule unat_add_small) (use assms in simp)
  then show ?thesis by (simp add: PGROUNDUP_DOWN unat_PGROUNDDOWN)
qed

lemma unat_offset_in_page: "unat (a - PGROUNDDOWN a) = unat a mod 4096"
  using PGROUNDDOWN_le [of a]
  by (simp add: unat_sub_if' word_le_nat_alt unat_PGROUNDDOWN minus_div_mult_eq_mod)

lemma PX_take_drop: "PX l va = take_bit 9 (drop_bit (12 + 9 * l) va)"
  by (simp add: PX_def PXSHIFT_def PGSHIFT_def low_mask take_bit_eq_mask)

lemma unat_PX: "unat (PX l va) = unat va div 2 ^ (12 + 9 * l) mod 512"
  unfolding PX_take_drop unsigned_take_bit_eq unat_drop_bit_eq by (simp add: take_bit_eq_mod)

lemma PX_less: "unat (PX l va) < 512"
  by (simp add: unat_PX)

text \<open>Two page-aligned virtual addresses below \<open>MAXVA\<close> with the same three indices are equal.\<close>

lemma unat_MAXVA: "unat MAXVA = 2 ^ 38"
  by (simp add: MAXVA_def push_bit_eq_mult)

lemma split_page_number: "q < (134217728::nat) \<Longrightarrow>
  q = 262144 * (q div 262144 mod 512) + 512 * (q div 512 mod 512) + q mod 512"
proof -
  assume "q < 134217728"
  then have "q div 262144 mod 512 = q div 262144" by simp
  moreover have "q div 262144 = q div 512 div 512" by (simp flip: div_mult2_eq)
  moreover have "512 * (q div 512 div 512) + q div 512 mod 512 = q div 512" by simp
  moreover have "512 * (q div 512) + q mod 512 = q" by simp
  ultimately show ?thesis by linarith
qed

lemma PX_inj:
  assumes "va < MAXVA" "vb < MAXVA" "unat va mod 4096 = 0" "unat vb mod 4096 = 0"
    and px: "PX 2 va = PX 2 vb" "PX 1 va = PX 1 vb" "PX 0 va = PX 0 vb"
  shows "va = vb"
proof -
  let ?q = "\<lambda>v. unat v div 4096"
  have b: "?q va < 134217728" "?q vb < 134217728"
    using assms(1,2) by (simp_all add: word_less_nat_alt unat_MAXVA)
  have idx: "unat (PX 2 v) = ?q v div 262144 mod 512" "unat (PX 1 v) = ?q v div 512 mod 512"
    "unat (PX 0 v) = ?q v mod 512" for v
    by (simp_all add: unat_PX flip: div_mult2_eq)
  have "?q va = ?q vb"
    using split_page_number [OF b(1)] split_page_number [OF b(2)] idx [of va] idx [of vb] px
    by simp
  moreover have "unat va = 4096 * ?q va" "unat vb = 4096 * ?q vb"
    using assms(3,4) by auto
  ultimately have "unat va = unat vb" by simp
  then show ?thesis by (simp add: word_unat_eq_iff)
qed

text \<open>A physical page address survives the trip through a page-table entry.\<close>

lemma unat_take_bit_eq: "unat (take_bit n a) = unat a mod 2 ^ n" for a :: u64
  unfolding unsigned_take_bit_eq by (simp add: take_bit_eq_mod)

lemma aligned_low_bits: "unat a mod 4096 = 0 \<Longrightarrow> bit a n \<Longrightarrow> 12 \<le> n" for a :: u64
proof (rule ccontr)
  assume a: "unat a mod 4096 = 0" "bit a n" and n: "\<not> 12 \<le> n"
  have "take_bit 12 a = 0"
    unfolding word_unat_eq_iff unat_take_bit_eq using a by simp
  then have "bit (take_bit 12 a) n = bit (0 :: u64) n" by simp
  with a n show False by (simp add: bit_take_bit_iff)
qed

lemma small_high_bits: "unat fl < 1024 \<Longrightarrow> bit fl n \<Longrightarrow> n < 10" for fl :: u64
proof (rule ccontr)
  assume fl: "unat fl < 1024" "bit fl n" and n: "\<not> n < 10"
  have "take_bit 10 fl = fl"
    unfolding word_unat_eq_iff unat_take_bit_eq using fl by simp
  then have "bit (take_bit 10 fl) n = bit fl n" by simp
  with fl n show False by (simp add: bit_take_bit_iff)
qed

lemma PTE2PA_PA2PTE:
  assumes "unat pa mod 4096 = 0" and "unat fl < 1024"
  shows "PTE2PA (PA2PTE pa OR fl) = pa"
proof (rule bit_word_eqI)
  fix n :: nat
  assume "n < LENGTH(64)"
  then show "bit (PTE2PA (PA2PTE pa OR fl)) n = bit pa n"
    using aligned_low_bits [OF assms(1), of n] small_high_bits [OF assms(2), of "10 + (n - 12)"]
    by (cases "12 \<le> n") (auto simp: PTE2PA_def PA2PTE_def bit_simps)
qed

lemma PTE_FLAGS_PA2PTE:
  assumes "unat fl < 1024"
  shows "PTE_FLAGS (PA2PTE pa OR fl) = fl"
  unfolding PTE_FLAGS_def PA2PTE_def
  by (intro bit_word_eqI) (auto simp: low_mask bit_simps dest: small_high_bits [OF assms])

lemma PTE_FLAGS_less: "unat (PTE_FLAGS p) < 1024"
  unfolding PTE_FLAGS_def low_mask take_bit_eq_mask [symmetric] unat_take_bit_eq by simp

lemma unat_PTE2PA_aligned [simp]: "unat (PTE2PA p) mod 4096 = 0"
  unfolding PTE2PA_def unsigned_push_bit_eq
  by (simp add: push_bit_eq_mult take_bit_eq_mod mod_mod_cancel)

end
