(* ===== verification/Kstring.thy ===== *)
theory Kstring
  imports Riscv
begin

text \<open>
  \<^verbatim>\<open>kernel/string.c\<close> over the byte memory.  Pointers are 64-bit words, a C loop that advances
  pointers is a recursion on its counter, and \<^verbatim>\<open>strlen\<close>, the only loop with no bound, is a
  \<^theory_text>\<open>partial_function\<close> whose result \<open>None\<close> means that it does not stop.
  The lemmas show the effect of every routine on the memory, for overlapping buffers too.
\<close>

subsection \<open>The routines\<close>

function memset_loop :: "memory \<Rightarrow> addr \<Rightarrow> u8 \<Rightarrow> nat \<Rightarrow> nat \<Rightarrow> memory" where
  "memset_loop m dst c i n =
     (if i < n then memset_loop (m(dst + of_nat i := c)) dst c (Suc i) n else m)"
  by pat_completeness auto
termination
  by (relation "measure (\<lambda>(m, dst, c, i, n). n - i)") auto

declare memset_loop.simps [simp del]

definition memset :: "memory \<Rightarrow> addr \<Rightarrow> u8 \<Rightarrow> nat \<Rightarrow> memory" where
  "memset m dst c n = memset_loop m dst c 0 n"

fun memcmp :: "memory \<Rightarrow> addr \<Rightarrow> addr \<Rightarrow> nat \<Rightarrow> int" where
  "memcmp m s1 s2 0 = 0"
| "memcmp m s1 s2 (Suc n) =
     (if m s1 \<noteq> m s2 then uint (m s1) - uint (m s2) else memcmp m (s1 + 1) (s2 + 1) n)"

text \<open>The two loops of \<^verbatim>\<open>memmove\<close>: \<^verbatim>\<open>*d++ = *s++\<close> and \<^verbatim>\<open>*--d = *--s\<close>.\<close>

fun copy_fwd :: "memory \<Rightarrow> addr \<Rightarrow> addr \<Rightarrow> nat \<Rightarrow> memory" where
  "copy_fwd m d s 0 = m"
| "copy_fwd m d s (Suc n) = copy_fwd (m(d := m s)) (d + 1) (s + 1) n"

fun copy_bwd :: "memory \<Rightarrow> addr \<Rightarrow> addr \<Rightarrow> nat \<Rightarrow> memory" where
  "copy_bwd m d s 0 = m"
| "copy_bwd m d s (Suc n) = copy_bwd (m(d - 1 := m (s - 1))) (d - 1) (s - 1) n"

definition memmove :: "memory \<Rightarrow> addr \<Rightarrow> addr \<Rightarrow> nat \<Rightarrow> memory" where
  "memmove m dst src n =
     (if n = 0 then m
      else if src < dst \<and> src + of_nat n > dst
      then copy_bwd m (dst + of_nat n) (src + of_nat n) n
      else copy_fwd m dst src n)"

definition memcpy :: "memory \<Rightarrow> addr \<Rightarrow> addr \<Rightarrow> nat \<Rightarrow> memory" where
  "memcpy m dst src n = memmove m dst src n"

fun strncmp :: "memory \<Rightarrow> addr \<Rightarrow> addr \<Rightarrow> nat \<Rightarrow> int" where
  "strncmp m p q 0 = 0"
| "strncmp m p q (Suc n) =
     (if m p \<noteq> 0 \<and> m p = m q then strncmp m (p + 1) (q + 1) n else uint (m p) - uint (m q))"

fun strncpy_pad :: "memory \<Rightarrow> addr \<Rightarrow> nat \<Rightarrow> memory" where
  "strncpy_pad m s 0 = m"
| "strncpy_pad m s (Suc n) = strncpy_pad (m(s := 0)) (s + 1) n"

fun strncpy :: "memory \<Rightarrow> addr \<Rightarrow> addr \<Rightarrow> nat \<Rightarrow> memory" where
  "strncpy m s t 0 = m"
| "strncpy m s t (Suc n) =
     (let c = m t; m' = m(s := c)
      in if c \<noteq> 0 then strncpy m' (s + 1) (t + 1) n else strncpy_pad m' (s + 1) n)"

fun safestrcpy :: "memory \<Rightarrow> addr \<Rightarrow> addr \<Rightarrow> nat \<Rightarrow> memory" where
  "safestrcpy m s t 0 = m"
| "safestrcpy m s t (Suc 0) = m(s := 0)"
| "safestrcpy m s t (Suc (Suc n)) =
     (let c = m t; m' = m(s := c)
      in if c \<noteq> 0 then safestrcpy m' (s + 1) (t + 1) (Suc n) else m'(s + 1 := 0))"

partial_function (option) strlen_from :: "memory \<Rightarrow> addr \<Rightarrow> nat \<Rightarrow> nat option" where
  "strlen_from m s n = (if m (s + of_nat n) \<noteq> 0 then strlen_from m s (Suc n) else Some n)"

definition strlen :: "memory \<Rightarrow> addr \<Rightarrow> nat option" where
  "strlen m s = strlen_from m s 0"

text \<open>The bytes of a C string in memory: \<open>cstr_at m s bs\<close> holds when \<open>bs\<close>, which has no
  zero byte, is stored at \<open>s\<close> and followed by a zero byte.\<close>

fun cstr_at :: "memory \<Rightarrow> addr \<Rightarrow> u8 list \<Rightarrow> bool" where
  "cstr_at m s [] \<longleftrightarrow> m s = 0"
| "cstr_at m s (b # bs) \<longleftrightarrow> b \<noteq> 0 \<and> m s = b \<and> cstr_at m (s + 1) bs"

subsection \<open>memset\<close>

lemma unat_sub_Suc: "a \<noteq> d \<Longrightarrow> unat (a - (d + 1)) = unat (a - d) - 1" for a d :: addr
  using unat_minus_one [of "a - d"] by (simp add: diff_diff_eq)

lemma in_range_Suc: "n < 2 ^ 64 - 1 \<Longrightarrow> in_range d (Suc n) a \<longleftrightarrow> a = d \<or> in_range (d + 1) n a"
  using unat_gt_0 [of "a - d"] by (cases "a = d") (auto simp: in_range_def unat_sub_Suc)

lemma offset_eq_iff: "n < 2 ^ 64 \<Longrightarrow> a = d + of_nat n \<longleftrightarrow> unat (a - d) = n" for a d :: addr
proof
  assume "unat (a - d) = n"
  then have "a - d = of_nat n" by auto
  then show "a = d + of_nat n" by (simp add: diff_eq_eq add.commute)
qed (simp add: unat_of_nat)

lemma in_range_snoc:
  "n < 2 ^ 64 \<Longrightarrow> in_range d (Suc n) a \<longleftrightarrow> a = d + of_nat n \<or> in_range d n a"
  by (auto simp: in_range_def offset_eq_iff)

lemma memset_loop_eq:
  assumes "i \<le> n" and "n \<le> 2 ^ 64"
  shows "memset_loop m d c i n = (\<lambda>a. if i \<le> unat (a - d) \<and> in_range d n a then c else m a)"
  using assms
proof (induction m d c i n rule: memset_loop.induct)
  case (1 m d c i n)
  show ?case
  proof (cases "i < n")
    case True
    have *: "a = d + of_nat i \<longleftrightarrow> unat (a - d) = i" for a
      using True "1.prems"(2) by (intro offset_eq_iff) simp
    from True "1.prems" have "memset_loop m d c i n =
        (\<lambda>a. if Suc i \<le> unat (a - d) \<and> in_range d n a then c else (m(d + of_nat i := c)) a)"
      by (subst memset_loop.simps) (simp add: "1.IH")
    with True show ?thesis by (auto simp: fun_eq_iff * in_range_def)
  next
    case False
    with "1.prems" show ?thesis by (subst memset_loop.simps) (auto simp: fun_eq_iff in_range_def)
  qed
qed

lemma memset_eq: "n \<le> 2 ^ 64 \<Longrightarrow> memset m d c n = (\<lambda>a. if in_range d n a then c else m a)"
  by (simp add: memset_def memset_loop_eq)

subsection \<open>memmove\<close>

definition moved :: "memory \<Rightarrow> addr \<Rightarrow> addr \<Rightarrow> nat \<Rightarrow> memory" where
  "moved m d s n = (\<lambda>a. if in_range d n a then m (s + (a - d)) else m a)"

lemma copy_fwd_eq:
  assumes "n < 2 ^ 64" and "\<And>j. 0 < j \<Longrightarrow> j < n \<Longrightarrow> s + of_nat j \<noteq> d"
  shows "copy_fwd m d s n = moved m d s n"
  using assms
proof (induction n arbitrary: m d s)
  case 0
  then show ?case by (simp add: moved_def in_range_def)
next
  case (Suc n)
  have "s + 1 + of_nat j \<noteq> d + 1" if "0 < j" "j < n" for j
    using Suc.prems(2) [of j] that by auto
  then have IH: "copy_fwd (m(d := m s)) (d + 1) (s + 1) n = moved (m(d := m s)) (d + 1) (s + 1) n"
    using Suc.prems(1) by (intro Suc.IH) auto
  have n: "n < 2 ^ 64 - 1" using Suc.prems(1) by simp
  have src: "s + (a - d) \<noteq> d" if "in_range (d + 1) n a" "a \<noteq> d" for a
    using Suc.prems(2) [of "unat (a - d)"] that
    by (auto simp: in_range_def unat_sub_Suc unat_gt_0)
  have shift: "s + 1 + (a - (d + 1)) = s + (a - d)" for a by simp
  have d: "\<not> in_range (d + 1) n d" using n
    by (simp add: in_range_def unsigned_minus_1_eq_mask mask_eq_exp_minus_1)
  show ?case
    using src n d
    unfolding copy_fwd.simps IH by (auto simp: moved_def fun_eq_iff in_range_Suc shift)
qed

lemma copy_bwd_eq:
  assumes "n < 2 ^ 64" and "\<And>j. 0 < j \<Longrightarrow> j < n \<Longrightarrow> d + of_nat j \<noteq> s"
  shows "copy_bwd m (d + of_nat n) (s + of_nat n) n = moved m d s n"
  using assms
proof (induction n arbitrary: m)
  case 0
  then show ?case by (simp add: moved_def in_range_def)
next
  case (Suc n)
  let ?m = "m(d + of_nat n := m (s + of_nat n))"
  have IH: "copy_bwd ?m (d + of_nat n) (s + of_nat n) n = moved ?m d s n"
    using Suc.prems by (intro Suc.IH) auto
  have n: "n < 2 ^ 64" using Suc.prems(1) by simp
  have src: "s + (a - d) \<noteq> d + of_nat n" if "in_range d n a" for a
  proof
    assume eq: "s + (a - d) = d + of_nat n"
    have k: "unat (a - d) < n" using that by (simp add: in_range_def)
    then have "of_nat (n - unat (a - d)) = (of_nat n - (a - d) :: addr)" by simp
    moreover have "s = d + of_nat n - (a - d)" using eq by (simp only: eq_diff_eq)
    ultimately have "d + of_nat (n - unat (a - d)) = s" by simp
    with Suc.prems(2) [of "n - unat (a - d)"] k show False by auto
  qed
  have last: "\<not> in_range d n (d + of_nat n)"
    using n by (simp add: in_range_def unat_of_nat)
  show ?case
    using src last IH n by (auto simp: moved_def fun_eq_iff in_range_snoc algebra_simps)
qed

text \<open>
  \<^verbatim>\<open>memmove\<close> copies as if through a temporary buffer, also when the buffers overlap, as long
  as neither buffer runs past the end of the address space.
\<close>

lemma memmove_eq:
  assumes "unat src + n < 2 ^ 64" and "unat dst + n \<le> 2 ^ 64"
  shows "memmove m dst src n = moved m dst src n"
proof (cases "src < dst \<and> src + of_nat n > dst")
  case True
  have "dst + of_nat j \<noteq> src" if "0 < j" "j < n" for j
  proof
    assume "dst + of_nat j = src"
    moreover have "unat (dst + of_nat j) = unat dst + j"
      using that assms(2) by (intro unat_add_small) simp
    ultimately show False using True by (auto simp: word_less_nat_alt)
  qed
  with True assms(1) show ?thesis
    by (cases "n = 0") (auto simp: memmove_def moved_def in_range_def copy_bwd_eq)
next
  case False
  have "src + of_nat j \<noteq> dst" if "0 < j" "j < n" for j
  proof
    assume "src + of_nat j = dst"
    moreover have "unat (src + of_nat j) = unat src + j" "unat (src + of_nat n) = unat src + n"
      using that assms(1) by (auto intro!: unat_add_small)
    ultimately show False using False that by (auto simp: word_less_nat_alt not_less)
  qed
  with False assms(1) show ?thesis
    by (cases "n = 0") (auto simp: memmove_def moved_def in_range_def copy_fwd_eq)
qed

subsection \<open>C strings\<close>

lemma cstr_at_cong:
  "(\<And>i. i \<le> length bs \<Longrightarrow> m (s + of_nat i) = m' (s + of_nat i)) \<Longrightarrow> cstr_at m s bs = cstr_at m' s bs"
proof (induction bs arbitrary: s)
  case Nil
  then show ?case using Nil.prems [of 0] by simp
next
  case (Cons b bs)
  have "m (s + 1 + of_nat i) = m' (s + 1 + of_nat i)" if "i \<le> length bs" for i
    using Cons.prems [of "Suc i"] that by (simp add: add.assoc)
  then have "cstr_at m (s + 1) bs = cstr_at m' (s + 1) bs" by (rule Cons.IH)
  with Cons.prems [of 0] show ?case by simp
qed

lemma strlen_from_cstr: "cstr_at m (s + of_nat k) bs \<Longrightarrow> strlen_from m s k = Some (k + length bs)"
proof (induction bs arbitrary: k)
  case Nil
  then show ?case by (subst strlen_from.simps) simp
next
  case (Cons b bs)
  then have "cstr_at m (s + of_nat (Suc k)) bs" by (simp add: ac_simps)
  then have "strlen_from m s (Suc k) = Some (Suc k + length bs)" by (rule Cons.IH)
  with Cons.prems show ?case by (subst strlen_from.simps) auto
qed

lemma strlen_cstr: "cstr_at m s bs \<Longrightarrow> strlen m s = Some (length bs)"
  using strlen_from_cstr [of m s 0 bs] by (simp add: strlen_def)

lemma strncmp_zero_iff:
  "strncmp m p q n = 0 \<longleftrightarrow>
     (\<forall>i<n. (\<forall>j<i. m (p + of_nat j) \<noteq> 0) \<longrightarrow> m (p + of_nat i) = m (q + of_nat i))"
proof (induction n arbitrary: p q)
  case (Suc n)
  let ?P = "\<lambda>p q i. (\<forall>j<i. m (p + of_nat j) \<noteq> 0) \<longrightarrow> m (p + of_nat i) = m (q + of_nat i)"
  have all_Suc: "(\<forall>i<Suc n. R i) \<longleftrightarrow> R 0 \<and> (\<forall>i<n. R (Suc i))" for R :: "nat \<Rightarrow> bool"
    by (auto simp: less_Suc_eq_0_disj)
  have P_Suc: "?P p q (Suc i) \<longleftrightarrow> (m p = 0 \<or> ?P (p + 1) (q + 1) i)" for i
  proof -
    have "(\<forall>j<Suc i. m (p + of_nat j) \<noteq> 0) \<longleftrightarrow> m p \<noteq> 0 \<and> (\<forall>j<i. m (p + 1 + of_nat j) \<noteq> 0)"
      by (auto simp: less_Suc_eq_0_disj add.assoc)
    then show ?thesis by (auto simp: add.assoc)
  qed
  have "(\<forall>i<Suc n. ?P p q i) \<longleftrightarrow> m p = m q \<and> (\<forall>i<n. m p = 0 \<or> ?P (p + 1) (q + 1) i)"
    by (simp only: all_Suc P_Suc) simp
  also have "\<dots> \<longleftrightarrow> strncmp m p q (Suc n) = 0"
    using Suc.IH [of "p + 1" "q + 1"] by (auto simp: word_uint_eq_iff)
  finally show ?case by simp
qed simp

definition disjoint_bufs :: "addr \<Rightarrow> addr \<Rightarrow> nat \<Rightarrow> bool" where
  "disjoint_bufs s t n \<longleftrightarrow> (\<forall>i<n. \<forall>j<n. s + of_nat i \<noteq> t + of_nat j)"

lemma disjoint_bufs_step: "disjoint_bufs s t (Suc n) \<Longrightarrow> disjoint_bufs (s + 1) (t + 1) n"
  unfolding disjoint_bufs_def by (auto simp: add.assoc dest: spec [where x = "Suc _"])

lemma disjoint_bufs_first: "disjoint_bufs s t n \<Longrightarrow> j < n \<Longrightarrow> t + of_nat j \<noteq> s"
proof -
  assume "disjoint_bufs s t n" and "j < n"
  then have "s + of_nat 0 \<noteq> t + of_nat j" unfolding disjoint_bufs_def by fastforce
  then show ?thesis by simp
qed

lemma in_range_SucD: "in_range (d + 1) n a \<Longrightarrow> n < 2 ^ 64 \<Longrightarrow> a \<noteq> d"
  by (auto simp: in_range_def unsigned_minus_1_eq_mask mask_eq_exp_minus_1)

lemma in_range_Suc_offset:
  assumes "in_range (d + 1) n a" and "n < 2 ^ 64"
  shows "unat (a - d) = Suc (unat (a - (d + 1)))"
  using in_range_SucD [OF assms] unat_gt_0 [of "a - d"] by (simp add: unat_sub_Suc)

lemma strncpy_pad_eq:
  "n < 2 ^ 64 \<Longrightarrow> strncpy_pad m s n = (\<lambda>a. if in_range s n a then 0 else m a)"
proof (induction n arbitrary: m s)
  case (Suc n)
  then have "n < 2 ^ 64 - 1" by simp
  with Suc show ?case by (auto simp: fun_eq_iff in_range_Suc)
qed (simp add: in_range_def)

text \<open>Byte \<open>k\<close> of the copy: the source byte, or zero from the first zero byte on.\<close>

definition padded :: "memory \<Rightarrow> addr \<Rightarrow> nat \<Rightarrow> u8" where
  "padded m t k = (if \<exists>j\<le>k. m (t + of_nat j) = 0 then 0 else m (t + of_nat k))"

lemma padded_0: "padded m t 0 = m t"
  by (simp add: padded_def)

lemma ex_le_Suc: "(\<exists>j\<le>Suc k. Q j) \<longleftrightarrow> Q 0 \<or> (\<exists>j\<le>k. Q (Suc j))"
proof -
  have "(\<exists>j<Suc (Suc k). Q j) \<longleftrightarrow> Q 0 \<or> (\<exists>j<Suc k. Q (Suc j))"
    by (auto simp: less_Suc_eq_0_disj)
  then show ?thesis by (simp only: less_Suc_eq_le)
qed

lemma padded_Suc: "padded m t (Suc k) = (if m t = 0 then 0 else padded m (t + 1) k)"
  by (auto simp: padded_def ex_le_Suc add.assoc)

lemma padded_cong:
  "(\<And>j. j \<le> k \<Longrightarrow> m' (t + of_nat j) = m (t + of_nat j)) \<Longrightarrow> padded m' t k = padded m t k"
  by (simp add: padded_def cong: conj_cong)

lemma strncpy_eq:
  assumes "n < 2 ^ 64" and "disjoint_bufs s t n"
  shows "strncpy m s t n = (\<lambda>a. if in_range s n a then padded m t (unat (a - s)) else m a)"
  using assms
proof (induction n arbitrary: m s t)
  case 0
  then show ?case by (simp add: in_range_def)
next
  case (Suc n)
  let ?m = "m(s := m t)"
  have n: "n < 2 ^ 64" "n < 2 ^ 64 - 1" using Suc.prems(1) by simp_all
  have same: "padded ?m (t + 1) k = padded m (t + 1) k" if "k < n" for k
    using disjoint_bufs_first [OF Suc.prems(2), of "Suc _"] that
    by (intro padded_cong) (simp add: add.assoc)
  show ?case
  proof (cases "m t = 0")
    case True
    then show ?thesis using n
      by (auto simp: fun_eq_iff in_range_Suc strncpy_pad_eq padded_0 padded_Suc in_range_Suc_offset
          dest: in_range_SucD)
  next
    case False
    have IH: "strncpy ?m (s + 1) (t + 1) n =
        (\<lambda>a. if in_range (s + 1) n a then padded ?m (t + 1) (unat (a - (s + 1))) else ?m a)"
      using Suc.prems disjoint_bufs_step by (intro Suc.IH) auto
    have "padded ?m (t + 1) (unat (a - (s + 1))) = padded m t (unat (a - s))"
      if "in_range (s + 1) n a" for a
      using that n False by (simp add: in_range_Suc_offset padded_Suc same in_range_def)
    with False n show ?thesis
      by (auto simp: Let_def IH fun_eq_iff in_range_Suc padded_0 dest: in_range_SucD)
  qed
qed

lemma safestrcpy_spec:
  assumes "0 < n" and "n < 2 ^ 64" and "disjoint_bufs s t n"
  shows "\<exists>k<n. (\<forall>i<k. m (t + of_nat i) \<noteq> 0 \<and> safestrcpy m s t n (s + of_nat i) = m (t + of_nat i))
      \<and> safestrcpy m s t n (s + of_nat k) = 0 \<and> (k = n - 1 \<or> m (t + of_nat k) = 0)
      \<and> (\<forall>a. \<not> in_range s n a \<longrightarrow> safestrcpy m s t n a = m a)"
  using assms
proof (induction m s t n rule: safestrcpy.induct)
  case (2 m s t)
  then show ?case by (intro exI [of _ 0]) (auto simp: in_range_def)
next
  case (3 m s t n)
  let ?m = "m(s := m t)"
  have n: "Suc n < 2 ^ 64" "Suc n < 2 ^ 64 - 1" using "3.prems"(2) by simp_all
  have same: "?m (t + 1 + of_nat j) = m (t + of_nat (Suc j))" if "j < Suc n" for j
    using disjoint_bufs_first [OF "3.prems"(3), of "Suc j"] that by (simp add: add.assoc)
  show ?case
  proof (cases "m t = 0")
    case True
    then show ?thesis
      using n by (intro exI [of _ 0]) (auto simp: in_range_Suc in_range_def)
  next
    case False
    define M where "M = safestrcpy ?m (s + 1) (t + 1) (Suc n)"
    have "\<exists>k<Suc n. (\<forall>i<k. ?m (t + 1 + of_nat i) \<noteq> 0 \<and> M (s + 1 + of_nat i) = ?m (t + 1 + of_nat i))
        \<and> M (s + 1 + of_nat k) = 0 \<and> (k = Suc n - 1 \<or> ?m (t + 1 + of_nat k) = 0)
        \<and> (\<forall>a. \<not> in_range (s + 1) (Suc n) a \<longrightarrow> M a = ?m a)"
      unfolding M_def
      by (rule "3.IH" [OF refl refl False])
        (use n disjoint_bufs_step [OF "3.prems"(3)] in simp_all)
    then obtain k where k: "k < Suc n"
      "\<forall>i<k. ?m (t + 1 + of_nat i) \<noteq> 0 \<and> M (s + 1 + of_nat i) = ?m (t + 1 + of_nat i)"
      "M (s + 1 + of_nat k) = 0" "k = n \<or> ?m (t + 1 + of_nat k) = 0"
      "\<forall>a. \<not> in_range (s + 1) (Suc n) a \<longrightarrow> M a = ?m a"
      by auto
    have eq: "safestrcpy m s t (Suc (Suc n)) = M" using False by (simp add: M_def Let_def)
    have "\<not> in_range (s + 1) (Suc n) s"
      using n(1) in_range_SucD by blast
    then have first: "M s = m t" using k(5) by simp
    have pre: "m (t + of_nat i) \<noteq> 0 \<and> M (s + of_nat i) = m (t + of_nat i)" if "i < Suc k" for i
    proof (cases i)
      case 0
      with False first show ?thesis by simp
    next
      case (Suc j)
      with that have "j < k" by simp
      with k(1,2) same [of j] Suc show ?thesis by (auto simp: add.assoc)
    qed
    have "M (s + of_nat (Suc k)) = 0" using k(3) by (simp add: add.assoc)
    moreover have "Suc k = Suc (Suc n) - 1 \<or> m (t + of_nat (Suc k)) = 0"
      using k(4) same [OF k(1)] by auto
    moreover have "M a = m a" if "\<not> in_range s (Suc (Suc n)) a" for a
      using k(5) that n by (auto simp: in_range_Suc [of "Suc n"])
    ultimately show ?thesis
      unfolding eq using pre k(1) by (intro exI [of _ "Suc k"]) blast
  qed
qed simp

subsection \<open>Properties\<close>

text \<open>C6 \<^verbatim>\<open>memmove\<close> copies correctly also when the two buffers overlap: the destination holds
  what the source held before the call and no other byte changes.\<close>

theorem memmove_correct:
  assumes "unat src + n < 2 ^ 64" and "unat dst + n \<le> 2 ^ 64"
  shows "memmove m dst src n a = (if in_range dst n a then m (src + (a - dst)) else m a)"
  using memmove_eq [OF assms] by (simp add: moved_def)

theorem memmove_correct_witness: "memmove (\<lambda>a. ucast a) 101 100 8 105 = (104 :: u8)"
  using memmove_correct [of 100 8 101 "\<lambda>a. ucast a" 105] by (simp add: in_range_def)

text \<open>C7 \<^verbatim>\<open>safestrcpy\<close> always terminates its result within the \<open>n\<close> bytes it may write: it copies
  the string up to a cut-off point \<open>k\<close>, which is the end of the source or the last byte.\<close>

theorem safestrcpy_terminated:
  assumes "0 < n" and "n < 2 ^ 64" and "disjoint_bufs s t n"
  shows "\<exists>k<n. (\<forall>i<k. m (t + of_nat i) \<noteq> 0 \<and> safestrcpy m s t n (s + of_nat i) = m (t + of_nat i))
      \<and> safestrcpy m s t n (s + of_nat k) = 0 \<and> (k = n - 1 \<or> m (t + of_nat k) = 0)
      \<and> (\<forall>a. \<not> in_range s n a \<longrightarrow> safestrcpy m s t n a = m a)"
  by (rule safestrcpy_spec [OF assms])

lemma disjoint_bufs_demo: "disjoint_bufs 64 128 16"
proof -
  have "(64 :: u64) + of_nat i \<noteq> 128 + of_nat j" if "i < 16" "j < 16" for i j :: nat
  proof
    assume "(64 :: u64) + of_nat i = 128 + of_nat j"
    moreover have "unat ((64 :: u64) + of_nat i) = 64 + i" "unat ((128 :: u64) + of_nat j) = 128 + j"
      using that unat_add_small [of "64 :: u64" i] unat_add_small [of "128 :: u64" j] by simp_all
    ultimately show False using that by simp
  qed
  then show ?thesis by (simp add: disjoint_bufs_def)
qed

theorem safestrcpy_terminated_witness: "safestrcpy (\<lambda>_. 7) 64 128 16 79 = 0"
  using safestrcpy_terminated [of 16 64 128 "\<lambda>_. 7"] disjoint_bufs_demo by auto

end
