(* ===== verification/Kalloc.thy ===== *)
theory Kalloc
  imports Kstring
begin

text \<open>
  The physical page allocator, \<^verbatim>\<open>kernel/kalloc.c\<close>.  The free list is threaded through the free
  pages themselves, as in the code: \<open>freelist\<close> is the address of the first free page and the
  first eight bytes of a free page hold the address of the next one.  \<open>kend\<close> is the linker
  symbol \<^verbatim>\<open>end\<close>, a constant that no operation writes.  The critical sections of
  \<^verbatim>\<open>kmem.lock\<close> are atomic steps of the model.

  The abstraction is the list of free pages; the lemmas show that the allocator never hands out
  a page twice, that a page that is freed can be allocated again, and that it touches no byte
  of an allocated page.
\<close>

record kernel =
  mem :: memory
  freelist :: addr
  kend :: addr
  klog :: "(string \<times> int list) list"

text \<open>A message that the kernel prints, with the arguments of its format.\<close>

definition printk_msg :: "string \<Rightarrow> int list \<Rightarrow> ('z kernel_scheme, unit) kM" where
  "printk_msg fmt args = upd (\<lambda>s. s\<lparr>klog := klog s @ [(fmt, args)]\<rparr>)"

definition store_page :: "addr \<Rightarrow> u8 \<Rightarrow> ('z kernel_scheme, unit) kM" where
  "store_page pa c = upd (\<lambda>s. s\<lparr>mem := memset (mem s) pa c (unat PGSIZE)\<rparr>)"

definition kfree :: "addr \<Rightarrow> ('z kernel_scheme, unit) kM" where
  "kfree pa =
     bnd (gets kend) (\<lambda>e.
     if unat pa mod unat PGSIZE \<noteq> 0 \<or> pa < e \<or> pa \<ge> PHYSTOP then panic ''kfree''
     else
       bnd (store_page pa 1) (\<lambda>_.
       bnd (upd (\<lambda>s. s\<lparr>mem := sd64 (mem s) pa (freelist s)\<rparr>)) (\<lambda>_.
       upd (\<lambda>s. s\<lparr>freelist := pa\<rparr>))))"

definition kalloc :: "('z kernel_scheme, addr) kM" where
  "kalloc =
     bnd (gets freelist) (\<lambda>r.
     bnd (whenM (r \<noteq> 0) (upd (\<lambda>s. s\<lparr>freelist := ld64 (mem s) r\<rparr>))) (\<lambda>_.
     bnd (whenM (r \<noteq> 0) (store_page r 5)) (\<lambda>_.
     ret r)))"

text \<open>The loop of \<^verbatim>\<open>freerange\<close> visits at most \<open>2 ^ 52\<close> pages, all that a 64-bit address
  space has; when it has not stopped by then it never does.\<close>

fun freerange_loop :: "nat \<Rightarrow> addr \<Rightarrow> addr \<Rightarrow> ('z kernel_scheme, unit) kM" where
  "freerange_loop 0 p pa_end = hang"
| "freerange_loop (Suc fuel) p pa_end =
     (if p + PGSIZE \<le> pa_end
      then bnd (kfree p) (\<lambda>_. freerange_loop fuel (p + PGSIZE) pa_end)
      else ret ())"

definition freerange :: "addr \<Rightarrow> addr \<Rightarrow> ('z kernel_scheme, unit) kM" where
  "freerange pa_start pa_end = freerange_loop (2 ^ 52) (PGROUNDUP pa_start) pa_end"

definition kinit :: "('z kernel_scheme, unit) kM" where
  "kinit = bnd (gets kend) (\<lambda>e. freerange e PHYSTOP)"

subsection \<open>Pages\<close>

definition page_aligned :: "addr \<Rightarrow> bool" where
  "page_aligned a \<longleftrightarrow> unat a mod 4096 = 0"

lemma page_aligned_add: "page_aligned a \<Longrightarrow> page_aligned (a + 4096)"
  unfolding page_aligned_def by (simp add: unat_word_ariths mod_mod_cancel)

lemma page_aligned_bound: "page_aligned p \<Longrightarrow> unat p + 4096 \<le> 2 ^ 64"
proof -
  assume "page_aligned p"
  then obtain k where k: "unat p = 4096 * k" by (auto simp: page_aligned_def mod_eq_0_iff_dvd)
  then have "k < 2 ^ 52" using unat_less_64 [of p] by simp
  with k show ?thesis by simp
qed

lemma in_page_iff: "page_aligned p \<Longrightarrow> in_range p 4096 a \<longleftrightarrow> PGROUNDDOWN a = p"
proof
  assume p: "page_aligned p" and "in_range p 4096 a"
  then have k: "unat (a - p) < 4096" by (simp add: in_range_def)
  have "unat (p + of_nat (unat (a - p))) = unat p + unat (a - p)"
    using k page_aligned_bound [OF p] by (intro unat_add_small) simp
  then have "unat a = unat p + unat (a - p)" by simp
  then have "unat a div 4096 * 4096 = (unat p + unat (a - p)) div 4096 * 4096" by simp
  also have "\<dots> = unat p"
    using k p unfolding page_aligned_def by (auto simp: mod_eq_0_iff_dvd elim: dvdE)
  finally have "unat a div 4096 * 4096 = unat p" .
  then show "PGROUNDDOWN a = p" by (simp add: word_unat_eq_iff unat_PGROUNDDOWN)
next
  assume "page_aligned p" and "PGROUNDDOWN a = p"
  then show "in_range p 4096 a" using unat_offset_in_page [of a] by (simp add: in_range_def)
qed

lemma ld64_in_page: "page_aligned p \<Longrightarrow> in_range p 8 a \<Longrightarrow> PGROUNDDOWN a = p"
  by (auto simp: in_range_def simp flip: in_page_iff)

definition fill_page :: "memory \<Rightarrow> addr \<Rightarrow> u8 \<Rightarrow> memory" where
  "fill_page m p c = (\<lambda>a. if PGROUNDDOWN a = p then c else m a)"

lemma memset_page: "page_aligned p \<Longrightarrow> memset m p c 4096 = fill_page m p c"
  by (simp add: memset_eq fill_page_def in_page_iff)

lemma ld64_fill_page_other [mem_simps]:
  "page_aligned p \<Longrightarrow> page_aligned q \<Longrightarrow> p \<noteq> q \<Longrightarrow> ld64 (fill_page m p c) q = ld64 m q"
  by (rule ld64_cong) (auto simp: fill_page_def dest: ld64_in_page)

lemma ld64_sd64_page [mem_simps]:
  "page_aligned p \<Longrightarrow> page_aligned q \<Longrightarrow> p \<noteq> q \<Longrightarrow> ld64 (sd64 m p v) q = ld64 m q"
  by (rule ld64_cong) (metis ld64_in_page sd64_outside)

subsection \<open>The free list\<close>

text \<open>\<open>flist m p ps\<close>: the chain of next pointers from \<open>p\<close> visits the pages \<open>ps\<close> and ends
  in a null pointer.\<close>

fun flist :: "memory \<Rightarrow> addr \<Rightarrow> addr list \<Rightarrow> bool" where
  "flist m p [] \<longleftrightarrow> p = 0"
| "flist m p (x # xs) \<longleftrightarrow> p = x \<and> x \<noteq> 0 \<and> flist m (ld64 m x) xs"

definition kpage :: "'z kernel_scheme \<Rightarrow> addr \<Rightarrow> bool" where
  "kpage s p \<longleftrightarrow> page_aligned p \<and> kend s \<le> p \<and> p < PHYSTOP"

definition kmem_inv :: "'z kernel_scheme \<Rightarrow> addr list \<Rightarrow> bool" where
  "kmem_inv s ps \<longleftrightarrow> KERNBASE \<le> kend s \<and> flist (mem s) (freelist s) ps \<and> distinct ps
     \<and> (\<forall>p\<in>set ps. kpage s p)"

lemma flist_cong:
  "(\<And>p. p \<in> set ps \<Longrightarrow> ld64 m p = ld64 m' p) \<Longrightarrow> flist m q ps = flist m' q ps"
  by (induction ps arbitrary: q) auto

lemma kpage_not_null: "KERNBASE \<le> kend s \<Longrightarrow> kpage s p \<Longrightarrow> p \<noteq> 0"
proof
  assume "KERNBASE \<le> kend s" "kpage s p" "p = 0"
  then have "unat KERNBASE \<le> unat (kend s)" "unat (kend s) \<le> 0"
    by (simp_all add: kpage_def word_le_nat_alt)
  then show False by (simp add: KERNBASE_def)
qed

lemma kalloc_Nil: "kmem_inv s [] \<Longrightarrow> kalloc s = Ok 0 s"
  by (simp add: kmem_inv_def kalloc_def monad_defs)

lemma kalloc_Cons:
  assumes "kmem_inv s (p # ps)"
  shows "kalloc s = Ok p (s\<lparr>freelist := ld64 (mem s) p, mem := fill_page (mem s) p 5\<rparr>)"
      (is "kalloc s = Ok p ?t")
    and "kmem_inv (s\<lparr>freelist := ld64 (mem s) p, mem := fill_page (mem s) p 5\<rparr>) ps"
proof -
  from assms have p: "p \<noteq> 0" "freelist s = p" "page_aligned p" "p \<notin> set ps"
    and al: "\<And>q. q \<in> set ps \<Longrightarrow> page_aligned q"
    by (auto simp: kmem_inv_def kpage_def)
  show "kalloc s = Ok p ?t"
    using p by (simp add: kalloc_def store_page_def PGSIZE_def memset_page monad_defs)
  have "flist (fill_page (mem s) p 5) (ld64 (mem s) p) ps = flist (mem s) (ld64 (mem s) p) ps"
    using p al by (intro flist_cong ld64_fill_page_other) auto
  with assms show "kmem_inv ?t ps" by (auto simp: kmem_inv_def kpage_def)
qed

lemma kfree_invalid: "\<not> kpage s p \<Longrightarrow> kfree p s = Panic ''kfree''"
  by (auto simp: kfree_def kpage_def page_aligned_def PGSIZE_def monad_defs)

lemma kfree_valid:
  assumes "kmem_inv s ps" and "kpage s p" and "p \<notin> set ps"
  shows "kfree p s = Ok () (s\<lparr>mem := sd64 (fill_page (mem s) p 1) p (freelist s), freelist := p\<rparr>)"
      (is "kfree p s = Ok () ?t")
    and "kmem_inv (s\<lparr>mem := sd64 (fill_page (mem s) p 1) p (freelist s), freelist := p\<rparr>) (p # ps)"
proof -
  from assms have p: "page_aligned p" "kend s \<le> p" "p < PHYSTOP"
    and al: "\<And>q. q \<in> set ps \<Longrightarrow> page_aligned q"
    by (auto simp: kmem_inv_def kpage_def)
  show "kfree p s = Ok () ?t"
    using p by (auto simp: kfree_def store_page_def page_aligned_def PGSIZE_def monad_defs
        memset_page)
  have "flist (sd64 (fill_page (mem s) p 1) p (freelist s)) (freelist s) ps =
      flist (mem s) (freelist s) ps"
    using p al assms(3) by (intro flist_cong) (metis ld64_fill_page_other ld64_sd64_page)
  with assms kpage_not_null [of s p] show "kmem_inv ?t (p # ps)"
    by (auto simp: kmem_inv_def kpage_def)
qed

subsection \<open>Booting the allocator\<close>

lemma unat_PHYSTOP: "unat PHYSTOP = 4096 * 557056"
  by (simp add: PHYSTOP_def KERNBASE_def)

lemma page_aligned_PGROUNDUP: "page_aligned (PGROUNDUP a)"
  by (simp add: page_aligned_def PGROUNDUP_DOWN)

lemma aligned_next:
  assumes "page_aligned p" "page_aligned q" "unat p + 4096 < 2 ^ 64"
  shows "p \<le> q \<longleftrightarrow> q = p \<or> p + 4096 \<le> q"
proof -
  obtain a b where ab: "unat p = 4096 * a" "unat q = 4096 * b"
    using assms(1,2) unfolding page_aligned_def mod_eq_0_iff_dvd by (elim dvdE)
  have "unat (p + 4096) = 4096 * Suc a" using unat_add_small [of p 4096] assms(3) ab(1) by simp
  moreover have "4096 * a \<le> 4096 * b \<longleftrightarrow> 4096 * b = 4096 * a \<or> 4096 * Suc a \<le> 4096 * b"
    unfolding mult_le_cancel1 mult_cancel1 by auto
  ultimately show ?thesis unfolding word_le_nat_alt word_unat_eq_iff ab by (simp only:)
qed

lemma freerange_loop_spec:
  assumes "kmem_inv s ps" "page_aligned p" "kend s \<le> p" "unat p + 4096 * n = unat PHYSTOP"
    and "\<And>q. q \<in> set ps \<Longrightarrow> q < p" and "n < fuel"
  shows "\<exists>t qs. freerange_loop fuel p PHYSTOP s = Ok () t \<and> kmem_inv t qs \<and> kend t = kend s
    \<and> set qs = set ps \<union> {q. page_aligned q \<and> p \<le> q \<and> q < PHYSTOP}"
  using assms
proof (induction n arbitrary: s ps p fuel)
  case 0
  then have "p = PHYSTOP" by (simp add: word_unat_eq_iff)
  moreover have "\<not> PHYSTOP + PGSIZE \<le> PHYSTOP" by (simp add: PHYSTOP_def KERNBASE_def PGSIZE_def)
  moreover obtain f where "fuel = Suc f" using "0.prems"(6) by (cases fuel) auto
  ultimately show ?case using "0.prems"(1)
    by (intro exI [of _ s] exI [of _ ps]) (auto simp: ret_def dest: leD)
next
  case (Suc n)
  note prems = Suc.prems
  obtain f where f: "fuel = Suc f" "n < f" using prems(6) by (cases fuel) auto
  have bound: "unat p + 4096 * Suc n < 2 ^ 64" using prems(4) by (simp add: unat_PHYSTOP)
  have u: "unat (p + 4096) = unat p + 4096" using unat_add_small [of p 4096] bound by simp
  have p: "p < PHYSTOP" "p + 4096 \<le> PHYSTOP" "p < p + 4096" "p \<notin> set ps"
    using prems(4,5) u by (auto simp: word_less_nat_alt word_le_nat_alt)
  let ?t = "s\<lparr>mem := sd64 (fill_page (mem s) p 1) p (freelist s), freelist := p\<rparr>"
  have kf: "kfree p s = Ok () ?t" "kmem_inv ?t (p # ps)"
    using kfree_valid [OF prems(1) _ p(4)] prems(2,3) p(1) by (simp_all add: kpage_def)
  have "\<exists>t qs. freerange_loop f (p + 4096) PHYSTOP ?t = Ok () t \<and> kmem_inv t qs \<and> kend t = kend ?t
    \<and> set qs = set (p # ps) \<union> {q. page_aligned q \<and> p + 4096 \<le> q \<and> q < PHYSTOP}"
    using prems(3-5) p(3) u f(2)
    by (intro Suc.IH [OF kf(2)] page_aligned_add [OF prems(2)]) (auto intro: less_trans)
  moreover have "freerange_loop fuel p PHYSTOP s = freerange_loop f (p + 4096) PHYSTOP ?t"
    using kf(1) p(2) by (simp add: f(1) PGSIZE_def bnd_def)
  moreover have "{q. page_aligned q \<and> p \<le> q \<and> q < PHYSTOP} =
      insert p {q. page_aligned q \<and> p + 4096 \<le> q \<and> q < PHYSTOP}"
    using aligned_next [OF prems(2)] bound p(1) prems(2) by auto
  ultimately show ?case by auto
qed

subsection \<open>Properties\<close>

text \<open>C4 \<^verbatim>\<open>kinit\<close> puts every whole page between the end of the kernel and \<open>PHYSTOP\<close> on the
  free list, once, and nothing else.\<close>

theorem kinit_collects_all_pages:
  assumes "KERNBASE \<le> kend s" and "kend s \<le> PHYSTOP" and "freelist s = 0"
  shows "\<exists>t ps. kinit s = Ok () t \<and> kmem_inv t ps \<and> distinct ps
    \<and> set ps = {q. page_aligned q \<and> kend s \<le> q \<and> q < PHYSTOP}"
proof -
  let ?p = "PGROUNDUP (kend s)"
  have e: "unat (kend s) \<le> 4096 * 557056" using assms(2) unat_PHYSTOP by (simp add: word_le_nat_alt)
  have up: "unat ?p = (unat (kend s) + 4095) div 4096 * 4096" using e by (intro unat_PGROUNDUP) simp
  have "unat (kend s) + 4095 = (unat (kend s) + 4095) div 4096 * 4096 + (unat (kend s) + 4095) mod 4096"
    by simp
  moreover have "(unat (kend s) + 4095) mod 4096 < 4096" by simp
  ultimately have ge: "kend s \<le> ?p" unfolding word_le_nat_alt up by linarith
  define n where "n = 557056 - (unat (kend s) + 4095) div 4096"
  have n: "unat ?p + 4096 * n = unat PHYSTOP" unfolding up n_def unat_PHYSTOP using e by simp
  have "kmem_inv s []" using assms by (simp add: kmem_inv_def)
  moreover have "n < 2 ^ 52" by (simp add: n_def)
  ultimately have "\<exists>t qs. freerange_loop (2 ^ 52) ?p PHYSTOP s = Ok () t \<and> kmem_inv t qs \<and> kend t = kend s
      \<and> set qs = set [] \<union> {q. page_aligned q \<and> ?p \<le> q \<and> q < PHYSTOP}"
    by (intro freerange_loop_spec [OF _ page_aligned_PGROUNDUP ge n]) auto
  then obtain t qs where t: "kinit s = Ok () t" "kmem_inv t qs"
    "set qs = {q. page_aligned q \<and> ?p \<le> q \<and> q < PHYSTOP}"
    by (auto simp: kinit_def freerange_def bnd_def gets_def)
  have "?p \<le> q \<longleftrightarrow> kend s \<le> q" if al: "page_aligned q" for q
  proof -
    obtain b where "unat q = 4096 * b"
      using al unfolding page_aligned_def mod_eq_0_iff_dvd by (elim dvdE)
    moreover have "(unat (kend s) + 4095) div 4096 < Suc b \<longleftrightarrow> unat (kend s) + 4095 < Suc b * 4096"
      by (rule div_less_iff_less_mult) simp
    ultimately show ?thesis unfolding word_le_nat_alt up by (simp add: less_Suc_eq_le mult.commute)
  qed
  then have "set qs = {q. page_aligned q \<and> kend s \<le> q \<and> q < PHYSTOP}"
    unfolding t(3) by (simp cong: conj_cong)
  then show ?thesis using t(1,2) by (auto simp: kmem_inv_def)
qed

definition boot_demo :: kernel where
  "boot_demo = \<lparr>mem = (\<lambda>_. 0), freelist = 0, kend = 0x80021a30, klog = []\<rparr>"

theorem kinit_collects_all_pages_witness:
  "\<exists>t ps. kinit boot_demo = Ok () t \<and> kmem_inv t ps \<and> distinct ps
    \<and> set ps = {q. page_aligned q \<and> kend boot_demo \<le> q \<and> q < PHYSTOP}"
  by (rule kinit_collects_all_pages) (simp_all add: boot_demo_def KERNBASE_def PHYSTOP_def)

text \<open>C5 \<^verbatim>\<open>kalloc\<close> takes the first free page off the list, fills it with junk and touches no
  other byte; freeing that page puts it back, and the allocator returns it next.\<close>

theorem kalloc_kfree_roundtrip:
  assumes "kmem_inv s (p # ps)"
  shows "\<exists>t u v. kalloc s = Ok p t \<and> kmem_inv t ps
    \<and> (\<forall>a. mem t a = (if in_range p 4096 a then 5 else mem s a))
    \<and> kfree p t = Ok () u \<and> kmem_inv u (p # ps) \<and> kalloc u = Ok p v"
proof -
  let ?t = "s\<lparr>freelist := ld64 (mem s) p, mem := fill_page (mem s) p 5\<rparr>"
  note t = kalloc_Cons [OF assms]
  have p: "kpage ?t p" "p \<notin> set ps" "page_aligned p" using assms by (auto simp: kmem_inv_def kpage_def)
  note u = kfree_valid [OF t(2) p(1,2)]
  show ?thesis
    using t u kalloc_Cons(1) [OF u(2)] p(3)
    by (intro exI conjI) (assumption | simp add: fill_page_def in_page_iff)+
qed

theorem kalloc_kfree_roundtrip_witness:
  "\<exists>t u v. kalloc (boot_demo\<lparr>freelist := 0x80022000\<rparr>) = Ok 0x80022000 t \<and> kmem_inv t []
    \<and> (\<forall>a. mem t a = (if in_range 0x80022000 4096 a then 5 else mem (boot_demo\<lparr>freelist := 0x80022000\<rparr>) a))
    \<and> kfree 0x80022000 t = Ok () u \<and> kmem_inv u [0x80022000] \<and> kalloc u = Ok 0x80022000 v"
  by (rule kalloc_kfree_roundtrip)
    (simp add: boot_demo_def kmem_inv_def kpage_def page_aligned_def KERNBASE_def PHYSTOP_def ld64_def)

end
