(* ===== verification/Vm.thy ===== *)
theory Vm
  imports Kalloc
begin

text \<open>
  Virtual memory, \<^verbatim>\<open>kernel/vm.c\<close> (with \<^verbatim>\<open>proc_mapstacks\<close> of \<^verbatim>\<open>kernel/proc.c\<close>): Sv39 page
  tables as they lie in physical memory, and the routines that walk, extend, copy and free them.
  The kernel maps physical memory one to one, so that a kernel pointer to a page is its
  physical address and a page-table entry is read and written with \<open>ld64\<close> and \<open>sd64\<close>.

  A kernel buffer that \<^verbatim>\<open>copyout\<close> reads (a stack variable, a block of the buffer cache) is
  passed by value as a list of bytes; \<^verbatim>\<open>copyin\<close> and \<^verbatim>\<open>copyinstr\<close> return the bytes that the
  code has stored into its kernel buffer, also when they fail halfway.

  The loops that visit consecutive user pages end after at most \<open>2 ^ 26 + 2\<close> rounds, because
  the walk of an address from \<open>MAXVA = 2 ^ 38\<close> on panics or returns an error; this is the fuel
  \<open>vm_fuel\<close>.
\<close>

record vmkernel = kernel +
  etext :: addr
  trampoline :: addr
  kernel_pagetable :: pagetable
  satp :: u64

definition vm_fuel :: nat where
  "vm_fuel = 2 ^ 26 + 2"

definition load64 :: "addr \<Rightarrow> ('z kernel_scheme, u64) kM" where
  "load64 a = gets (\<lambda>s. ld64 (mem s) a)"

definition store64 :: "addr \<Rightarrow> u64 \<Rightarrow> ('z kernel_scheme, unit) kM" where
  "store64 a v = upd (\<lambda>s. s\<lparr>mem := sd64 (mem s) a v\<rparr>)"

text \<open>The address \<^verbatim>\<open>&pagetable[i]\<close>.\<close>

definition pte_addr :: "pagetable \<Rightarrow> u64 \<Rightarrow> addr" where
  "pte_addr pt i = pt + 8 * i"

fun walk_loop :: "nat \<Rightarrow> pagetable \<Rightarrow> u64 \<Rightarrow> bool \<Rightarrow> ('z kernel_scheme, addr) kM" where
  "walk_loop 0 pt va alloc = ret (pte_addr pt (PX 0 va))"
| "walk_loop (Suc l) pt va alloc =
     bnd (load64 (pte_addr pt (PX (Suc l) va))) (\<lambda>pte.
     if pte AND PTE_V \<noteq> 0 then walk_loop l (PTE2PA pte) va alloc
     else if \<not> alloc then ret 0
     else
       bnd kalloc (\<lambda>p.
       if p = 0 then ret 0
       else
         bnd (store_page p 0) (\<lambda>_.
         bnd (store64 (pte_addr pt (PX (Suc l) va)) (PA2PTE p OR PTE_V)) (\<lambda>_.
         walk_loop l p va alloc))))"

definition walk :: "pagetable \<Rightarrow> u64 \<Rightarrow> bool \<Rightarrow> ('z kernel_scheme, addr) kM" where
  "walk pt va alloc = (if va \<ge> MAXVA then panic ''walk'' else walk_loop 2 pt va alloc)"

definition walkaddr :: "pagetable \<Rightarrow> u64 \<Rightarrow> ('z kernel_scheme, addr) kM" where
  "walkaddr pt va =
     (if va \<ge> MAXVA then ret 0
      else
        bnd (walk pt va False) (\<lambda>pte.
        if pte = 0 then ret 0
        else
          bnd (load64 pte) (\<lambda>e.
          if e AND PTE_V = 0 then ret 0
          else if e AND PTE_U = 0 then ret 0
          else ret (PTE2PA e))))"

fun mappages_loop :: "nat \<Rightarrow> pagetable \<Rightarrow> u64 \<Rightarrow> u64 \<Rightarrow> u64 \<Rightarrow> u64 \<Rightarrow> ('z kernel_scheme, int) kM" where
  "mappages_loop 0 pt a last_a pa perm = hang"
| "mappages_loop (Suc fuel) pt a last_a pa perm =
     bnd (walk pt a True) (\<lambda>pte.
     if pte = 0 then ret (- 1)
     else
       bnd (load64 pte) (\<lambda>e.
       if e AND PTE_V \<noteq> 0 then panic ''mappages: remap''
       else
         bnd (store64 pte (PA2PTE pa OR perm OR PTE_V)) (\<lambda>_.
         if a = last_a then ret 0
         else mappages_loop fuel pt (a + PGSIZE) last_a (pa + PGSIZE) perm)))"

definition mappages :: "pagetable \<Rightarrow> u64 \<Rightarrow> u64 \<Rightarrow> u64 \<Rightarrow> u64 \<Rightarrow> ('z kernel_scheme, int) kM" where
  "mappages pt va size_b pa perm =
     (if va mod PGSIZE \<noteq> 0 then panic ''mappages: va not aligned''
      else if size_b mod PGSIZE \<noteq> 0 then panic ''mappages: size not aligned''
      else if size_b = 0 then panic ''mappages: size''
      else mappages_loop vm_fuel pt va (va + size_b - PGSIZE) pa perm)"

definition kvmmap :: "pagetable \<Rightarrow> u64 \<Rightarrow> u64 \<Rightarrow> u64 \<Rightarrow> u64 \<Rightarrow> ('z kernel_scheme, unit) kM" where
  "kvmmap kpgtbl va pa sz perm =
     bnd (mappages kpgtbl va sz pa perm) (\<lambda>r. whenM (r \<noteq> 0) (panic ''kvmmap''))"

definition proc_mapstacks :: "pagetable \<Rightarrow> ('z kernel_scheme, unit) kM" where
  "proc_mapstacks kpgtbl =
     forM [0..<NPROC] (\<lambda>i.
     bnd kalloc (\<lambda>pa.
     if pa = 0 then panic ''kalloc''
     else kvmmap kpgtbl (KSTACK i) pa PGSIZE (PTE_R OR PTE_W)))"

definition kvmmake :: "('z vmkernel_scheme, pagetable) kM" where
  "kvmmake =
     bnd kalloc (\<lambda>kpgtbl.
     bnd (store_page kpgtbl 0) (\<lambda>_.
     bnd (gets etext) (\<lambda>et.
     bnd (gets trampoline) (\<lambda>tr.
     bnd (kvmmap kpgtbl UART0 UART0 PGSIZE (PTE_R OR PTE_W)) (\<lambda>_.
     bnd (kvmmap kpgtbl VIRTIO0 VIRTIO0 PGSIZE (PTE_R OR PTE_W)) (\<lambda>_.
     bnd (kvmmap kpgtbl PLIC PLIC 0x4000000 (PTE_R OR PTE_W)) (\<lambda>_.
     bnd (kvmmap kpgtbl KERNBASE KERNBASE (et - KERNBASE) (PTE_R OR PTE_X)) (\<lambda>_.
     bnd (kvmmap kpgtbl et et (PHYSTOP - et) (PTE_R OR PTE_W)) (\<lambda>_.
     bnd (kvmmap kpgtbl TRAMPOLINE tr PGSIZE (PTE_R OR PTE_X)) (\<lambda>_.
     bnd (proc_mapstacks kpgtbl) (\<lambda>_.
     ret kpgtbl)))))))))))"

definition kvminit :: "('z vmkernel_scheme, unit) kM" where
  "kvminit = bnd kvmmake (\<lambda>pt. upd (\<lambda>s. s\<lparr>kernel_pagetable := pt\<rparr>))"

definition kvminithart :: "('z vmkernel_scheme, unit) kM" where
  "kvminithart = upd (\<lambda>s. s\<lparr>satp := MAKE_SATP (kernel_pagetable s)\<rparr>)"

definition uvmcreate :: "('z kernel_scheme, pagetable) kM" where
  "uvmcreate =
     bnd kalloc (\<lambda>pt.
     if pt = 0 then ret 0
     else bnd (store_page pt 0) (\<lambda>_. ret pt))"

fun uvmunmap_loop :: "nat \<Rightarrow> pagetable \<Rightarrow> u64 \<Rightarrow> u64 \<Rightarrow> bool \<Rightarrow> ('z kernel_scheme, unit) kM" where
  "uvmunmap_loop 0 pt a lim do_free = hang"
| "uvmunmap_loop (Suc fuel) pt a lim do_free =
     (if a < lim then
        bnd (walk pt a False) (\<lambda>pte.
        if pte = 0 then uvmunmap_loop fuel pt (a + PGSIZE) lim do_free
        else
          bnd (load64 pte) (\<lambda>e.
          if e AND PTE_V = 0 then uvmunmap_loop fuel pt (a + PGSIZE) lim do_free
          else
            bnd (whenM do_free (kfree (PTE2PA e))) (\<lambda>_.
            bnd (store64 pte 0) (\<lambda>_.
            uvmunmap_loop fuel pt (a + PGSIZE) lim do_free))))
      else ret ())"

definition uvmunmap :: "pagetable \<Rightarrow> u64 \<Rightarrow> u64 \<Rightarrow> bool \<Rightarrow> ('z kernel_scheme, unit) kM" where
  "uvmunmap pt va npages do_free =
     (if va mod PGSIZE \<noteq> 0 then panic ''uvmunmap: not aligned''
      else uvmunmap_loop vm_fuel pt va (va + npages * PGSIZE) do_free)"

text \<open>\<^verbatim>\<open>int npages\<close>: the quotient is cut to 32 bits and sign-extended for the call.\<close>

definition uvmdealloc :: "pagetable \<Rightarrow> u64 \<Rightarrow> u64 \<Rightarrow> ('z kernel_scheme, u64) kM" where
  "uvmdealloc pt oldsz newsz =
     (if newsz \<ge> oldsz then ret oldsz
      else
        bnd (whenM (PGROUNDUP newsz < PGROUNDUP oldsz)
          (let npages = ucast ((PGROUNDUP oldsz - PGROUNDUP newsz) div PGSIZE) :: u32
           in uvmunmap pt (PGROUNDUP newsz) (scast npages) True)) (\<lambda>_.
        ret newsz))"

fun uvmalloc_loop :: "nat \<Rightarrow> pagetable \<Rightarrow> u64 \<Rightarrow> u64 \<Rightarrow> u64 \<Rightarrow> u64 \<Rightarrow> ('z kernel_scheme, u64) kM" where
  "uvmalloc_loop 0 pt a oldsz newsz xperm = hang"
| "uvmalloc_loop (Suc fuel) pt a oldsz newsz xperm =
     (if a < newsz then
        bnd kalloc (\<lambda>p.
        if p = 0 then bnd (uvmdealloc pt a oldsz) (\<lambda>_. ret 0)
        else
          bnd (store_page p 0) (\<lambda>_.
          bnd (mappages pt a PGSIZE p (PTE_R OR PTE_U OR xperm)) (\<lambda>r.
          if r \<noteq> 0 then bnd (kfree p) (\<lambda>_. bnd (uvmdealloc pt a oldsz) (\<lambda>_. ret 0))
          else uvmalloc_loop fuel pt (a + PGSIZE) oldsz newsz xperm)))
      else ret newsz)"

definition uvmalloc :: "pagetable \<Rightarrow> u64 \<Rightarrow> u64 \<Rightarrow> u64 \<Rightarrow> ('z kernel_scheme, u64) kM" where
  "uvmalloc pt oldsz newsz xperm =
     (if newsz < oldsz then ret oldsz
      else uvmalloc_loop vm_fuel pt (PGROUNDUP oldsz) (PGROUNDUP oldsz) newsz xperm)"

text \<open>The recursion of \<^verbatim>\<open>freewalk\<close> follows chains of page-table pages; one longer than the
  \<open>2 ^ 44\<close> physical page numbers of an entry has a cycle and never ends.\<close>

fun freewalk_fuel :: "nat \<Rightarrow> pagetable \<Rightarrow> ('z kernel_scheme, unit) kM" where
  "freewalk_fuel 0 pt = hang"
| "freewalk_fuel (Suc d) pt =
     bnd (forM [0..<512] (\<lambda>i.
       bnd (load64 (pte_addr pt (of_nat i))) (\<lambda>pte.
       if pte AND PTE_V \<noteq> 0 \<and> pte AND (PTE_R OR PTE_W OR PTE_X) = 0 then
         bnd (freewalk_fuel d (PTE2PA pte)) (\<lambda>_.
         store64 (pte_addr pt (of_nat i)) 0)
       else whenM (pte AND PTE_V \<noteq> 0) (panic ''freewalk: leaf'')))) (\<lambda>_.
     kfree pt)"

definition freewalk :: "pagetable \<Rightarrow> ('z kernel_scheme, unit) kM" where
  "freewalk pt = freewalk_fuel (2 ^ 44 + 1) pt"

definition uvmfree :: "pagetable \<Rightarrow> u64 \<Rightarrow> ('z kernel_scheme, unit) kM" where
  "uvmfree pt sz =
     bnd (whenM (sz > 0) (uvmunmap pt 0 (PGROUNDUP sz div PGSIZE) True)) (\<lambda>_.
     freewalk pt)"

text \<open>The \<^verbatim>\<open>err\<close> label of \<^verbatim>\<open>uvmcopy\<close>.\<close>

definition uvmcopy_err :: "pagetable \<Rightarrow> u64 \<Rightarrow> ('z kernel_scheme, int) kM" where
  "uvmcopy_err new i = bnd (uvmunmap new 0 (i div PGSIZE) True) (\<lambda>_. ret (- 1))"

fun uvmcopy_loop :: "nat \<Rightarrow> pagetable \<Rightarrow> pagetable \<Rightarrow> u64 \<Rightarrow> u64 \<Rightarrow> ('z kernel_scheme, int) kM" where
  "uvmcopy_loop 0 old new i sz = hang"
| "uvmcopy_loop (Suc fuel) old new i sz =
     (if i < sz then
        bnd (walk old i False) (\<lambda>pte.
        if pte = 0 then uvmcopy_loop fuel old new (i + PGSIZE) sz
        else
          bnd (load64 pte) (\<lambda>e.
          if e AND PTE_V = 0 then uvmcopy_loop fuel old new (i + PGSIZE) sz
          else
            bnd kalloc (\<lambda>p.
            if p = 0 then uvmcopy_err new i
            else
              bnd (upd (\<lambda>s. s\<lparr>mem := memmove (mem s) p (PTE2PA e) (unat PGSIZE)\<rparr>)) (\<lambda>_.
              bnd (mappages new i PGSIZE p (PTE_FLAGS e)) (\<lambda>r.
              if r \<noteq> 0 then bnd (kfree p) (\<lambda>_. uvmcopy_err new i)
              else uvmcopy_loop fuel old new (i + PGSIZE) sz)))))
      else ret 0)"

definition uvmcopy :: "pagetable \<Rightarrow> pagetable \<Rightarrow> u64 \<Rightarrow> ('z kernel_scheme, int) kM" where
  "uvmcopy old new sz = uvmcopy_loop vm_fuel old new 0 sz"

definition uvmclear :: "pagetable \<Rightarrow> u64 \<Rightarrow> ('z kernel_scheme, unit) kM" where
  "uvmclear pt va =
     bnd (walk pt va False) (\<lambda>pte.
     if pte = 0 then panic ''uvmclear''
     else bnd (load64 pte) (\<lambda>e. store64 pte (e AND NOT PTE_U)))"

definition ismapped :: "pagetable \<Rightarrow> u64 \<Rightarrow> ('z kernel_scheme, bool) kM" where
  "ismapped pt va =
     bnd (walk pt va False) (\<lambda>pte.
     if pte = 0 then ret False
     else bnd (load64 pte) (\<lambda>e. ret (e AND PTE_V \<noteq> 0)))"

definition vmfault :: "pagetable \<Rightarrow> u64 \<Rightarrow> u64 \<Rightarrow> bool \<Rightarrow> ('z kernel_scheme, u64) kM" where
  "vmfault pt psz va0 rd =
     (if va0 \<ge> psz then ret 0
      else
        let va = PGROUNDDOWN va0 in
        bnd (ismapped pt va) (\<lambda>mapped.
        if mapped then ret 0
        else
          bnd kalloc (\<lambda>p.
          if p = 0 then ret 0
          else
            bnd (store_page p 0) (\<lambda>_.
            bnd (mappages pt va PGSIZE p (PTE_W OR PTE_U OR PTE_R)) (\<lambda>r.
            if r \<noteq> 0 then bnd (kfree p) (\<lambda>_. ret 0)
            else ret p)))))"

text \<open>\<^verbatim>\<open>memmove\<close> between a kernel object and memory: the bytes at an address, and a store of
  bytes at an address.\<close>

definition ldbytes :: "memory \<Rightarrow> addr \<Rightarrow> nat \<Rightarrow> u8 list" where
  "ldbytes m a n = map (\<lambda>i. m (a + of_nat i)) [0..<n]"

fun stbytes :: "memory \<Rightarrow> addr \<Rightarrow> u8 list \<Rightarrow> memory" where
  "stbytes m a [] = m"
| "stbytes m a (b # bs) = stbytes (m(a := b)) (a + 1) bs"

text \<open>The translation step shared by the copy routines: \<^verbatim>\<open>walkaddr\<close>, then \<^verbatim>\<open>vmfault\<close> when it
  fails.\<close>

definition user_page :: "pagetable \<Rightarrow> u64 \<Rightarrow> u64 \<Rightarrow> bool \<Rightarrow> ('z kernel_scheme, u64) kM" where
  "user_page pt psz va0 rd =
     bnd (walkaddr pt va0) (\<lambda>pa0. if pa0 = 0 then vmfault pt psz va0 rd else ret pa0)"

text \<open>A load through a null pointer is a trap from the kernel, which \<^verbatim>\<open>kerneltrap\<close> answers with
  a panic.\<close>

fun copyout_loop :: "nat \<Rightarrow> pagetable \<Rightarrow> u64 \<Rightarrow> u64 \<Rightarrow> u8 list \<Rightarrow> ('z kernel_scheme, int) kM" where
  "copyout_loop 0 pt psz dstva src = hang"
| "copyout_loop (Suc fuel) pt psz dstva src =
     (if src = [] then ret 0
      else
        let va0 = PGROUNDDOWN dstva in
        if va0 \<ge> MAXVA then ret (- 1)
        else
          bnd (user_page pt psz va0 False) (\<lambda>pa0.
          if pa0 = 0 then ret (- 1)
          else
            bnd (walk pt va0 False) (\<lambda>pte.
            if pte = 0 then panic ''kerneltrap''
            else
              bnd (load64 pte) (\<lambda>e.
              if e AND PTE_W = 0 then ret (- 1)
              else
                let n = min (unat (PGSIZE - (dstva - va0))) (length src) in
                bnd (upd (\<lambda>s. s\<lparr>mem := stbytes (mem s) (pa0 + (dstva - va0)) (take n src)\<rparr>)) (\<lambda>_.
                copyout_loop fuel pt psz (va0 + PGSIZE) (drop n src))))))"

definition copyout :: "pagetable \<Rightarrow> u64 \<Rightarrow> u64 \<Rightarrow> u8 list \<Rightarrow> ('z kernel_scheme, int) kM" where
  "copyout pt psz dstva src = copyout_loop vm_fuel pt psz dstva src"

fun copyin_loop :: "nat \<Rightarrow> pagetable \<Rightarrow> u64 \<Rightarrow> u8 list \<Rightarrow> u64 \<Rightarrow> nat \<Rightarrow>
    ('z kernel_scheme, int \<times> u8 list) kM" where
  "copyin_loop 0 pt psz dst srcva len = hang"
| "copyin_loop (Suc fuel) pt psz dst srcva len =
     (if len = 0 then ret (0, dst)
      else
        let va0 = PGROUNDDOWN srcva in
        bnd (user_page pt psz va0 True) (\<lambda>pa0.
        if pa0 = 0 then ret (- 1, dst)
        else
          let n = min (unat (PGSIZE - (srcva - va0))) len in
          bnd (gets (\<lambda>s. ldbytes (mem s) (pa0 + (srcva - va0)) n)) (\<lambda>bs.
          copyin_loop fuel pt psz (dst @ bs) (va0 + PGSIZE) (len - n))))"

definition copyin :: "pagetable \<Rightarrow> u64 \<Rightarrow> u64 \<Rightarrow> nat \<Rightarrow> ('z kernel_scheme, int \<times> u8 list) kM" where
  "copyin pt psz srcva len = copyin_loop vm_fuel pt psz [] srcva len"

text \<open>The inner loop of \<^verbatim>\<open>copyinstr\<close> over at most \<open>n\<close> bytes of one page: whether it met the
  terminator, and the bytes it stored.\<close>

fun copyinstr_page :: "memory \<Rightarrow> addr \<Rightarrow> nat \<Rightarrow> bool \<times> u8 list" where
  "copyinstr_page m p 0 = (False, [])"
| "copyinstr_page m p (Suc n) =
     (if m p = 0 then (True, [0])
      else case copyinstr_page m (p + 1) n of (got, bs) \<Rightarrow> (got, m p # bs))"

fun copyinstr_loop :: "nat \<Rightarrow> pagetable \<Rightarrow> u64 \<Rightarrow> u8 list \<Rightarrow> u64 \<Rightarrow> nat \<Rightarrow>
    ('z kernel_scheme, int \<times> u8 list) kM" where
  "copyinstr_loop 0 pt psz dst srcva mx = hang"
| "copyinstr_loop (Suc fuel) pt psz dst srcva mx =
     (if mx = 0 then ret (- 1, dst)
      else
        let va0 = PGROUNDDOWN srcva in
        bnd (user_page pt psz va0 True) (\<lambda>pa0.
        if pa0 = 0 then ret (- 1, dst)
        else
          let n = min (unat (PGSIZE - (srcva - va0))) mx in
          bnd (gets (\<lambda>s. copyinstr_page (mem s) (pa0 + (srcva - va0)) n)) (\<lambda>(got_null, bs).
          if got_null then ret (0, dst @ bs)
          else copyinstr_loop fuel pt psz (dst @ bs) (va0 + PGSIZE) (mx - n))))"

definition copyinstr :: "pagetable \<Rightarrow> u64 \<Rightarrow> u64 \<Rightarrow> nat \<Rightarrow> ('z kernel_scheme, int \<times> u8 list) kM" where
  "copyinstr pt psz srcva mx = copyinstr_loop vm_fuel pt psz [] srcva mx"

subsection \<open>Frame\<close>

text \<open>The page allocator and the page-table code change memory and the free list only.\<close>

abbreviation kernel_rest :: "'z kernel_scheme \<Rightarrow> addr \<times> (string \<times> int list) list \<times> 'z" where
  "kernel_rest s \<equiv> (kend s, klog s, kernel.more s)"

lemmas kalloc_keep_defs = kalloc_def kfree_def store_page_def load64_def store64_def

lemma keeps_kalloc [keep]: "keeps kernel_rest kalloc" "keeps kernel_rest (kfree p)"
  "keeps kernel_rest (store_page p c)" "keeps kernel_rest (load64 a)" "keeps kernel_rest (store64 a v)"
  unfolding kalloc_keep_defs by (intro keep; simp)+

lemma keeps_walk_loop [keep]: "keeps kernel_rest (walk_loop l pt va alloc)"
  by (induction l arbitrary: pt) (auto intro!: keep)

lemma keeps_walk [keep]: "keeps kernel_rest (walk pt va alloc)" "keeps kernel_rest (walkaddr pt va)"
  unfolding walkaddr_def walk_def by (intro keep)+

lemma keeps_mappages_loop [keep]: "keeps kernel_rest (mappages_loop k pt a l pa perm)"
  by (induction k arbitrary: a pa) (auto intro!: keep)

lemma keeps_mappages [keep]: "keeps kernel_rest (mappages pt va sz pa perm)"
  unfolding mappages_def by (intro keep)

lemma keeps_uvmunmap_loop [keep]: "keeps kernel_rest (uvmunmap_loop k pt a lim fr)"
  by (induction k arbitrary: a) (auto intro!: keep)

lemma keeps_uvmunmap [keep]: "keeps kernel_rest (uvmunmap pt va n fr)" "keeps kernel_rest (uvmdealloc pt a b)"
  "keeps kernel_rest uvmcreate" "keeps kernel_rest (uvmclear pt va)" "keeps kernel_rest (ismapped pt va)"
  unfolding uvmdealloc_def uvmunmap_def uvmcreate_def uvmclear_def ismapped_def by (intro keep)+

lemma keeps_uvmalloc_loop [keep]: "keeps kernel_rest (uvmalloc_loop k pt a o' n x)"
  by (induction k arbitrary: a) (auto intro!: keep)

lemma keeps_uvmalloc [keep]: "keeps kernel_rest (uvmalloc pt a b x)" "keeps kernel_rest (vmfault pt psz va rd)"
  unfolding uvmalloc_def vmfault_def by (intro keep)+

lemma keeps_freewalk_fuel [keep]: "keeps kernel_rest (freewalk_fuel d pt)"
  by (induction d arbitrary: pt) (auto intro!: keep)

lemma keeps_uvmfree [keep]: "keeps kernel_rest (freewalk pt)" "keeps kernel_rest (uvmfree pt sz)"
  "keeps kernel_rest (uvmcopy_err pt i)" "keeps kernel_rest (user_page pt psz va rd)"
  unfolding uvmfree_def freewalk_def uvmcopy_err_def user_page_def by (intro keep)+

lemma keeps_uvmcopy_loop [keep]: "keeps kernel_rest (uvmcopy_loop k old new i sz)"
  by (induction k arbitrary: i) (auto intro!: keep)

lemma keeps_copyout_loop [keep]: "keeps kernel_rest (copyout_loop k pt psz va src)"
  by (induction k arbitrary: va src) (auto simp: Let_def intro!: keep)

lemma keeps_copyin_loop [keep]: "keeps kernel_rest (copyin_loop k pt psz dst va len)"
  by (induction k arbitrary: dst va len) (auto simp: Let_def intro!: keep)

lemma keeps_copyinstr_loop [keep]: "keeps kernel_rest (copyinstr_loop k pt psz dst va len)"
  by (induction k arbitrary: dst va len) (auto simp: Let_def intro!: keep)

lemma keeps_copies [keep]: "keeps kernel_rest (uvmcopy old new sz)" "keeps kernel_rest (copyout pt psz va src)"
  "keeps kernel_rest (copyin pt psz va len)" "keeps kernel_rest (copyinstr pt psz va mx)"
  unfolding uvmcopy_def copyout_def copyin_def copyinstr_def by (intro keep)+

end
