(* ===== verification/Page_Table.thy ===== *)
theory Page_Table
  imports Vm
begin

text \<open>
  The page tables of \<^verbatim>\<open>kernel/vm.c\<close> as abstract maps.  \<open>node m root p\<close> is the page-table page
  that the indices \<open>p\<close> lead to from the root, \<open>pt_lookup m root va\<close> the leaf entry of a
  virtual address (0 where there is none).  A tree is well formed when no page-table page is
  reached along two paths.  The lemmas show that a walk that allocates only adds empty
  page-table pages, that a store to a leaf entry changes that one mapping, and that
  \<^verbatim>\<open>mappages\<close> maps exactly the pages it is asked for.
\<close>

fun node :: "memory \<Rightarrow> pagetable \<Rightarrow> u64 list \<Rightarrow> addr option" where
  "node m pt [] = Some pt"
| "node m pt (i # is) =
     (let pte = ld64 m (pte_addr pt i)
      in if pte AND PTE_V \<noteq> 0 then node m (PTE2PA pte) is else None)"

definition idx_path :: "u64 list \<Rightarrow> bool" where
  "idx_path p \<longleftrightarrow> length p \<le> 2 \<and> (\<forall>i\<in>set p. unat i < 512)"

definition pt_pages :: "memory \<Rightarrow> pagetable \<Rightarrow> addr set" where
  "pt_pages m root = {a. \<exists>p. idx_path p \<and> node m root p = Some a}"

definition pt_wf :: "memory \<Rightarrow> pagetable \<Rightarrow> bool" where
  "pt_wf m root \<longleftrightarrow> page_aligned root \<and>
     (\<forall>p q a. idx_path p \<longrightarrow> idx_path q \<longrightarrow> node m root p = Some a \<longrightarrow> node m root q = Some a
       \<longrightarrow> p = q)"

definition leaf_path :: "u64 \<Rightarrow> u64 list" where
  "leaf_path va = [PX 2 va, PX 1 va]"

definition pt_lookup :: "memory \<Rightarrow> pagetable \<Rightarrow> u64 \<Rightarrow> pte" where
  "pt_lookup m root va =
     (case node m root (leaf_path va) of
        None \<Rightarrow> 0
      | Some l \<Rightarrow> ld64 m (pte_addr l (PX 0 va)))"

subsection \<open>Entries of a page-table page\<close>

lemma unat_times8: "unat i < 512 \<Longrightarrow> unat (8 * i) = 8 * unat i" for i :: u64
  by (simp add: unat_word_ariths)

lemma pte_addr_in_page:
  assumes "page_aligned a" and "unat i < 512" and "in_range (pte_addr a i) 8 x"
  shows "PGROUNDDOWN x = a"
proof -
  have "unat (x - pte_addr a i) < 8" using assms(3) by (simp add: in_range_def)
  moreover have "unat ((x - pte_addr a i) + 8 * i) \<le> unat (x - pte_addr a i) + unat (8 * i)"
    by (simp add: unat_word_ariths)
  moreover have "(x - pte_addr a i) + 8 * i = x - a" by (simp add: pte_addr_def)
  ultimately have "unat (x - a) < 4096"
    using assms(2) by (simp add: unat_times8)
  then show ?thesis using in_page_iff [OF assms(1), of x] by (simp add: in_range_def)
qed

lemma pte_addr_apart:
  assumes "unat i < 512" and "unat j < 512" and "i \<noteq> j"
  shows "8 \<le> unat (pte_addr a j - pte_addr a i)"
proof -
  have "unat i \<noteq> unat j" using assms(3) by (simp add: word_unat_eq_iff)
  then consider "unat i < unat j" | "unat j < unat i" by linarith
  then show ?thesis
    using assms(1,2) by cases (simp_all add: pte_addr_def unat_sub_if' unat_times8)
qed

lemma ld64_sd64_pte:
  assumes "page_aligned a" "page_aligned b" "unat i < 512" "unat j < 512"
  shows "ld64 (sd64 m (pte_addr a i) v) (pte_addr b j) =
    (if a = b \<and> i = j then v else ld64 m (pte_addr b j))"
proof (cases "a = b")
  case True
  then show ?thesis using assms pte_addr_apart [of i j a] pte_addr_apart [of j i a]
    by (auto simp: ld64_sd64_other)
next
  case False
  then have "\<not> in_range (pte_addr a i) 8 x" if "in_range (pte_addr b j) 8 x" for x
    using assms that pte_addr_in_page by blast
  then have "ld64 (sd64 m (pte_addr a i) v) (pte_addr b j) = ld64 m (pte_addr b j)"
    by (intro ld64_cong sd64_outside)
  with False show ?thesis by simp
qed

lemma ld64_fill_page_pte:
  assumes "page_aligned a" and "unat i < 512"
  shows "ld64 (fill_page m p 0) (pte_addr a i) = (if a = p then 0 else ld64 m (pte_addr a i))"
proof (cases "a = p")
  case True
  then have "ld64 (fill_page m p 0) (pte_addr a i) = ld64 (\<lambda>_. 0) (pte_addr a i)"
    using pte_addr_in_page [OF assms] by (intro ld64_cong) (auto simp: fill_page_def)
  also have "\<dots> = 0" by (simp add: ld64_def)
  finally show ?thesis using True by simp
next
  case False
  then show ?thesis using pte_addr_in_page [OF assms]
    by (auto intro!: ld64_cong simp: fill_page_def)
qed

subsection \<open>Nodes\<close>

lemma node_append: "node m pt (p @ q) = (case node m pt p of None \<Rightarrow> None | Some a \<Rightarrow> node m a q)"
  by (induction p arbitrary: pt) (simp_all add: Let_def)

lemma node_aligned: "page_aligned pt \<Longrightarrow> node m pt p = Some a \<Longrightarrow> page_aligned a"
  proof (induction p arbitrary: pt)
  case (Cons i p)
  then show ?case
    using Cons.IH [of "PTE2PA (ld64 m (pte_addr pt i))"]
    by (auto simp: Let_def page_aligned_def split: if_splits)
qed simp

lemma node_cong:
  "(\<And>q j r b. p = q @ j # r \<Longrightarrow> node m pt q = Some b \<Longrightarrow>
      ld64 m' (pte_addr b j) = ld64 m (pte_addr b j)) \<Longrightarrow>
   node m' pt p = node m pt p"
proof (induction p arbitrary: pt)
  case (Cons i p)
  have "ld64 m' (pte_addr pt i) = ld64 m (pte_addr pt i)" by (rule Cons.prems [of "[]"]) simp_all
  moreover have "node m' (PTE2PA (ld64 m (pte_addr pt i))) p = node m (PTE2PA (ld64 m (pte_addr pt i))) p"
    if "ld64 m (pte_addr pt i) AND PTE_V \<noteq> 0"
  proof (rule Cons.IH)
    fix q j r b
    assume "p = q @ j # r" and "node m (PTE2PA (ld64 m (pte_addr pt i))) q = Some b"
    with that show "ld64 m' (pte_addr b j) = ld64 m (pte_addr b j)"
      by (intro Cons.prems [of "i # q"]) simp_all
  qed
  ultimately show ?case by (simp add: Let_def)
qed simp

lemma idx_path_prefix: "idx_path (q @ r) \<Longrightarrow> idx_path q"
  by (auto simp: idx_path_def)

lemma idx_path_simps [simp]: "idx_path (leaf_path va)" "idx_path [PX l va]" "idx_path []"
  by (simp_all add: idx_path_def leaf_path_def PX_less)

lemma length_leaf_path [simp]: "length (leaf_path va) = 2"
  by (simp add: leaf_path_def)

lemma pt_wf_unique:
  "pt_wf m root \<Longrightarrow> idx_path p \<Longrightarrow> idx_path q \<Longrightarrow> node m root p = Some a \<Longrightarrow> node m root q = Some a \<Longrightarrow> p = q"
  unfolding pt_wf_def by blast

lemma pt_wf_aligned: "pt_wf m root \<Longrightarrow> node m root p = Some a \<Longrightarrow> page_aligned a"
  unfolding pt_wf_def by (blast intro: node_aligned)

lemma pt_pagesI: "idx_path p \<Longrightarrow> node m root p = Some a \<Longrightarrow> a \<in> pt_pages m root"
  unfolding pt_pages_def by blast

lemma pt_pages_aligned: "pt_wf m root \<Longrightarrow> a \<in> pt_pages m root \<Longrightarrow> page_aligned a"
  unfolding pt_pages_def by (auto intro: pt_wf_aligned)

text \<open>A store to entry \<open>i\<close> of the node at \<open>q\<close> can change only the nodes below it.\<close>

lemma node_store_other:
  assumes wf: "pt_wf m root" and q: "idx_path q" "node m root q = Some a"
    and i: "unat i < 512" and p: "idx_path p" and not_below: "\<And>r. p \<noteq> q @ i # r"
  shows "node (sd64 m (pte_addr a i) v) root p = node m root p"
proof (rule node_cong)
  fix q' j r b
  assume split: "p = q' @ j # r" and b: "node m root q' = Some b"
  have q': "idx_path q'" "unat j < 512"
    using p split idx_path_prefix [of q' "j # r"] by (auto simp: idx_path_def)
  have "\<not> (a = b \<and> i = j)"
    using pt_wf_unique [OF wf q(1) q'(1) q(2)] b split not_below by auto
  then show "ld64 (sd64 m (pte_addr a i) v) (pte_addr b j) = ld64 m (pte_addr b j)"
    using ld64_sd64_pte [OF pt_wf_aligned [OF wf q(2)] pt_wf_aligned [OF wf b] i q'(2)]
    by (simp only: if_False)
qed

lemma node_fill_fresh:
  assumes wf: "pt_wf m root" and fresh: "f \<notin> pt_pages m root" and p: "idx_path p"
  shows "node (fill_page m f 0) root p = node m root p"
proof (rule node_cong)
  fix q j r b
  assume split: "p = q @ j # r" and b: "node m root q = Some b"
  have q: "idx_path q" "unat j < 512"
    using p split idx_path_prefix [of q "j # r"] by (auto simp: idx_path_def)
  have "b \<noteq> f" using fresh pt_pagesI [OF q(1) b] by blast
  then show "ld64 (fill_page m f 0) (pte_addr b j) = ld64 m (pte_addr b j)"
    using ld64_fill_page_pte [OF pt_wf_aligned [OF wf b] q(2)] by simp
qed

subsection \<open>The invariant of an address space\<close>

definition vm_inv :: "'z kernel_scheme \<Rightarrow> pagetable \<Rightarrow> addr list \<Rightarrow> bool" where
  "vm_inv s pt fl \<longleftrightarrow> kmem_inv s fl \<and> pt_wf (mem s) pt \<and> (\<forall>a\<in>pt_pages (mem s) pt. kpage s a)
     \<and> pt_pages (mem s) pt \<inter> set fl = {}"

text \<open>\<open>pt_grow s t pt fl fl'\<close>: from \<open>s\<close> to \<open>t\<close> the table only gained page-table pages, taken
  from the front of the free list, and no byte outside its pages changed; \<open>pt_ext\<close> says that no
  mapping changed either.\<close>

definition pt_grow :: "'z kernel_scheme \<Rightarrow> 'z kernel_scheme \<Rightarrow> pagetable \<Rightarrow> addr list \<Rightarrow> addr list \<Rightarrow> bool" where
  "pt_grow s t pt fl fl' \<longleftrightarrow> vm_inv t pt fl'
     \<and> (\<exists>us. fl = us @ fl' \<and> pt_pages (mem t) pt = pt_pages (mem s) pt \<union> set us)
     \<and> (\<forall>x. PGROUNDDOWN x \<notin> pt_pages (mem t) pt \<longrightarrow> mem t x = mem s x)
     \<and> t = s\<lparr>mem := mem t, freelist := freelist t\<rparr>"

definition pt_ext :: "'z kernel_scheme \<Rightarrow> 'z kernel_scheme \<Rightarrow> pagetable \<Rightarrow> addr list \<Rightarrow> addr list \<Rightarrow> bool" where
  "pt_ext s t pt fl fl' \<longleftrightarrow> pt_grow s t pt fl fl'
     \<and> (\<forall>va. pt_lookup (mem t) pt va = pt_lookup (mem s) pt va)"

lemma pt_grow_trans:
  assumes "pt_grow s t pt fl fl1" and "pt_grow t u pt fl1 fl2"
  shows "pt_grow s u pt fl fl2"
proof -
  obtain us vs where us: "fl = us @ fl1" "pt_pages (mem t) pt = pt_pages (mem s) pt \<union> set us"
    and vs: "fl1 = vs @ fl2" "pt_pages (mem u) pt = pt_pages (mem t) pt \<union> set vs"
    using assms unfolding pt_grow_def by blast
  have "mem u x = mem s x" if "PGROUNDDOWN x \<notin> pt_pages (mem u) pt" for x
    using assms that vs(2) unfolding pt_grow_def by simp
  moreover have "fl = (us @ vs) @ fl2" "pt_pages (mem u) pt = pt_pages (mem s) pt \<union> set (us @ vs)"
    using us vs by auto
  moreover have "u = s\<lparr>mem := mem u, freelist := freelist u\<rparr>"
  proof -
    have "t = s\<lparr>mem := mem t, freelist := freelist t\<rparr>" "u = t\<lparr>mem := mem u, freelist := freelist u\<rparr>"
      using assms unfolding pt_grow_def by blast+
    then show ?thesis by (metis (no_types, lifting) kernel.surjective kernel.update_convs(1,2))
  qed
  ultimately show ?thesis using assms unfolding pt_grow_def by metis
qed

lemma pt_ext_refl: "vm_inv s pt fl \<Longrightarrow> pt_ext s s pt fl fl"
  by (simp add: pt_ext_def pt_grow_def)

lemma pt_ext_trans: "pt_ext s t pt fl fl1 \<Longrightarrow> pt_ext t u pt fl1 fl2 \<Longrightarrow> pt_ext s u pt fl fl2"
  unfolding pt_ext_def by (auto intro: pt_grow_trans)

lemma pte_addr_nonzero: "page_aligned a \<Longrightarrow> a \<noteq> 0 \<Longrightarrow> unat i < 512 \<Longrightarrow> pte_addr a i \<noteq> 0"
proof
  assume a: "page_aligned a" "a \<noteq> 0" "unat i < 512" and "pte_addr a i = 0"
  then have "unat (a + 8 * i) = 0" by (simp add: pte_addr_def)
  moreover have "unat (a + of_nat (8 * unat i)) = unat a + 8 * unat i"
    using a page_aligned_bound [OF a(1)] by (intro unat_add_small) simp
  ultimately show False using a(2) by (simp add: unat_eq_zero)
qed

lemma kmem_inv_store_pte:
  assumes "kmem_inv s fl" "page_aligned a" "a \<notin> set fl" "unat i < 512"
  shows "kmem_inv (s\<lparr>mem := sd64 (mem s) (pte_addr a i) v\<rparr>) fl"
proof -
  have "flist (sd64 (mem s) (pte_addr a i) v) (freelist s) fl = flist (mem s) (freelist s) fl"
  proof (rule flist_cong)
    fix p
    assume "p \<in> set fl"
    then have "page_aligned p" "a \<noteq> p" using assms by (auto simp: kmem_inv_def kpage_def)
    then show "ld64 (sd64 (mem s) (pte_addr a i) v) p = ld64 (mem s) p"
      using ld64_sd64_pte [of a p i 0 "mem s" v] assms by (simp add: pte_addr_def)
  qed
  with assms(1) show ?thesis by (simp add: kmem_inv_def kpage_def)
qed

lemma pt_wf_same_nodes:
  "pt_wf m root \<Longrightarrow> (\<And>p. idx_path p \<Longrightarrow> node m' root p = node m root p) \<Longrightarrow> pt_wf m' root"
  by (simp add: pt_wf_def)

lemma pt_pages_same_nodes:
  "(\<And>p. idx_path p \<Longrightarrow> node m' root p = node m root p) \<Longrightarrow> pt_pages m' root = pt_pages m root"
  by (auto simp: pt_pages_def)

text \<open>A store to the leaf entry of \<open>va\<close> changes that one mapping.\<close>

lemma leaf_store_nodes:
  assumes "pt_wf m root" "node m root (leaf_path va) = Some l" "idx_path p"
  shows "node (sd64 m (pte_addr l (PX 0 va)) v) root p = node m root p"
proof (rule node_store_other [OF assms(1) _ assms(2) PX_less assms(3)])
  show "p \<noteq> leaf_path va @ PX 0 va # r" for r using assms(3) by (auto simp: idx_path_def)
qed simp

lemma leaf_store_lookup:
  assumes wf: "pt_wf m root" and l: "node m root (leaf_path va) = Some l"
  shows "pt_lookup (sd64 m (pte_addr l (PX 0 va)) v) root vb =
    (if leaf_path vb = leaf_path va \<and> PX 0 vb = PX 0 va then v else pt_lookup m root vb)"
proof (cases "node m root (leaf_path vb)")
  case None
  then have "leaf_path vb \<noteq> leaf_path va" using l by auto
  with None show ?thesis using leaf_store_nodes [OF assms] by (auto simp: pt_lookup_def)
next
  case (Some l')
  have "l = l' \<longleftrightarrow> leaf_path vb = leaf_path va"
    using pt_wf_unique [OF wf _ _ l, of "leaf_path vb"] Some l by auto
  then show ?thesis
    using Some leaf_store_nodes [OF assms]
      ld64_sd64_pte [OF pt_wf_aligned [OF wf l] pt_wf_aligned [OF wf Some] PX_less PX_less]
    by (auto simp: pt_lookup_def)
qed

lemma leaf_store_inv:
  assumes "vm_inv s pt fl" and l: "node (mem s) pt (leaf_path va) = Some l"
  shows "vm_inv (s\<lparr>mem := sd64 (mem s) (pte_addr l (PX 0 va)) v\<rparr>) pt fl"
    and "pt_pages (sd64 (mem s) (pte_addr l (PX 0 va)) v) pt = pt_pages (mem s) pt"
proof -
  from assms(1) have inv: "kmem_inv s fl" "pt_wf (mem s) pt" "pt_pages (mem s) pt \<inter> set fl = {}"
    by (simp_all add: vm_inv_def)
  have nodes: "node (sd64 (mem s) (pte_addr l (PX 0 va)) v) pt p = node (mem s) pt p" if "idx_path p" for p
    by (rule leaf_store_nodes [OF inv(2) l that])
  show pages: "pt_pages (sd64 (mem s) (pte_addr l (PX 0 va)) v) pt = pt_pages (mem s) pt"
    by (rule pt_pages_same_nodes) (rule nodes)
  have "l \<in> pt_pages (mem s) pt" using l by (rule pt_pagesI [rotated]) simp
  then have "kmem_inv (s\<lparr>mem := sd64 (mem s) (pte_addr l (PX 0 va)) v\<rparr>) fl"
    using inv PX_less pt_wf_aligned [OF inv(2) l] by (intro kmem_inv_store_pte) auto
  with assms(1) pages pt_wf_same_nodes [OF inv(2) nodes]
  show "vm_inv (s\<lparr>mem := sd64 (mem s) (pte_addr l (PX 0 va)) v\<rparr>) pt fl"
    by (simp add: vm_inv_def kpage_def)
qed

subsection \<open>A new page-table page\<close>

lemma PTE_V_nonzero [simp]: "PTE_V \<noteq> 0"
  by (simp add: PTE_V_def)

lemma PTE_V_set [simp]: "(x OR PTE_V) AND PTE_V = PTE_V"
  by (simp add: and.commute)

lemma PTE2PA_valid: "page_aligned p \<Longrightarrow> PTE2PA (PA2PTE p OR PTE_V) = p"
  by (rule PTE2PA_PA2PTE) (simp_all add: page_aligned_def PTE_V_def)

definition install :: "memory \<Rightarrow> addr \<Rightarrow> u64 \<Rightarrow> addr \<Rightarrow> memory" where
  "install m a i p = sd64 (fill_page m p 0) (pte_addr a i) (PA2PTE p OR PTE_V)"

lemma install_node:
  assumes wf: "pt_wf m root" and p: "page_aligned p" "p \<notin> pt_pages m root"
    and q: "idx_path q" "length q \<le> 1" "node m root q = Some a"
    and i: "unat i < 512" "ld64 m (pte_addr a i) AND PTE_V = 0" and r: "idx_path r"
  shows "node (install m a i p) root r = (if r = q @ [i] then Some p else node m root r)"
proof -
  let ?m1 = "fill_page m p 0"
  have n1: "node ?m1 root r = node m root r" if "idx_path r" for r
    by (rule node_fill_fresh [OF wf p(2) that])
  have wf1: "pt_wf ?m1 root" by (rule pt_wf_same_nodes [OF wf n1])
  have other: "node (install m a i p) root r = node m root r" if "idx_path r" "\<And>r'. r \<noteq> q @ i # r'" for r
    unfolding install_def using that q i
    by (subst node_store_other [OF wf1, of q]) (auto simp: n1)
  have "p \<noteq> a" using p(2) pt_pagesI [OF q(1,3)] by blast
  have a: "page_aligned a" by (rule pt_wf_aligned [OF wf q(3)])
  have "node (install m a i p) root q = Some a" using other [OF q(1)] q(3) by simp
  moreover have "ld64 (install m a i p) (pte_addr a i) = PA2PTE p OR PTE_V"
    by (simp add: install_def)
  ultimately have below: "node (install m a i p) root (q @ i # r') = node (install m a i p) p r'" for r'
    using p(1) by (simp add: node_append PTE_V_set PTE2PA_valid Let_def)
  have zero: "ld64 (install m a i p) (pte_addr p j) AND PTE_V = 0" if "unat j < 512" for j
    unfolding install_def using a p(1) i(1) that \<open>p \<noteq> a\<close>
    by (simp add: ld64_sd64_pte ld64_fill_page_pte)
  show ?thesis
  proof (cases "\<exists>r'. r = q @ i # r'")
    case True
    then obtain r' where r': "r = q @ i # r'" by blast
    have "node (install m a i p) p r' = (if r' = [] then Some p else None)"
      using r r' zero by (cases r') (auto simp: idx_path_def Let_def)
    then show ?thesis using r' below i(2) q(3) by (simp add: node_append Let_def)
  next
    case False
    then show ?thesis using other [OF r] by auto
  qed
qed

lemma install_pages:
  assumes wf: "pt_wf m root" and p: "page_aligned p" "p \<notin> pt_pages m root"
    and q: "idx_path q" "length q \<le> 1" "node m root q = Some a"
    and i: "unat i < 512" "ld64 m (pte_addr a i) AND PTE_V = 0"
  shows "pt_pages (install m a i p) root = insert p (pt_pages m root)"
    and "pt_wf (install m a i p) root"
proof -
  have qi: "idx_path (q @ [i])" using q i by (auto simp: idx_path_def)
  have n: "node (install m a i p) root r = (if r = q @ [i] then Some p else node m root r)"
    if "idx_path r" for r by (rule install_node [OF assms that])
  have none: "node m root (q @ [i]) = None" using q(3) i(2) by (simp add: node_append Let_def)
  show "pt_pages (install m a i p) root = insert p (pt_pages m root)"
    using n qi none unfolding pt_pages_def by (auto split: if_splits) force
  have fresh: "node m root r \<noteq> Some p" if "idx_path r" for r
    using pt_pagesI [OF that] p(2) by blast
  show "pt_wf (install m a i p) root"
    using wf unfolding pt_wf_def by (auto simp: n fresh split: if_splits)
qed

lemma install_lookup:
  assumes wf: "pt_wf m root" and p: "page_aligned p" "p \<notin> pt_pages m root"
    and q: "idx_path q" "length q \<le> 1" "node m root q = Some a"
    and i: "unat i < 512" "ld64 m (pte_addr a i) AND PTE_V = 0"
  shows "pt_lookup (install m a i p) root va = pt_lookup m root va"
proof -
  have n: "node (install m a i p) root (leaf_path va) =
      (if leaf_path va = q @ [i] then Some p else node m root (leaf_path va))"
    by (rule install_node [OF assms]) simp
  have none: "node m root (q @ [i]) = None" using q(3) i(2) by (simp add: node_append Let_def)
  have al: "page_aligned a" by (rule pt_wf_aligned [OF wf q(3)])
  have ld: "ld64 (install m a i p) (pte_addr b (PX 0 va)) =
      (if b = p then 0 else ld64 m (pte_addr b (PX 0 va)))" if "page_aligned b" "b \<noteq> a" for b
    unfolding install_def using al that i(1) PX_less [of 0 va]
    by (simp add: ld64_sd64_pte ld64_fill_page_pte)
  have "p \<noteq> a" using p(2) pt_pagesI [OF q(1,3)] by blast
  show ?thesis
  proof (cases "node m root (leaf_path va)")
    case None
    then show ?thesis using n ld [OF p(1) \<open>p \<noteq> a\<close>] by (simp add: pt_lookup_def)
  next
    case (Some l)
    have "l \<noteq> p" using p(2) pt_pagesI [OF _ Some] by auto
    moreover have "l \<noteq> a"
      using pt_wf_unique [OF wf _ q(1) Some] q by (auto dest: arg_cong [of _ _ length])
    moreover have "leaf_path va \<noteq> q @ [i]" using none Some by auto
    ultimately show ?thesis using n Some ld [OF pt_wf_aligned [OF wf Some]]
      by (simp add: pt_lookup_def)
  qed
qed

lemma fill_page_twice: "fill_page (fill_page m p c) p d = fill_page m p d"
  by (auto simp: fill_page_def)

lemma install_ext:
  assumes inv: "vm_inv s pt (p # fl)" and q: "idx_path q" "length q \<le> 1" "node (mem s) pt q = Some a"
    and i: "unat i < 512" "ld64 (mem s) (pte_addr a i) AND PTE_V = 0"
  shows "pt_ext s (s\<lparr>freelist := ld64 (mem s) p, mem := install (mem s) a i p\<rparr>) pt (p # fl) fl"
proof -
  let ?s1 = "s\<lparr>freelist := ld64 (mem s) p, mem := fill_page (mem s) p 0\<rparr>"
  from inv have k: "kmem_inv s (p # fl)" and wf: "pt_wf (mem s) pt"
    and fresh: "p \<notin> pt_pages (mem s) pt" "pt_pages (mem s) pt \<inter> set fl = {}"
    and kp: "\<And>b. b \<in> pt_pages (mem s) pt \<Longrightarrow> kpage s b"
    by (auto simp: vm_inv_def)
  have p: "page_aligned p" "p \<noteq> 0" "kpage s p" "p \<notin> set fl" "\<And>b. b \<in> set fl \<Longrightarrow> page_aligned b"
    using k by (auto simp: kmem_inv_def kpage_def)
  note facts = wf p(1) fresh(1) q i
  have al: "page_aligned a" and a: "a \<in> pt_pages (mem s) pt" "a \<notin> set fl"
    using pt_wf_aligned [OF wf q(3)] pt_pagesI [OF q(1,3)] fresh by auto
  have "flist (fill_page (mem s) p 0) (ld64 (mem s) p) fl = flist (mem s) (ld64 (mem s) p) fl"
    using p by (intro flist_cong ld64_fill_page_other) auto
  then have "kmem_inv ?s1 fl" using k by (simp add: kmem_inv_def kpage_def)
  from kmem_inv_store_pte [OF this al a(2) i(1), of "PA2PTE p OR PTE_V"]
  have k': "kmem_inv (s\<lparr>freelist := ld64 (mem s) p, mem := install (mem s) a i p\<rparr>) fl"
    by (simp add: install_def)
  have out: "install (mem s) a i p x = mem s x" if "PGROUNDDOWN x \<noteq> p" "PGROUNDDOWN x \<noteq> a" for x
    unfolding install_def using that pte_addr_in_page [OF al i(1), of x]
    by (subst sd64_outside) (auto simp: fill_page_def)
  then have out': "install (mem s) a i p x = mem s x" if "PGROUNDDOWN x \<noteq> p" "PGROUNDDOWN x \<notin> pt_pages (mem s) pt" for x
    using that a(1) by metis
  show ?thesis
    unfolding pt_ext_def pt_grow_def vm_inv_def
    using k' install_pages [OF facts] install_lookup [OF facts] fresh(2) p kp out'
    by (auto simp: kpage_def intro: exI [of _ "[p]"])
qed

lemma leaf_store_grow:
  assumes "vm_inv s pt fl" and l: "node (mem s) pt (leaf_path va) = Some l"
  shows "pt_grow s (s\<lparr>mem := sd64 (mem s) (pte_addr l (PX 0 va)) v\<rparr>) pt fl fl"
proof -
  have "l \<in> pt_pages (mem s) pt" "page_aligned l"
    using assms pt_wf_aligned [OF _ l] by (auto simp: vm_inv_def intro: pt_pagesI [OF _ l])
  then have "sd64 (mem s) (pte_addr l (PX 0 va)) v x = mem s x" if "PGROUNDDOWN x \<notin> pt_pages (mem s) pt" for x
    using that pte_addr_in_page [OF _ PX_less, of l 0 va x] by (intro sd64_outside) blast
  then show ?thesis
    using leaf_store_inv [OF assms] by (auto simp: pt_grow_def)
qed

subsection \<open>walk\<close>

lemma walk_lookup:
  "va < MAXVA \<Longrightarrow> walk pt va False s =
     Ok (case node (mem s) pt (leaf_path va) of None \<Rightarrow> 0 | Some l \<Rightarrow> pte_addr l (PX 0 va)) s"
  unfolding not_le [symmetric]
  by (simp add: walk_def numeral_2_eq_2 monad_defs load64_def leaf_path_def Let_def)

lemma walk_step:
  assumes inv: "vm_inv s pt fl" and q: "idx_path q" "length q \<le> 1" "node (mem s) pt q = Some a"
  shows "(walk_loop (Suc l) a va True s = Ok 0 s \<and> fl = []) \<or>
    (\<exists>t fl' b. walk_loop (Suc l) a va True s = walk_loop l b va True t \<and> pt_ext s t pt fl fl'
       \<and> node (mem t) pt (q @ [PX (Suc l) va]) = Some b)"
proof -
  let ?pte = "ld64 (mem s) (pte_addr a (PX (Suc l) va))"
  consider (valid) "?pte AND PTE_V \<noteq> 0" | (full) "?pte AND PTE_V = 0" "fl = []"
    | (new) p fl' where "?pte AND PTE_V = 0" "fl = p # fl'"
    by (cases fl) auto
  then show ?thesis
  proof cases
    case valid
    then have "node (mem s) pt (q @ [PX (Suc l) va]) = Some (PTE2PA ?pte)"
      using q(3) by (simp add: node_append Let_def)
    moreover have "walk_loop (Suc l) a va True s = walk_loop l (PTE2PA ?pte) va True s"
      using valid by (simp add: monad_defs load64_def)
    ultimately show ?thesis using pt_ext_refl [OF inv] by blast
  next
    case full
    then have "kalloc s = Ok 0 s" using inv by (intro kalloc_Nil) (simp add: vm_inv_def)
    then show ?thesis using full by (simp add: monad_defs load64_def)
  next
    case new
    let ?t = "s\<lparr>freelist := ld64 (mem s) p, mem := install (mem s) a (PX (Suc l) va) p\<rparr>"
    have k: "kmem_inv s (p # fl')" "pt_wf (mem s) pt" "p \<notin> pt_pages (mem s) pt"
      using inv new by (auto simp: vm_inv_def)
    then have p: "p \<noteq> 0" "page_aligned p" by (auto simp: kmem_inv_def kpage_def)
    have "node (mem ?t) pt (q @ [PX (Suc l) va]) = Some p"
      using install_node [OF k(2) p(2) k(3) q PX_less new(1), of "q @ [PX (Suc l) va]"] q
      by (simp add: idx_path_def PX_less)
    moreover have "walk_loop (Suc l) a va True s = walk_loop l p va True ?t"
      using new(1) p kalloc_Cons(1) [OF k(1)]
      by (simp add: monad_defs load64_def store64_def store_page_def PGSIZE_def memset_page
          fill_page_twice install_def)
    ultimately show ?thesis
      using install_ext [OF inv [unfolded new(2)] q PX_less new(1)] new(2) by blast
  qed
qed

lemma walk_alloc:
  assumes inv: "vm_inv s pt fl" and va: "va < MAXVA"
  shows "\<exists>t fl'. pt_ext s t pt fl fl' \<and>
    (walk pt va True s = Ok 0 t \<and> fl' = [] \<or>
     (\<exists>l. node (mem t) pt (leaf_path va) = Some l \<and> walk pt va True s = Ok (pte_addr l (PX 0 va)) t))"
proof -
  have w: "walk pt va True s = walk_loop (Suc 1) pt va True s"
    using va unfolding not_le [symmetric] by (simp add: walk_def numeral_2_eq_2)
  from walk_step [OF inv, of "[]" pt 1 va] consider
    "walk_loop (Suc 1) pt va True s = Ok 0 s" "fl = []"
  | t fl' b where "walk_loop (Suc 1) pt va True s = walk_loop 1 b va True t" "pt_ext s t pt fl fl'"
      "node (mem t) pt [PX (Suc 1) va] = Some b"
    by auto
  then show ?thesis
  proof cases
    case 1
    then show ?thesis using w pt_ext_refl [OF inv] by auto
  next
    case 2
    then have inv': "vm_inv t pt fl'" by (simp add: pt_ext_def pt_grow_def)
    from walk_step [OF inv' _ _ 2(3), of 0 va] consider
      "walk_loop 1 b va True t = Ok 0 t" "fl' = []"
    | u fl2 c where "walk_loop 1 b va True t = Ok (pte_addr c (PX 0 va)) u" "pt_ext t u pt fl' fl2"
        "node (mem u) pt (leaf_path va) = Some c"
      by (auto simp: leaf_path_def numeral_2_eq_2 ret_def)
    then show ?thesis
    proof cases
      case 1
      then show ?thesis using w 2 by metis
    next
      case (2 u fl2 c)
      then show ?thesis using w \<open>pt_ext s t pt fl fl'\<close> \<open>walk_loop (Suc 1) pt va True s = _\<close> pt_ext_trans by metis
    qed
  qed
qed

subsection \<open>mappages\<close>

lemma page_aligned_mod: "page_aligned a \<longleftrightarrow> a mod PGSIZE = 0"
  by (simp add: page_aligned_def PGSIZE_def word_unat_eq_iff unat_mod_distrib)

lemma page_aligned_diff: "page_aligned a \<Longrightarrow> page_aligned b \<Longrightarrow> page_aligned (a - b)"
  unfolding page_aligned_def by (auto simp: unat_sub_if' mod_eq_0_iff_dvd intro: dvd_diff_nat)

lemma page_range_Suc:
  assumes "page_aligned a" "page_aligned b" "n < 2 ^ 51"
  shows "in_range a (4096 * Suc n) b \<longleftrightarrow> b = a \<or> in_range (a + 4096) (4096 * n) b"
proof (cases "b = a")
  case True
  then show ?thesis by (simp add: in_range_def)
next
  case False
  let ?x = "b - a"
  obtain k where k: "unat ?x = 4096 * k"
    using page_aligned_diff [OF assms(2,1)] by (auto simp: page_aligned_def mod_eq_0_iff_dvd)
  moreover have "?x \<noteq> 0" using False by simp
  ultimately have "k \<noteq> 0" using unat_gt_0 [of ?x] by (intro notI) simp
  have "unat (?x - 4096) = 4096 * k - 4096"
    using k \<open>k \<noteq> 0\<close> by (subst unat_sub_if') simp
  then have "unat (b - (a + 4096)) = 4096 * k - 4096" by (simp only: diff_diff_eq)
  then show ?thesis using k \<open>k \<noteq> 0\<close> False by (auto simp: in_range_def)
qed

lemma same_page:
  assumes "page_aligned va" "page_aligned vb" "va < MAXVA" "vb < MAXVA"
  shows "leaf_path vb = leaf_path va \<and> PX 0 vb = PX 0 va \<longleftrightarrow> vb = va"
  using PX_inj [OF assms(3,4)] assms(1,2) by (auto simp: leaf_path_def page_aligned_def)

text \<open>The mappings after \<^verbatim>\<open>mappages\<close> of \<open>n\<close> pages from \<open>va\<close> to \<open>pa\<close>.\<close>

definition mapped_as :: "memory \<Rightarrow> pagetable \<Rightarrow> u64 \<Rightarrow> nat \<Rightarrow> u64 \<Rightarrow> u64 \<Rightarrow> memory \<Rightarrow> bool" where
  "mapped_as m pt va n pa perm m' \<longleftrightarrow> (\<forall>vb. page_aligned vb \<longrightarrow> vb < MAXVA \<longrightarrow>
     pt_lookup m' pt vb =
       (if in_range va (4096 * n) vb then PA2PTE (pa + (vb - va)) OR perm OR PTE_V
        else pt_lookup m pt vb))"

lemma mapped_as_Suc:
  assumes a: "page_aligned va" and n: "n < 2 ^ 51"
    and one: "mapped_as m pt va 1 pa perm m1"
    and rest: "mapped_as m1 pt (va + 4096) n (pa + 4096) perm m2"
  shows "mapped_as m pt va (Suc n) pa perm m2"
  unfolding mapped_as_def
proof (intro allI impI)
  fix vb
  assume vb: "page_aligned vb" "vb < MAXVA"
  have "in_range va (4096 * 1) vb \<longleftrightarrow> vb = va"
    using page_range_Suc [OF a vb(1), of 0] by (simp add: in_range_def)
  moreover have "pa + 4096 + (vb - (va + 4096)) = pa + (vb - va)" by simp
  moreover have "vb = va \<Longrightarrow> \<not> in_range (va + 4096) (4096 * n) vb"
    using n by (simp add: in_range_def)
  ultimately show "pt_lookup m2 pt vb =
      (if in_range va (4096 * Suc n) vb then PA2PTE (pa + (vb - va)) OR perm OR PTE_V
       else pt_lookup m pt vb)"
    using one rest vb page_range_Suc [OF a vb(1) n] unfolding mapped_as_def by auto
qed

lemma in_range_unat:
  assumes "unat d + n \<le> 2 ^ 64"
  shows "in_range d n x \<longleftrightarrow> unat d \<le> unat x \<and> unat x < unat d + n"
proof (cases "unat d \<le> unat x")
  case True
  then show ?thesis by (auto simp: in_range_def unat_sub_if')
next
  case False
  then show ?thesis using assms by (simp add: in_range_def unat_sub_if')
qed

declare mappages_loop.simps(2) [simp del]

lemma map_one_page:
  assumes inv: "vm_inv s pt fl" and a: "page_aligned a" "a < MAXVA"
    and free: "pt_lookup (mem s) pt a AND PTE_V = 0"
  shows "\<exists>t fl'. pt_grow s t pt fl fl' \<and>
    (mappages_loop (Suc k) pt a la pa perm s = Ok (- 1) t \<and> fl' = []
       \<and> (\<forall>va. pt_lookup (mem t) pt va = pt_lookup (mem s) pt va)
     \<or> mapped_as (mem s) pt a 1 pa perm (mem t) \<and>
        mappages_loop (Suc k) pt a la pa perm s =
          (if a = la then Ok 0 t else mappages_loop k pt (a + 4096) la (pa + 4096) perm t))"
proof -
  obtain t fl' where ext: "pt_ext s t pt fl fl'" and
    w: "walk pt a True s = Ok 0 t \<and> fl' = [] \<or>
     (\<exists>l. node (mem t) pt (leaf_path a) = Some l \<and> walk pt a True s = Ok (pte_addr l (PX 0 a)) t)"
    using walk_alloc [OF inv a(2)] by blast
  from w show ?thesis
  proof (elim disjE exE conjE)
    assume "walk pt a True s = Ok 0 t" "fl' = []"
    then have "mappages_loop (Suc k) pt a la pa perm s = Ok (- 1) t"
      by (simp add: monad_defs mappages_loop.simps(2))
    with ext \<open>fl' = []\<close> show ?thesis by (auto simp: pt_ext_def)
  next
    fix l
    assume l: "node (mem t) pt (leaf_path a) = Some l" and w: "walk pt a True s = Ok (pte_addr l (PX 0 a)) t"
    let ?v = "PA2PTE pa OR perm OR PTE_V"
    let ?u = "t\<lparr>mem := sd64 (mem t) (pte_addr l (PX 0 a)) ?v\<rparr>"
    have invt: "vm_inv t pt fl'" "pt_wf (mem t) pt" using ext by (auto simp: pt_ext_def pt_grow_def vm_inv_def)
    have "l \<in> pt_pages (mem t) pt" by (rule pt_pagesI [OF _ l]) simp
    then have "l \<noteq> 0" using invt by (auto simp: vm_inv_def kmem_inv_def dest: kpage_not_null)
    then have nz: "pte_addr l (PX 0 a) \<noteq> 0"
      using pt_wf_aligned [OF invt(2) l] by (intro pte_addr_nonzero PX_less)
    have "ld64 (mem t) (pte_addr l (PX 0 a)) = pt_lookup (mem t) pt a"
      using l by (simp add: pt_lookup_def)
    then have free': "ld64 (mem t) (pte_addr l (PX 0 a)) AND PTE_V = 0"
      using ext free by (simp add: pt_ext_def)
    have run: "mappages_loop (Suc k) pt a la pa perm s =
        (if a = la then Ok 0 ?u else mappages_loop k pt (a + 4096) la (pa + 4096) perm ?u)"
      using w nz free' by (simp add: monad_defs load64_def store64_def PGSIZE_def mappages_loop.simps(2))
    have "mapped_as (mem s) pt a 1 pa perm (mem ?u)"
      unfolding mapped_as_def
    proof (intro allI impI)
      fix vb
      assume vb: "page_aligned vb" "vb < MAXVA"
      have "in_range a (4096 * 1) vb \<longleftrightarrow> vb = a"
        using page_range_Suc [OF a(1) vb(1), of 0] by (simp add: in_range_def)
      then show "pt_lookup (mem ?u) pt vb = (if in_range a (4096 * 1) vb
          then PA2PTE (pa + (vb - a)) OR perm OR PTE_V else pt_lookup (mem s) pt vb)"
        using leaf_store_lookup [OF invt(2) l, of ?v vb] same_page [OF a(1) vb(1) a(2) vb(2)] ext
        by (simp add: pt_ext_def)
    qed
    moreover have "pt_grow s ?u pt fl fl'"
      using ext leaf_store_grow [OF invt(1) l] unfolding pt_ext_def by (blast intro: pt_grow_trans)
    ultimately show ?thesis using run by blast
  qed
qed

lemma mappages_loop_spec:
  assumes "vm_inv s pt fl" "page_aligned a" "unat a + 4096 * Suc n \<le> 2 ^ 38" "n < k"
    and "\<And>vb. page_aligned vb \<Longrightarrow> in_range a (4096 * Suc n) vb \<Longrightarrow> pt_lookup (mem s) pt vb AND PTE_V = 0"
  shows "\<exists>r t fl'. mappages_loop k pt a (a + of_nat (4096 * n)) pa perm s = Ok r t
    \<and> pt_grow s t pt fl fl'
    \<and> (r = 0 \<and> mapped_as (mem s) pt a (Suc n) pa perm (mem t) \<or> r = - 1 \<and> fl' = [])"
  using assms
proof (induction n arbitrary: s fl a pa k)
  case 0
  have "a < MAXVA" using "0.prems"(3) by (simp add: word_less_nat_alt unat_MAXVA)
  moreover have "pt_lookup (mem s) pt a AND PTE_V = 0"
    using "0.prems"(2,5) by (simp add: in_range_def)
  moreover obtain k' where "k = Suc k'" using "0.prems"(4) by (cases k) auto
  ultimately show ?case
    using map_one_page [OF "0.prems"(1,2), of k' a pa perm] by auto
next
  case (Suc n)
  note prems = Suc.prems
  have a: "a < MAXVA" using prems(3) by (simp add: word_less_nat_alt unat_MAXVA)
  have n: "n < 2 ^ 51" "Suc n < 2 ^ 51" using prems(3) by simp_all
  have u: "unat (a + 4096) = unat a + 4096"
    using unat_add_small [of a 4096] prems(3) by simp
  have free: "pt_lookup (mem s) pt a AND PTE_V = 0"
    using prems(2,5) by (simp add: in_range_def)
  obtain k' where k: "k = Suc k'" "n < k'" using prems(4) by (cases k) auto
  have la: "a + of_nat (4096 * Suc n) = (a + 4096) + of_nat (4096 * n)" by simp
  have "unat (of_nat (4096 * Suc n) :: u64) = 4096 * Suc n"
    using prems(3) unfolding unat_of_nat by (intro mod_less) simp
  then have ne: "a \<noteq> a + of_nat (4096 * Suc n)"
    by (metis add_cancel_right_right mult_is_0 nat.distinct(1) unat_0 zero_neq_numeral)
  obtain t fl' where grow: "pt_grow s t pt fl fl'" and
    step: "mappages_loop (Suc k') pt a (a + of_nat (4096 * Suc n)) pa perm s = Ok (- 1) t \<and> fl' = [] \<or>
       mapped_as (mem s) pt a 1 pa perm (mem t) \<and>
       mappages_loop (Suc k') pt a (a + of_nat (4096 * Suc n)) pa perm s =
         mappages_loop k' pt (a + 4096) (a + of_nat (4096 * Suc n)) (pa + 4096) perm t"
    using map_one_page [OF prems(1,2) a free, of k' "a + of_nat (4096 * Suc n)" pa perm] ne by auto
  from step show ?case
  proof (elim disjE conjE)
    assume "mappages_loop (Suc k') pt a (a + of_nat (4096 * Suc n)) pa perm s = Ok (- 1) t" "fl' = []"
    with grow k show ?thesis by auto
  next
    assume one: "mapped_as (mem s) pt a 1 pa perm (mem t)"
      and run: "mappages_loop (Suc k') pt a (a + of_nat (4096 * Suc n)) pa perm s =
         mappages_loop k' pt (a + 4096) (a + of_nat (4096 * Suc n)) (pa + 4096) perm t"
    have inv: "vm_inv t pt fl'" using grow by (simp add: pt_grow_def)
    have "pt_lookup (mem t) pt vb AND PTE_V = 0"
      if vb: "page_aligned vb" "in_range (a + 4096) (4096 * Suc n) vb" for vb
    proof -
      have "vb \<noteq> a" using vb(2) n by (auto simp: in_range_def)
      moreover have "in_range a (4096 * Suc (Suc n)) vb"
        using page_range_Suc [OF prems(2) vb(1) n(2)] vb(2) by blast
      moreover have "vb < MAXVA"
        using vb(2) in_range_unat [of "a + 4096" "4096 * Suc n" vb] prems(3) u
        by (simp add: word_less_nat_alt unat_MAXVA)
      ultimately show ?thesis
        using one prems(5) [OF vb(1)] page_range_Suc [OF prems(2) vb(1), of 0]
        by (simp add: mapped_as_def vb(1)) (auto simp: in_range_def)
    qed
    moreover have "unat (a + 4096) + 4096 * Suc n \<le> 2 ^ 38" using prems(3) u by simp
    ultimately obtain r u fl2 where
      "mappages_loop k' pt (a + 4096) (a + of_nat (4096 * Suc n)) (pa + 4096) perm t = Ok r u"
      "pt_grow t u pt fl' fl2"
      "r = 0 \<and> mapped_as (mem t) pt (a + 4096) (Suc n) (pa + 4096) perm (mem u) \<or> r = - 1 \<and> fl2 = []"
      unfolding la using Suc.IH [OF inv page_aligned_add [OF prems(2)] _ k(2), of "pa + 4096"] by blast
    then show ?thesis
      using run k(1) grow pt_grow_trans mapped_as_Suc [OF prems(2) n(2) one] by metis
  qed
qed

subsection \<open>Properties\<close>

text \<open>C2 \<^verbatim>\<open>mappages\<close> on page-aligned, unmapped addresses below \<open>MAXVA\<close> neither panics nor loops.
  When it returns 0, exactly the requested pages have got the requested entries and every other
  mapping is as before; when it returns -1, the allocator is out of memory.  In both cases the
  tree stays well formed, takes its new pages from the free list, and no byte outside the
  page-table pages changes.\<close>

theorem mappages_correct:
  assumes "vm_inv s pt fl" and "page_aligned va" and "0 < n" and "unat va + 4096 * n \<le> 2 ^ 38"
    and "\<forall>vb. page_aligned vb \<longrightarrow> in_range va (4096 * n) vb \<longrightarrow> pt_lookup (mem s) pt vb AND PTE_V = 0"
  shows "\<exists>r t fl'. mappages pt va (of_nat (4096 * n)) pa perm s = Ok r t \<and> pt_grow s t pt fl fl'
    \<and> (r = 0 \<and> mapped_as (mem s) pt va n pa perm (mem t) \<or> r = - 1 \<and> fl' = [])"
proof -
  obtain k where k: "n = Suc k" using assms(3) by (cases n) auto
  have small: "4096 * n < 2 ^ 64" using assms(4) by simp
  have sz: "unat (of_nat (4096 * n) :: u64) = 4096 * n"
    using small unfolding unat_of_nat by (intro mod_less) simp
  then have "page_aligned (of_nat (4096 * n))" "of_nat (4096 * n) \<noteq> (0 :: u64)"
    using k by (auto simp: page_aligned_def simp flip: unat_eq_zero)
  moreover have "va + of_nat (4096 * n) - PGSIZE = va + of_nat (4096 * k)" by (simp add: k PGSIZE_def)
  ultimately have "mappages pt va (of_nat (4096 * n)) pa perm s =
      mappages_loop vm_fuel pt va (va + of_nat (4096 * k)) pa perm s"
    using assms(2) unfolding page_aligned_mod mappages_def by (simp only: simp_thms if_False)
  moreover have "k < vm_fuel" using assms(4) k by (simp add: vm_fuel_def)
  ultimately show ?thesis
    using mappages_loop_spec [OF assms(1,2), of k vm_fuel pa perm] assms(4,5) k by auto
qed

text \<open>A kernel state with an empty page table and two free pages.\<close>

definition vm_demo :: kernel where
  "vm_demo = \<lparr>mem = sd64 (\<lambda>_. 0) (pte_addr 0x80002000 0) 0x80003000, freelist = 0x80002000,
     kend = 0x80001000, klog = []\<rparr>"

lemma ld64_zero [simp]: "ld64 (\<lambda>_. 0) a = 0"
  by (simp add: ld64_def)

lemma vm_demo_node: "idx_path p \<Longrightarrow> node (mem vm_demo) 0x80001000 p = (if p = [] then Some 0x80001000 else None)"
proof (cases p)
  case (Cons i q)
  assume "idx_path p"
  then have "unat i < 512" using Cons by (simp add: idx_path_def)
  then have "ld64 (mem vm_demo) (pte_addr 0x80001000 i) = 0"
    by (simp add: vm_demo_def ld64_sd64_pte page_aligned_def)
  then show ?thesis using Cons by simp
qed simp

lemma vm_demo_inv: "vm_inv vm_demo 0x80001000 [0x80002000, 0x80003000]"
proof -
  have "pt_pages (mem vm_demo) 0x80001000 = {0x80001000}"
    by (auto simp: pt_pages_def vm_demo_node split: if_splits intro: exI [of _ "[]"])
  moreover have "pt_wf (mem vm_demo) 0x80001000"
    by (auto simp: pt_wf_def vm_demo_node page_aligned_def split: if_splits)
  moreover have "ld64 (mem vm_demo) 0x80002000 = 0x80003000"
    by (simp add: vm_demo_def pte_addr_def)
  moreover have "ld64 (mem vm_demo) (pte_addr 0x80003000 0) = 0"
    by (simp add: vm_demo_def ld64_sd64_pte page_aligned_def)
  moreover have "freelist vm_demo = 0x80002000" "kend vm_demo = 0x80001000"
    by (simp_all add: vm_demo_def)
  ultimately show ?thesis
    by (simp add: vm_inv_def kmem_inv_def kpage_def page_aligned_def KERNBASE_def PHYSTOP_def pte_addr_def)
qed

lemma vm_demo_lookup: "pt_lookup (mem vm_demo) 0x80001000 va = 0"
  by (simp add: pt_lookup_def vm_demo_node leaf_path_def [symmetric])
    (simp add: leaf_path_def)

theorem mappages_correct_witness:
  "\<exists>r t fl'. mappages 0x80001000 0x4000 (of_nat (4096 * 2)) 0x80010000 PTE_R vm_demo = Ok r t
    \<and> pt_grow vm_demo t 0x80001000 [0x80002000, 0x80003000] fl'
    \<and> (r = 0 \<and> mapped_as (mem vm_demo) 0x80001000 0x4000 2 0x80010000 PTE_R (mem t) \<or> r = - 1 \<and> fl' = [])"
  by (rule mappages_correct [OF vm_demo_inv]) (simp_all add: page_aligned_def vm_demo_lookup)

end
