(* ===== verification/User_Copy.thy ===== *)
theory User_Copy
  imports Page_Table
begin

text \<open>
  The copies between kernel and user memory of \<^verbatim>\<open>kernel/vm.c\<close> against the abstract view of an
  address space: \<open>user_phys\<close> is the physical address behind a user address, and \<^verbatim>\<open>copyout\<close>
  and \<^verbatim>\<open>copyin\<close> write and read the bytes that a user program sees there.
\<close>

definition user_phys :: "memory \<Rightarrow> pagetable \<Rightarrow> u64 \<Rightarrow> addr" where
  "user_phys m pt a = PTE2PA (pt_lookup m pt (PGROUNDDOWN a)) + (a - PGROUNDDOWN a)"

definition user_ok :: "memory \<Rightarrow> pagetable \<Rightarrow> u64 \<Rightarrow> bool" where
  "user_ok m pt a \<longleftrightarrow> (let e = pt_lookup m pt (PGROUNDDOWN a)
     in e AND PTE_V \<noteq> 0 \<and> e AND PTE_U \<noteq> 0 \<and> PTE2PA e \<noteq> 0)"

definition user_bytes :: "memory \<Rightarrow> pagetable \<Rightarrow> u64 \<Rightarrow> nat \<Rightarrow> u8 list" where
  "user_bytes m pt va n = map (\<lambda>i. m (user_phys m pt (va + of_nat i))) [0..<n]"

subsection \<open>Splitting a range at a page boundary\<close>

lemma PGROUNDDOWN_same_page:
  assumes "unat va mod 4096 + i < 4096" "unat va + i < 2 ^ 64"
  shows "PGROUNDDOWN (va + of_nat i) = PGROUNDDOWN va"
proof -
  have "unat (va + of_nat i) = unat va + i" using assms by (intro unat_add_small) simp
  moreover have "(unat va + i) div 4096 = unat va div 4096"
  proof -
    have "(unat va + i) div 4096 = (unat va mod 4096 + i + 4096 * (unat va div 4096)) div 4096"
      by (simp add: algebra_simps)
    also have "\<dots> = unat va div 4096" using assms(1) by (subst div_mult_self2) simp_all
    finally show ?thesis .
  qed
  ultimately show ?thesis by (simp add: word_unat_eq_iff unat_PGROUNDDOWN)
qed

lemma page_end_offset:
  "unat (4096 - (va - PGROUNDDOWN va)) = 4096 - unat va mod 4096"
proof -
  have "unat va mod 4096 < 4096" by simp
  then show ?thesis by (subst unat_sub_if') (simp add: unat_offset_in_page)
qed

lemma next_page: "PGROUNDDOWN va + 4096 = va + of_nat (4096 - unat va mod 4096)"
proof -
  have "va - PGROUNDDOWN va = of_nat (unat va mod 4096)"
    unfolding unat_offset_in_page [of va, symmetric] by simp
  moreover have "of_nat (4096 - unat va mod 4096) = (4096 :: u64) - of_nat (unat va mod 4096)"
    by (subst of_nat_diff) (simp_all add: less_imp_le)
  ultimately show ?thesis by (simp add: algebra_simps)
qed

lemma aligned_next_page: "unat (PGROUNDDOWN va + 4096) mod 4096 = 0"
  using page_aligned_add [of "PGROUNDDOWN va"] by (simp add: page_aligned_def)

subsection \<open>Translation\<close>

lemma PGROUNDDOWN_idem: "PGROUNDDOWN (PGROUNDDOWN a) = PGROUNDDOWN a"
  by (simp add: word_unat_eq_iff unat_PGROUNDDOWN)

lemma lookup_zero_walk:
  assumes "va < MAXVA" and "pt_lookup (mem s) pt va AND PTE_V \<noteq> 0"
  obtains l where "node (mem s) pt (leaf_path va) = Some l" "walk pt va False s = Ok (pte_addr l (PX 0 va)) s"
    "ld64 (mem s) (pte_addr l (PX 0 va)) = pt_lookup (mem s) pt va"
  using assms walk_lookup [OF assms(1), of pt s]
  by (cases "node (mem s) pt (leaf_path va)") (auto simp: pt_lookup_def)

lemma leaf_nonzero:
  assumes "vm_inv s pt fl" and "node (mem s) pt (leaf_path va) = Some l"
  shows "pte_addr l (PX 0 va) \<noteq> 0"
proof -
  have "l \<in> pt_pages (mem s) pt" by (rule pt_pagesI [OF _ assms(2)]) simp
  then have "kpage s l" "KERNBASE \<le> kend s" using assms by (auto simp: vm_inv_def kmem_inv_def)
  then have "l \<noteq> 0" "page_aligned l" using kpage_not_null [of s l] by (auto simp: kpage_def)
  then show ?thesis by (intro pte_addr_nonzero PX_less)
qed

lemma user_page_mapped:
  assumes inv: "vm_inv s pt fl" and ok: "user_ok (mem s) pt va" and va: "PGROUNDDOWN va < MAXVA"
  shows "user_page pt psz (PGROUNDDOWN va) rd s = Ok (PTE2PA (pt_lookup (mem s) pt (PGROUNDDOWN va))) s"
proof -
  have e: "pt_lookup (mem s) pt (PGROUNDDOWN va) AND PTE_V \<noteq> 0"
    "pt_lookup (mem s) pt (PGROUNDDOWN va) AND PTE_U \<noteq> 0"
    "PTE2PA (pt_lookup (mem s) pt (PGROUNDDOWN va)) \<noteq> 0"
    using ok by (auto simp: user_ok_def Let_def)
  obtain l where l: "node (mem s) pt (leaf_path (PGROUNDDOWN va)) = Some l"
    "walk pt (PGROUNDDOWN va) False s = Ok (pte_addr l (PX 0 (PGROUNDDOWN va))) s"
    "ld64 (mem s) (pte_addr l (PX 0 (PGROUNDDOWN va))) = pt_lookup (mem s) pt (PGROUNDDOWN va)"
    using lookup_zero_walk [OF va e(1)] by blast
  have "walkaddr pt (PGROUNDDOWN va) s = Ok (PTE2PA (pt_lookup (mem s) pt (PGROUNDDOWN va))) s"
    using va l leaf_nonzero [OF inv l(1)] e unfolding not_le [symmetric]
    by (simp add: walkaddr_def monad_defs load64_def)
  then show ?thesis using e by (simp add: user_page_def monad_defs)
qed

lemma user_phys_offset:
  assumes "unat va mod 4096 + i < 4096" "unat va + i < 2 ^ 64"
  shows "user_phys m pt (va + of_nat i) = user_phys m pt va + of_nat i"
  using PGROUNDDOWN_same_page [OF assms] by (simp add: user_phys_def algebra_simps)

subsection \<open>copyin\<close>

lemma user_bytes_0 [simp]: "user_bytes m pt va 0 = []"
  by (simp add: user_bytes_def)

lemma user_bytes_append:
  "user_bytes m pt va (n + k) = user_bytes m pt va n @ user_bytes m pt (va + of_nat n) k"
proof (rule nth_equalityI)
  fix i
  assume "i < length (user_bytes m pt va (n + k))"
  then show "user_bytes m pt va (n + k) ! i = (user_bytes m pt va n @ user_bytes m pt (va + of_nat n) k) ! i"
    by (cases "i < n") (auto simp: user_bytes_def nth_append algebra_simps of_nat_diff)
qed (simp add: user_bytes_def)

lemma user_bytes_page:
  assumes "unat va mod 4096 + n \<le> 4096" "unat va + n \<le> 2 ^ 64"
  shows "user_bytes m pt va n = ldbytes m (user_phys m pt va) n"
  unfolding user_bytes_def ldbytes_def using assms by (auto simp: user_phys_offset)

lemma copyin_loop_mapped:
  assumes "vm_inv s pt fl" "unat va + len \<le> 2 ^ 38" "\<And>i. i < len \<Longrightarrow> user_ok (mem s) pt (va + of_nat i)"
    and "unat va mod 4096 + len + 4096 \<le> 4096 * k"
  shows "copyin_loop k pt psz dst va len s = Ok (0, dst @ user_bytes (mem s) pt va len) s"
  using assms(2-)
proof (induction k arbitrary: va len dst)
  case 0
  then show ?case by simp
next
  case (Suc k)
  show ?case
  proof (cases "len = 0")
    case True
    then show ?thesis by (simp add: monad_defs)
  next
    case False
    let ?off = "unat va mod 4096"
    let ?n = "min (4096 - ?off) len"
    have off: "?off < 4096" by simp
    have "PGROUNDDOWN va < MAXVA"
      using PGROUNDDOWN_le [of va] Suc.prems(1) False
      by (simp add: word_less_nat_alt word_le_nat_alt unat_MAXVA)
    moreover have "user_ok (mem s) pt va" using Suc.prems(2) [of 0] False by simp
    ultimately have page: "user_page pt psz (PGROUNDDOWN va) True s =
        Ok (PTE2PA (pt_lookup (mem s) pt (PGROUNDDOWN va))) s" "PTE2PA (pt_lookup (mem s) pt (PGROUNDDOWN va)) \<noteq> 0"
      using user_page_mapped [OF assms(1)] by (auto simp: user_ok_def Let_def)
    have "copyin_loop (Suc k) pt psz dst va len s =
        copyin_loop k pt psz (dst @ ldbytes (mem s) (user_phys (mem s) pt va) ?n)
          (PGROUNDDOWN va + 4096) (len - ?n) s"
      using page False by (simp add: monad_defs Let_def page_end_offset PGSIZE_def user_phys_def)
    also have "ldbytes (mem s) (user_phys (mem s) pt va) ?n = user_bytes (mem s) pt va ?n"
      using off Suc.prems(1) by (intro user_bytes_page [symmetric]) auto
    also have "copyin_loop k pt psz (dst @ user_bytes (mem s) pt va ?n) (PGROUNDDOWN va + 4096) (len - ?n) s =
        Ok (0, dst @ user_bytes (mem s) pt va len) s"
    proof (cases "len \<le> 4096 - ?off")
      case True
      then show ?thesis using Suc.prems(3) False by (cases k) (simp_all add: monad_defs min_absorb2)
    next
      case more: False
      then have n: "?n = 4096 - ?off" "len = ?n + (len - ?n)" by auto
      have va': "PGROUNDDOWN va + 4096 = va + of_nat ?n" using n(1) next_page by simp
      have u: "unat (va + of_nat ?n) = unat va + ?n"
        using Suc.prems(1) by (intro unat_add_small) auto
      have "copyin_loop k pt psz (dst @ user_bytes (mem s) pt va ?n) (va + of_nat ?n) (len - ?n) s =
          Ok (0, (dst @ user_bytes (mem s) pt va ?n) @ user_bytes (mem s) pt (va + of_nat ?n) (len - ?n)) s"
      proof (rule Suc.IH)
        show "unat (va + of_nat ?n) + (len - ?n) \<le> 2 ^ 38" using u Suc.prems(1) by simp
        show "user_ok (mem s) pt (va + of_nat ?n + of_nat i)" if "i < len - ?n" for i
        proof -
          have "?n + i < len" using that by simp
          from Suc.prems(2) [OF this] show ?thesis by (simp only: of_nat_add add.assoc)
        qed
        show "unat (va + of_nat ?n) mod 4096 + (len - ?n) + 4096 \<le> 4096 * k"
          using aligned_next_page [of va] Suc.prems(3) n(1) va' more by simp
      qed
      then show ?thesis using va' n(2) user_bytes_append [of "mem s" pt va ?n "len - ?n"] by simp
    qed
    finally show ?thesis .
  qed
qed

lemma copyin_mapped:
  assumes "vm_inv s pt fl" "unat va + len \<le> 2 ^ 38" "\<And>i. i < len \<Longrightarrow> user_ok (mem s) pt (va + of_nat i)"
  shows "copyin pt psz va len s = Ok (0, user_bytes (mem s) pt va len) s"
proof -
  have "unat va mod 4096 < 4096" by simp
  then have "unat va mod 4096 + len + 4096 \<le> 4096 * vm_fuel"
    using assms(2) unfolding vm_fuel_def by simp
  from copyin_loop_mapped [OF assms this] show ?thesis by (simp add: copyin_def)
qed

subsection \<open>Stores outside the page table\<close>

lemma outside_nodes:
  assumes wf: "pt_wf m root" and same: "\<And>x. PGROUNDDOWN x \<in> pt_pages m root \<Longrightarrow> m' x = m x"
  shows "idx_path p \<Longrightarrow> node m' root p = node m root p"
    and "pt_lookup m' root va = pt_lookup m root va"
    and "pt_pages m' root = pt_pages m root"
proof -
  have ld: "ld64 m' (pte_addr b j) = ld64 m (pte_addr b j)"
    if "idx_path q" "node m root q = Some b" "unat j < 512" for q b j
  proof (rule ld64_cong, rule same)
    fix x
    assume "in_range (pte_addr b j) 8 x"
    with pte_addr_in_page [OF pt_wf_aligned [OF wf that(2)] that(3)]
    show "PGROUNDDOWN x \<in> pt_pages m root" using pt_pagesI [OF that(1,2)] by simp
  qed
  show nodes: "node m' root p = node m root p" if "idx_path p" for p
  proof (rule node_cong)
    fix q j r b
    assume "p = q @ j # r" and b: "node m root q = Some b"
    then have "idx_path q" "unat j < 512"
      using that idx_path_prefix [of q "j # r"] by (auto simp: idx_path_def)
    then show "ld64 m' (pte_addr b j) = ld64 m (pte_addr b j)" using ld b by blast
  qed
  show "pt_lookup m' root va = pt_lookup m root va"
    using nodes [of "leaf_path va"] ld [of "leaf_path va" _ "PX 0 va"]
    by (cases "node m root (leaf_path va)") (simp_all add: pt_lookup_def PX_less)
  show "pt_pages m' root = pt_pages m root" by (rule pt_pages_same_nodes) (rule nodes)
qed

lemma outside_inv:
  assumes inv: "vm_inv s pt fl"
    and same: "\<And>x. PGROUNDDOWN x \<in> pt_pages (mem s) pt \<union> set fl \<Longrightarrow> m' x = mem s x"
  shows "vm_inv (s\<lparr>mem := m'\<rparr>) pt fl"
proof -
  have wf: "pt_wf (mem s) pt" using inv by (simp add: vm_inv_def)
  have "flist m' (freelist s) fl = flist (mem s) (freelist s) fl"
  proof (rule flist_cong, rule ld64_cong, rule same)
    fix p x
    assume "p \<in> set fl" "in_range p 8 x"
    then show "PGROUNDDOWN x \<in> pt_pages (mem s) pt \<union> set fl"
      using inv ld64_in_page [of p x] by (auto simp: vm_inv_def kmem_inv_def kpage_def)
  qed
  then have "kmem_inv (s\<lparr>mem := m'\<rparr>) fl" using inv by (simp add: vm_inv_def kmem_inv_def kpage_def)
  moreover have "pt_wf m' pt" "pt_pages m' pt = pt_pages (mem s) pt"
    using outside_nodes(1,3) [OF wf, of m'] same by (auto intro: pt_wf_same_nodes [OF wf])
  ultimately show ?thesis using inv by (simp add: vm_inv_def kpage_def)
qed

lemma stbytes_eq:
  "length bs < 2 ^ 64 \<Longrightarrow>
   stbytes m a bs x = (if in_range a (length bs) x then bs ! unat (x - a) else m x)"
proof (induction bs arbitrary: m a)
  case (Cons b bs)
  have len: "length bs < 2 ^ 64 - 1" "length bs < 2 ^ 64" using Cons.prems by simp_all
  show ?case
  proof (cases "x = a")
    case True
    then show ?thesis using Cons.IH [OF len(2)] in_range_SucD [of a "length bs" x] len(2)
      by (auto simp: in_range_def)
  next
    case False
    then show ?thesis using Cons.IH [OF len(2)] in_range_Suc [OF len(1), of a x]
        in_range_Suc_offset [of a "length bs" x] len(2) by auto
  qed
qed (simp add: in_range_def)

subsection \<open>copyout\<close>

text \<open>A page that \<^verbatim>\<open>copyout\<close> may write: mapped for the user, writable, and neither a page-table
  page nor free.\<close>

definition user_writable :: "'z kernel_scheme \<Rightarrow> pagetable \<Rightarrow> addr list \<Rightarrow> u64 \<Rightarrow> bool" where
  "user_writable s pt fl a \<longleftrightarrow> (let e = pt_lookup (mem s) pt (PGROUNDDOWN a)
     in user_ok (mem s) pt a \<and> e AND PTE_W \<noteq> 0 \<and> PTE2PA e \<notin> pt_pages (mem s) pt \<union> set fl)"

definition wrote :: "memory \<Rightarrow> pagetable \<Rightarrow> u64 \<Rightarrow> u8 list \<Rightarrow> memory \<Rightarrow> bool" where
  "wrote m pt va src m' \<longleftrightarrow>
     (\<forall>i<length src. m' (user_phys m pt (va + of_nat i)) = src ! i) \<and>
     (\<forall>x. (\<forall>i<length src. x \<noteq> user_phys m pt (va + of_nat i)) \<longrightarrow> m' x = m x)"

lemma wrote_append:
  assumes "wrote m pt va xs m1" "wrote m1 pt (va + of_nat (length xs)) ys m2"
    and eq: "\<And>a. user_phys m1 pt a = user_phys m pt a"
    and inj: "inj_on (\<lambda>i. user_phys m pt (va + of_nat i)) {..<length xs + length ys}"
  shows "wrote m pt va (xs @ ys) m2"
  unfolding wrote_def
proof (intro conjI allI impI)
  let ?f = "\<lambda>i. user_phys m pt (va + of_nat i)"
  have w2: "m2 (?f (length xs + j)) = ys ! j" if "j < length ys" for j
    using assms(2) that eq by (simp add: wrote_def add.assoc)
  have k2: "m2 x = m1 x" if "\<And>j. j < length ys \<Longrightarrow> x \<noteq> ?f (length xs + j)" for x
    using assms(2) that eq by (simp add: wrote_def add.assoc)
  fix i
  assume i: "i < length (xs @ ys)"
  show "m2 (?f i) = (xs @ ys) ! i"
  proof (cases "i < length xs")
    case True
    have "?f i \<noteq> ?f (length xs + j)" if "j < length ys" for j
      using inj_onD [OF inj, of i "length xs + j"] True that by auto
    then have "m2 (?f i) = m1 (?f i)" by (rule k2)
    then show ?thesis using True assms(1) by (simp add: wrote_def nth_append)
  next
    case False
    then show ?thesis using w2 [of "i - length xs"] i by (simp add: nth_append)
  qed
next
  fix x
  assume x: "\<forall>i<length (xs @ ys). x \<noteq> user_phys m pt (va + of_nat i)"
  have "m2 x = m1 x" using assms(2) x eq by (simp add: wrote_def add.assoc flip: of_nat_add)
  also have "\<dots> = m x" using assms(1) x by (simp add: wrote_def)
  finally show "m2 x = m x" .
qed

lemma stbytes_page:
  assumes pa: "page_aligned pa" and off: "off + length bs \<le> 4096"
  shows "i < length bs \<Longrightarrow> stbytes m (pa + of_nat off) bs (pa + of_nat (off + i)) = bs ! i"
    and "(\<And>i. i < length bs \<Longrightarrow> x \<noteq> pa + of_nat (off + i)) \<Longrightarrow> stbytes m (pa + of_nat off) bs x = m x"
    and "PGROUNDDOWN x \<noteq> pa \<Longrightarrow> stbytes m (pa + of_nat off) bs x = m x"
proof -
  have len: "length bs < 2 ^ 64" using off by simp
  have u: "unat (of_nat i :: u64) = i" if "i \<le> 4096" for i :: nat
    using that unfolding unat_of_nat by (intro mod_less) simp
  show "stbytes m (pa + of_nat off) bs (pa + of_nat (off + i)) = bs ! i" if "i < length bs"
    using that off u [of i] by (simp add: stbytes_eq [OF len] in_range_def)
  have split: "\<exists>i<length bs. x = pa + of_nat (off + i)" if "in_range (pa + of_nat off) (length bs) x"
  proof (intro exI conjI)
    show "unat (x - (pa + of_nat off)) < length bs" using that by (simp add: in_range_def)
    show "x = pa + of_nat (off + unat (x - (pa + of_nat off)))" by simp
  qed
  then show "stbytes m (pa + of_nat off) bs x = m x" if "\<And>i. i < length bs \<Longrightarrow> x \<noteq> pa + of_nat (off + i)"
    using that by (auto simp: stbytes_eq [OF len])
  have "PGROUNDDOWN (pa + of_nat (off + i)) = pa" if "i < length bs" for i
    using pa that off u [of "off + i"] in_page_iff [OF pa, of "pa + of_nat (off + i)"]
    by (simp add: in_range_def)
  with split show "stbytes m (pa + of_nat off) bs x = m x" if "PGROUNDDOWN x \<noteq> pa"
    using that by (auto simp: stbytes_eq [OF len])
qed

lemma copyout_round:
  assumes va: "unat va mod 4096 + length bs \<le> 4096" "unat va + length bs \<le> 2 ^ 64"
    and pa: "pa = PTE2PA (pt_lookup m pt (PGROUNDDOWN va))"
    and m1: "m1 = stbytes m (user_phys m pt va) bs"
  shows "wrote m pt va bs m1" and "PGROUNDDOWN x \<noteq> pa \<Longrightarrow> m1 x = m x"
proof -
  have al: "page_aligned pa" by (simp add: pa page_aligned_def)
  have "va - PGROUNDDOWN va = of_nat (unat va mod 4096)"
    unfolding unat_offset_in_page [of va, symmetric] by simp
  then have ph: "user_phys m pt va = pa + of_nat (unat va mod 4096)" by (simp add: user_phys_def pa)
  have phi: "user_phys m pt (va + of_nat i) = pa + of_nat (unat va mod 4096 + i)" if "i < length bs" for i
    using user_phys_offset [of va i m pt] va that ph by simp
  note page = stbytes_page [OF al va(1), of _ m, folded ph, folded m1]
  show "wrote m pt va bs m1" unfolding wrote_def using page(1,2) phi by metis
  show "PGROUNDDOWN x \<noteq> pa \<Longrightarrow> m1 x = m x" by (rule page(3))
qed

lemma copyout_step:
  assumes inv: "vm_inv s pt fl" and len: "src \<noteq> []" "unat va + length src \<le> 2 ^ 38"
    and w: "user_writable s pt fl va" and n: "n = min (4096 - unat va mod 4096) (length src)"
  obtains m1 where
    "copyout_loop (Suc k) pt psz va src s =
       copyout_loop k pt psz (PGROUNDDOWN va + 4096) (drop n src) (s\<lparr>mem := m1\<rparr>)"
    "wrote (mem s) pt va (take n src) m1"
    "\<forall>x. PGROUNDDOWN x \<in> pt_pages (mem s) pt \<union> set fl \<longrightarrow> m1 x = mem s x"
proof -
  let ?e = "pt_lookup (mem s) pt (PGROUNDDOWN va)"
  have off: "unat va mod 4096 < 4096" by simp
  have e: "user_ok (mem s) pt va" "?e AND PTE_V \<noteq> 0" "?e AND PTE_W \<noteq> 0"
    "PTE2PA ?e \<noteq> 0" "PTE2PA ?e \<notin> pt_pages (mem s) pt \<union> set fl"
    using w by (auto simp: user_writable_def user_ok_def Let_def)
  have lim: "PGROUNDDOWN va < MAXVA"
  proof -
    have "unat va < 2 ^ 38" using len by (cases src) auto
    then show ?thesis using PGROUNDDOWN_le [of va]
      by (simp add: word_less_nat_alt word_le_nat_alt unat_MAXVA)
  qed
  obtain l where l: "node (mem s) pt (leaf_path (PGROUNDDOWN va)) = Some l"
    "walk pt (PGROUNDDOWN va) False s = Ok (pte_addr l (PX 0 (PGROUNDDOWN va))) s"
    "ld64 (mem s) (pte_addr l (PX 0 (PGROUNDDOWN va))) = ?e"
    by (rule lookup_zero_walk [OF lim e(2)])
  define m1 where "m1 = stbytes (mem s) (user_phys (mem s) pt va) (take n src)"
  have step: "copyout_loop (Suc k) pt psz va src s =
      copyout_loop k pt psz (PGROUNDDOWN va + 4096) (drop n src) (s\<lparr>mem := m1\<rparr>)"
    using user_page_mapped [OF inv e(1) lim, of psz False] leaf_nonzero [OF inv l(1)] l(2,3) e(3,4)
      len(1) lim [unfolded not_le [symmetric]]
    by (simp add: monad_defs Let_def page_end_offset PGSIZE_def load64_def user_phys_def m1_def n)
  have "unat va mod 4096 + length (take n src) \<le> 4096" "unat va + length (take n src) \<le> 2 ^ 64"
  proof -
    have "n \<le> 4096 - unat va mod 4096" "n \<le> length src" using n by simp_all
    then show "unat va mod 4096 + length (take n src) \<le> 4096" "unat va + length (take n src) \<le> 2 ^ 64"
      using off len(2) by simp_all
  qed
  note round = copyout_round [OF this refl m1_def]
  have "\<forall>x. PGROUNDDOWN x \<in> pt_pages (mem s) pt \<union> set fl \<longrightarrow> m1 x = mem s x"
  proof (intro allI impI round(2))
    show "PGROUNDDOWN x \<noteq> PTE2PA ?e" if "PGROUNDDOWN x \<in> pt_pages (mem s) pt \<union> set fl" for x
      using e(5) that by auto
  qed
  from that [OF step round(1) this] show thesis .
qed

lemma writable_same:
  assumes "\<And>a. pt_lookup m1 pt a = pt_lookup (mem s) pt a" "pt_pages m1 pt = pt_pages (mem s) pt"
  shows "user_writable (s\<lparr>mem := m1\<rparr>) pt fl a = user_writable s pt fl a"
    and "user_phys m1 pt a = user_phys (mem s) pt a"
  using assms by (simp_all add: user_writable_def user_ok_def user_phys_def)

lemma copyout_loop_mapped:
  assumes "vm_inv s pt fl" "unat va + length src \<le> 2 ^ 38"
    and "\<And>i. i < length src \<Longrightarrow> user_writable s pt fl (va + of_nat i)"
    and "inj_on (\<lambda>i. user_phys (mem s) pt (va + of_nat i)) {..<length src}"
    and "unat va mod 4096 + length src + 4096 \<le> 4096 * k"
  shows "\<exists>m'. copyout_loop k pt psz va src s = Ok 0 (s\<lparr>mem := m'\<rparr>) \<and> wrote (mem s) pt va src m'
    \<and> (\<forall>x. PGROUNDDOWN x \<in> pt_pages (mem s) pt \<union> set fl \<longrightarrow> m' x = mem s x)"
  using assms
proof (induction k arbitrary: va src s)
  case 0
  then show ?case by simp
next
  case (Suc k)
  note prems = Suc.prems
  show ?case
  proof (cases "src = []")
    case True
    then show ?thesis by (auto simp: monad_defs wrote_def intro: exI [of _ "mem s"])
  next
    case False
    define n where "n = min (4096 - unat va mod 4096) (length src)"
    have n: "n \<le> length src" by (simp add: n_def)
    have w: "user_writable s pt fl va" using prems(3) [of 0] False by simp
    obtain m1 where step: "copyout_loop (Suc k) pt psz va src s =
        copyout_loop k pt psz (PGROUNDDOWN va + 4096) (drop n src) (s\<lparr>mem := m1\<rparr>)"
      and wr: "wrote (mem s) pt va (take n src) m1"
      and keep': "\<forall>x. PGROUNDDOWN x \<in> pt_pages (mem s) pt \<union> set fl \<longrightarrow> m1 x = mem s x"
      by (rule copyout_step [OF prems(1) False prems(2) w n_def, of k psz])
    have keep: "m1 x = mem s x" if "PGROUNDDOWN x \<in> pt_pages (mem s) pt \<union> set fl" for x
      by (rule keep' [rule_format, OF that])
    have wf: "pt_wf (mem s) pt" using prems(1) by (simp add: vm_inv_def)
    have same: "pt_lookup m1 pt a = pt_lookup (mem s) pt a" "pt_pages m1 pt = pt_pages (mem s) pt" for a
      by (rule outside_nodes [OF wf], rule keep, simp)+
    show ?thesis
    proof (cases "length src \<le> 4096 - unat va mod 4096")
      case True
      then have "n = length src" by (simp add: n_def)
      then have "copyout_loop (Suc k) pt psz va src s = Ok 0 (s\<lparr>mem := m1\<rparr>)"
        using step prems(5) False by (cases k) (simp_all add: monad_defs)
      then show ?thesis using wr keep \<open>n = length src\<close> by auto
    next
      case more: False
      then have n4: "n = 4096 - unat va mod 4096" by (simp add: n_def)
      have va': "PGROUNDDOWN va + 4096 = va + of_nat n" unfolding n4 by (rule next_page)
      have u: "unat (va + of_nat n) = unat va + n" using prems(2) n by (intro unat_add_small) simp
      have shift: "va + of_nat n + of_nat i = va + of_nat (n + i)" for i by (simp add: add.assoc)
      have wr': "user_writable (s\<lparr>mem := m1\<rparr>) pt fl (va + of_nat n + of_nat i)"
        if "i < length (drop n src)" for i
        unfolding shift writable_same [OF same] using prems(3) [of "n + i"] that by simp
      have inj': "inj_on (\<lambda>i. user_phys m1 pt (va + of_nat n + of_nat i)) {..<length (drop n src)}"
        unfolding shift writable_same(2) [OF same]
      proof (rule inj_onI)
        fix i j
        assume "i \<in> {..<length (drop n src)}" "j \<in> {..<length (drop n src)}"
          "user_phys (mem s) pt (va + of_nat (n + i)) = user_phys (mem s) pt (va + of_nat (n + j))"
        then show "i = j" using inj_onD [OF prems(4), of "n + i" "n + j"] by simp
      qed
      have "unat (va + of_nat n) mod 4096 = 0" using aligned_next_page [of va] va' by simp
      then have fuel: "unat (va + of_nat n) mod 4096 + length (drop n src) + 4096 \<le> 4096 * k"
        using prems(5) n4 more by simp
      have "unat (va + of_nat n) + length (drop n src) \<le> 2 ^ 38" using u n prems(2) by simp
      moreover have "vm_inv (s\<lparr>mem := m1\<rparr>) pt fl" by (rule outside_inv [OF prems(1)]) (rule keep)
      ultimately have "\<exists>m'. copyout_loop k pt psz (va + of_nat n) (drop n src) (s\<lparr>mem := m1\<rparr>)
            = Ok 0 (s\<lparr>mem := m1, mem := m'\<rparr>)
          \<and> wrote (mem (s\<lparr>mem := m1\<rparr>)) pt (va + of_nat n) (drop n src) m'
          \<and> (\<forall>x. PGROUNDDOWN x \<in> pt_pages (mem (s\<lparr>mem := m1\<rparr>)) pt \<union> set fl
                \<longrightarrow> m' x = mem (s\<lparr>mem := m1\<rparr>) x)"
        using wr' inj' fuel by (intro Suc.IH) simp_all
      then obtain m' where m': "copyout_loop k pt psz (va + of_nat n) (drop n src) (s\<lparr>mem := m1\<rparr>) = Ok 0 (s\<lparr>mem := m'\<rparr>)"
        "wrote m1 pt (va + of_nat n) (drop n src) m'"
        "\<forall>x. PGROUNDDOWN x \<in> pt_pages (mem s) pt \<union> set fl \<longrightarrow> m' x = m1 x"
        by (simp add: same) blast
      have "wrote (mem s) pt va (take n src @ drop n src) m'"
        by (rule wrote_append [OF wr])
          (use m'(2) n prems(4) writable_same(2) [OF same] in \<open>simp_all add: min_absorb2\<close>)
      then have "wrote (mem s) pt va src m'" by (simp only: append_take_drop_id)
      moreover have "copyout_loop (Suc k) pt psz va src s = Ok 0 (s\<lparr>mem := m'\<rparr>)"
        using step m'(1) va' by simp
      ultimately show ?thesis using m'(3) keep by auto
    qed
  qed
qed

subsection \<open>Properties\<close>

text \<open>C3 What \<^verbatim>\<open>copyout\<close> writes to mapped, writable user memory \<^verbatim>\<open>copyin\<close> reads back, byte for
  byte; both return 0, and no other byte of memory changes.\<close>

theorem copyout_copyin_roundtrip:
  assumes "vm_inv s pt fl" and "unat va + length src \<le> 2 ^ 38"
    and "\<forall>i<length src. user_writable s pt fl (va + of_nat i)"
    and "inj_on (\<lambda>i. user_phys (mem s) pt (va + of_nat i)) {..<length src}"
  shows "\<exists>t. copyout pt psz va src s = Ok 0 t \<and> copyin pt psz va (length src) t = Ok (0, src) t
    \<and> (\<forall>x. (\<forall>i<length src. x \<noteq> user_phys (mem s) pt (va + of_nat i)) \<longrightarrow> mem t x = mem s x)"
proof -
  have "unat va mod 4096 < 4096" by simp
  then have fuel: "unat va mod 4096 + length src + 4096 \<le> 4096 * vm_fuel"
    using assms(2) unfolding vm_fuel_def by simp
  have w: "user_writable s pt fl (va + of_nat i)" if "i < length src" for i
    using assms(3) that by blast
  from copyout_loop_mapped [OF assms(1,2) w assms(4) fuel]
  obtain m' where m': "copyout pt psz va src s = Ok 0 (s\<lparr>mem := m'\<rparr>)" "wrote (mem s) pt va src m'"
    "\<forall>x. PGROUNDDOWN x \<in> pt_pages (mem s) pt \<union> set fl \<longrightarrow> m' x = mem s x"
    unfolding copyout_def by blast
  have wf: "pt_wf (mem s) pt" using assms(1) by (simp add: vm_inv_def)
  have same: "pt_lookup m' pt a = pt_lookup (mem s) pt a" for a
    by (rule outside_nodes(2) [OF wf], rule m'(3) [rule_format], simp)
  have inv: "vm_inv (s\<lparr>mem := m'\<rparr>) pt fl"
    by (rule outside_inv [OF assms(1)]) (rule m'(3) [rule_format])
  have ok: "user_ok (mem (s\<lparr>mem := m'\<rparr>)) pt (va + of_nat i)" if "i < length src" for i
    using w [OF that] by (simp add: user_writable_def user_ok_def same Let_def)
  have "user_bytes m' pt va (length src) = src"
    using m'(2) by (auto simp: user_bytes_def wrote_def user_phys_def same intro: nth_equalityI)
  then have "copyin pt psz va (length src) (s\<lparr>mem := m'\<rparr>) = Ok (0, src) (s\<lparr>mem := m'\<rparr>)"
    using copyin_mapped [OF inv assms(2) ok, of psz] by simp
  then show ?thesis using m'(1,2) by (auto simp: wrote_def)
qed

text \<open>A state whose address 0 is mapped to the writable user page \<open>0x80004000\<close>.\<close>

definition copy_demo :: kernel where
  "copy_demo = \<lparr>mem =
     sd64 (sd64 (sd64 (\<lambda>_. 0) (pte_addr 0x80001000 0) 0x20000801)
       (pte_addr 0x80002000 0) 0x20000C01) (pte_addr 0x80003000 0) 0x20001017,
     freelist = 0, kend = 0x80001000, klog = []\<rparr>"

lemma copy_demo_pte:
  assumes "page_aligned a" "unat i < 512"
  shows "ld64 (mem copy_demo) (pte_addr a i) =
    (if i = 0 then if a = 0x80003000 then 0x20001017 else if a = 0x80002000 then 0x20000C01
       else if a = 0x80001000 then 0x20000801 else 0 else 0)"
  using assms by (simp add: copy_demo_def ld64_sd64_pte page_aligned_def)

lemma demo_ptes [simp]:
  "PTE2PA 0x20000801 = 0x80002000" "PTE2PA 0x20000C01 = 0x80003000" "PTE2PA 0x20001017 = 0x80004000"
  by (simp_all add: PTE2PA_def)

lemma copy_demo_node:
  "idx_path p \<Longrightarrow> node (mem copy_demo) 0x80001000 p =
    (if p = [] then Some 0x80001000 else if p = [0] then Some 0x80002000
     else if p = [0, 0] then Some 0x80003000 else None)"
proof -
  assume p: "idx_path p"
  then consider "p = []" | i where "p = [i]" "unat i < 512"
    | i j where "p = [i, j]" "unat i < 512" "unat j < 512"
    by (cases p rule: remdups_adj.cases) (auto simp: idx_path_def)
  then show ?thesis
    by cases (simp_all add: copy_demo_pte page_aligned_def PTE_V_def)
qed

lemma copy_demo_inv:
  "vm_inv copy_demo 0x80001000 []" "pt_pages (mem copy_demo) 0x80001000 = {0x80001000, 0x80002000, 0x80003000}"
proof -
  have paths: "idx_path [0]" "idx_path [0, 0]" by (simp_all add: idx_path_def)
  show pages: "pt_pages (mem copy_demo) 0x80001000 = {0x80001000, 0x80002000, 0x80003000}"
  proof
    show "pt_pages (mem copy_demo) 0x80001000 \<subseteq> {0x80001000, 0x80002000, 0x80003000}"
      by (auto simp: pt_pages_def copy_demo_node split: if_splits)
    show "{0x80001000, 0x80002000, 0x80003000} \<subseteq> pt_pages (mem copy_demo) 0x80001000"
      using pt_pagesI [of "[]" "mem copy_demo" "0x80001000"] pt_pagesI [OF paths(1), of "mem copy_demo" "0x80001000"]
        pt_pagesI [OF paths(2), of "mem copy_demo" "0x80001000"] paths
      by (simp add: copy_demo_node del: node.simps)
  qed
  have "pt_wf (mem copy_demo) 0x80001000"
    by (auto simp: pt_wf_def copy_demo_node page_aligned_def split: if_splits)
  with pages show "vm_inv copy_demo 0x80001000 []"
    by (simp add: vm_inv_def kmem_inv_def kpage_def page_aligned_def KERNBASE_def PHYSTOP_def copy_demo_def)
qed

lemma copy_demo_page: "unat a < 4096 \<Longrightarrow> PGROUNDDOWN a = 0"
  by (simp add: word_unat_eq_iff unat_PGROUNDDOWN)

lemma copy_demo_writable:
  assumes "unat a < 4096"
  shows "user_writable copy_demo 0x80001000 [] a" "user_phys (mem copy_demo) 0x80001000 a = 0x80004000 + a"
proof -
  have "node (mem copy_demo) 0x80001000 [0, 0] = Some 0x80003000"
    by (subst copy_demo_node) (simp_all add: idx_path_def)
  moreover have "leaf_path 0 = [0, 0]" "PX 0 0 = 0" by (simp_all add: leaf_path_def PX_def)
  moreover have "ld64 (mem copy_demo) (pte_addr 0x80003000 0) = 0x20001017"
    by (simp add: copy_demo_pte page_aligned_def)
  ultimately have "pt_lookup (mem copy_demo) 0x80001000 0 = 0x20001017"
    by (simp add: pt_lookup_def)
  then show "user_writable copy_demo 0x80001000 [] a" "user_phys (mem copy_demo) 0x80001000 a = 0x80004000 + a"
    using copy_demo_page [OF assms]
    by (simp_all add: user_writable_def user_ok_def user_phys_def copy_demo_inv(2) pte_bit_defs)
qed

theorem copyout_copyin_roundtrip_witness:
  "\<exists>t. copyout 0x80001000 4096 0x10 [1, 2, 3] copy_demo = Ok 0 t
    \<and> copyin 0x80001000 4096 0x10 3 t = Ok (0, [1, 2, 3]) t"
proof -
  have "inj_on (\<lambda>i. user_phys (mem copy_demo) 0x80001000 (0x10 + of_nat i)) {..<3}"
    by (simp add: inj_on_def copy_demo_writable(2) numeral_3_eq_3 lessThan_Suc)
  moreover have "\<forall>i<3. user_writable copy_demo 0x80001000 [] (0x10 + of_nat i)"
    by (simp add: copy_demo_writable(1) numeral_3_eq_3 less_Suc_eq all_conj_distrib)
  ultimately show ?thesis
    using copyout_copyin_roundtrip [OF copy_demo_inv(1), of "0x10" "[1, 2, 3]" 4096]
    unfolding numeral_3_eq_3 by auto
qed

end
