(* ===== verification/Proc_Base.thy ===== *)
theory Proc_Base
  imports Vm
begin

text \<open>
  The process table of \<^verbatim>\<open>kernel/proc.c\<close> and \<^verbatim>\<open>kernel/proc.h\<close>, and the operations on it that
  the file system and the device drivers build on: the current process, sleep and wakeup,
  scheduling, kill, allocation and release of a process, growth of its memory, copies to and from
  the current address space.  The operations that need the file system are in theory
  \<^verbatim>\<open>Proc\<close>.

  A pointer into the process table is the index of the entry.  A wait channel is an address that
  only serves as a name, so it is a value of the datatype \<open>wchan\<close> with one constructor per
  object that the kernel sleeps on.  The spin locks delimit the atomic steps of the model.  A
  thread that calls \<^verbatim>\<open>sched()\<close> gives up the processor: the outcome is \<open>Sleep\<close> with the state
  that the scheduler then sees.
\<close>

datatype procstate = UNUSED | USED | SLEEPING | RUNNABLE | RUNNING | ZOMBIE

text \<open>What the kernel sleeps on; \<open>NoChan\<close> is the null pointer.\<close>

datatype wchan = NoChan | ChProc nat | ChLog | ChBufLock nat | ChInodeLock nat | ChPipeRead nat
  | ChPipeWrite nat | ChConsole | ChTicks | ChUart | ChUartLock | ChDiskFree | ChDiskBuf nat

record kcontext =
  ctx_ra :: u64
  ctx_sp :: u64
  ctx_s :: "u64 list"

record proc =
  p_state :: procstate
  p_chan :: wchan
  p_killed :: bool
  p_xstate :: int
  p_pid :: u32
  p_parent :: "nat option"
  p_kstack :: u64
  p_sz :: u64
  p_pagetable :: pagetable
  p_trapframe :: addr
  p_context :: kcontext
  p_ofile :: "nat option list"
  p_cwd :: "nat option"
  p_name :: "u8 list"

text \<open>\<open>cur\<close> is \<^verbatim>\<open>mycpu()->proc\<close> of the processor that executes the routine; \<open>sym_forkret\<close> is the
  address of \<^verbatim>\<open>forkret\<close>.\<close>

record pkernel = vmkernel +
  procs :: "nat \<Rightarrow> proc"
  cur :: "nat option"
  nextpid :: u32
  initproc :: "nat option"
  ticks :: u32
  sym_forkret :: addr

definition get_proc :: "nat \<Rightarrow> (proc \<Rightarrow> 'a) \<Rightarrow> ('z pkernel_scheme, 'a) kM" where
  "get_proc i f = gets (\<lambda>s. f (procs s i))"

definition upd_proc :: "nat \<Rightarrow> (proc \<Rightarrow> proc) \<Rightarrow> ('z pkernel_scheme, unit) kM" where
  "upd_proc i f = upd (\<lambda>s. s\<lparr>procs := (procs s)(i := f (procs s i))\<rparr>)"

text \<open>The trapframe is a page of physical memory; the offsets are those of \<^verbatim>\<open>struct trapframe\<close>.\<close>

definition tf_get :: "nat \<Rightarrow> u64 \<Rightarrow> ('z pkernel_scheme, u64) kM" where
  "tf_get p off = bnd (get_proc p p_trapframe) (\<lambda>tf. load64 (tf + off))"

definition tf_set :: "nat \<Rightarrow> u64 \<Rightarrow> u64 \<Rightarrow> ('z pkernel_scheme, unit) kM" where
  "tf_set p off v = bnd (get_proc p p_trapframe) (\<lambda>tf. store64 (tf + off) v)"

definition TF_kernel_satp :: u64 where "TF_kernel_satp = 0"
definition TF_kernel_sp :: u64 where "TF_kernel_sp = 8"
definition TF_kernel_trap :: u64 where "TF_kernel_trap = 16"
definition TF_epc :: u64 where "TF_epc = 24"
definition TF_kernel_hartid :: u64 where "TF_kernel_hartid = 32"
definition TF_sp :: u64 where "TF_sp = 48"
definition TF_a0 :: u64 where "TF_a0 = 112"
definition TF_a1 :: u64 where "TF_a1 = 120"
definition TF_a2 :: u64 where "TF_a2 = 128"
definition TF_a3 :: u64 where "TF_a3 = 136"
definition TF_a4 :: u64 where "TF_a4 = 144"
definition TF_a5 :: u64 where "TF_a5 = 152"
definition TF_a7 :: u64 where "TF_a7 = 168"
definition TF_SIZE :: nat where "TF_SIZE = 288"

subsection \<open>The current process, sleep and wakeup\<close>

definition procinit :: "('z pkernel_scheme, unit) kM" where
  "procinit =
     forM [0..<NPROC] (\<lambda>i. upd_proc i (\<lambda>p. p\<lparr>p_state := UNUSED, p_kstack := KSTACK i\<rparr>))"

definition myproc :: "('z pkernel_scheme, nat option) kM" where
  "myproc = gets cur"

text \<open>The use of \<^verbatim>\<open>myproc()\<close> as a pointer; a null pointer is a trap in the kernel.\<close>

definition the_proc :: "('z pkernel_scheme, nat) kM" where
  "the_proc = bnd myproc (\<lambda>c. case c of None \<Rightarrow> panic ''kerneltrap'' | Some p \<Rightarrow> ret p)"

definition sched :: "('z pkernel_scheme, unit) kM" where
  "sched =
     bnd the_proc (\<lambda>p.
     bnd (get_proc p p_state) (\<lambda>st.
     if st = RUNNING then panic ''sched RUNNING'' else sched_away))"

definition yield :: "('z pkernel_scheme, unit) kM" where
  "yield =
     bnd the_proc (\<lambda>p.
     bnd (upd_proc p (\<lambda>q. q\<lparr>p_state := RUNNABLE\<rparr>)) (\<lambda>_. sched))"

definition sleep_prepare :: "wchan \<Rightarrow> ('z pkernel_scheme, unit) kM" where
  "sleep_prepare chan =
     bnd the_proc (\<lambda>p.
     if chan = NoChan then panic ''sleep_prepare: zero chan''
     else upd_proc p (\<lambda>q. q\<lparr>p_chan := chan\<rparr>))"

definition sleep :: "('z pkernel_scheme, unit) kM" where
  "sleep =
     bnd the_proc (\<lambda>p.
     bnd (get_proc p p_chan) (\<lambda>c.
     whenM (c \<noteq> NoChan)
       (bnd (upd_proc p (\<lambda>q. q\<lparr>p_state := SLEEPING\<rparr>)) (\<lambda>_. sched))))"

text \<open>The body of \<^verbatim>\<open>while (cond) { sleep_prepare(chan); ...; sleep(); ... }\<close>.  When \<^verbatim>\<open>sleep\<close> comes
  back at once the loop tests its condition again; lemma \<open>sleep_retry_sleeps\<close> shows that this
  needs another thread, so that here the outcome is \<open>Sleep\<close>.\<close>

definition sleep_retry :: "wchan \<Rightarrow> ('z pkernel_scheme, 'a) kM" where
  "sleep_retry chan = bnd (sleep_prepare chan) (\<lambda>_. bnd sleep (\<lambda>_. hang))"

definition wakeup1 :: "wchan \<Rightarrow> proc \<Rightarrow> proc" where
  "wakeup1 chan p =
     (if p_chan p = chan then
        let q = p\<lparr>p_chan := NoChan\<rparr>
        in if p_state q = SLEEPING then q\<lparr>p_state := RUNNABLE\<rparr> else q
      else p)"

definition wakeup :: "wchan \<Rightarrow> ('z pkernel_scheme, unit) kM" where
  "wakeup chan = forM [0..<NPROC] (\<lambda>i. upd_proc i (wakeup1 chan))"

fun kkill_loop :: "u32 \<Rightarrow> nat list \<Rightarrow> ('z pkernel_scheme, int) kM" where
  "kkill_loop pid [] = ret (- 1)"
| "kkill_loop pid (i # is) =
     bnd (get_proc i p_pid) (\<lambda>q.
     if q = pid then
       bnd (upd_proc i (\<lambda>p. p\<lparr>p_killed := True\<rparr>)) (\<lambda>_.
       bnd (get_proc i p_state) (\<lambda>st.
       bnd (whenM (st = SLEEPING) (upd_proc i (\<lambda>p. p\<lparr>p_state := RUNNABLE\<rparr>))) (\<lambda>_.
       ret 0)))
     else kkill_loop pid is)"

definition kkill :: "u32 \<Rightarrow> ('z pkernel_scheme, int) kM" where
  "kkill pid = kkill_loop pid [0..<NPROC]"

definition setkilled :: "nat \<Rightarrow> ('z pkernel_scheme, unit) kM" where
  "setkilled p = upd_proc p (\<lambda>q. q\<lparr>p_killed := True\<rparr>)"

definition killed :: "nat \<Rightarrow> ('z pkernel_scheme, bool) kM" where
  "killed p = get_proc p p_killed"

text \<open>One pass of the loop of \<^verbatim>\<open>scheduler\<close>; \<open>run p\<close> stands for the switch to process \<open>p\<close> and
  everything that happens until it switches back.  The result is the list of the processes that
  ran; the variable \<^verbatim>\<open>found\<close> of the code tells whether it is empty.\<close>

fun scheduler_pass :: "(nat \<Rightarrow> ('z pkernel_scheme, unit) kM) \<Rightarrow> nat list \<Rightarrow> ('z pkernel_scheme, nat list) kM" where
  "scheduler_pass run [] = ret []"
| "scheduler_pass run (i # is) =
     bnd (get_proc i p_state) (\<lambda>st.
     if st = RUNNABLE then
       bnd (upd_proc i (\<lambda>p. p\<lparr>p_state := RUNNING\<rparr>)) (\<lambda>_.
       bnd (upd (\<lambda>s. s\<lparr>cur := Some i\<rparr>)) (\<lambda>_.
       bnd (run i) (\<lambda>_.
       bnd (upd (\<lambda>s. s\<lparr>cur := None\<rparr>)) (\<lambda>_.
       bnd (scheduler_pass run is) (\<lambda>rs.
       ret (i # rs))))))
     else scheduler_pass run is)"

definition scheduler_round :: "(nat \<Rightarrow> ('z pkernel_scheme, unit) kM) \<Rightarrow> ('z pkernel_scheme, nat list) kM" where
  "scheduler_round run = bnd (upd (\<lambda>s. s\<lparr>cur := None\<rparr>)) (\<lambda>_. scheduler_pass run [0..<NPROC])"

subsection \<open>Allocation of a process\<close>

definition allocpid :: "('z pkernel_scheme, u32) kM" where
  "allocpid =
     bnd (gets nextpid) (\<lambda>pid.
     bnd (upd (\<lambda>s. s\<lparr>nextpid := nextpid s + 1\<rparr>)) (\<lambda>_.
     ret pid))"

definition proc_pagetable :: "nat \<Rightarrow> ('z pkernel_scheme, pagetable) kM" where
  "proc_pagetable p =
     bnd uvmcreate (\<lambda>pt.
     if pt = 0 then ret 0
     else
       bnd (gets trampoline) (\<lambda>tr.
       bnd (mappages pt TRAMPOLINE PGSIZE tr (PTE_R OR PTE_X)) (\<lambda>r.
       if r < 0 then bnd (uvmfree pt 0) (\<lambda>_. ret 0)
       else
         bnd (get_proc p p_trapframe) (\<lambda>tf.
         bnd (mappages pt TRAPFRAME PGSIZE tf (PTE_R OR PTE_W)) (\<lambda>r2.
         if r2 < 0 then
           bnd (uvmunmap pt TRAMPOLINE 1 False) (\<lambda>_.
           bnd (uvmfree pt 0) (\<lambda>_. ret 0))
         else ret pt)))))"

definition proc_freepagetable :: "pagetable \<Rightarrow> u64 \<Rightarrow> ('z pkernel_scheme, unit) kM" where
  "proc_freepagetable pt sz =
     bnd (uvmunmap pt TRAMPOLINE 1 False) (\<lambda>_.
     bnd (uvmunmap pt TRAPFRAME 1 False) (\<lambda>_.
     uvmfree pt sz))"

definition freeproc :: "nat \<Rightarrow> ('z pkernel_scheme, unit) kM" where
  "freeproc i =
     bnd (get_proc i p_trapframe) (\<lambda>tf.
     bnd (whenM (tf \<noteq> 0) (kfree tf)) (\<lambda>_.
     bnd (upd_proc i (\<lambda>p. p\<lparr>p_trapframe := 0\<rparr>)) (\<lambda>_.
     bnd (get_proc i p_pagetable) (\<lambda>pt.
     bnd (get_proc i p_sz) (\<lambda>sz.
     bnd (whenM (pt \<noteq> 0) (proc_freepagetable pt sz)) (\<lambda>_.
     upd_proc i (\<lambda>p. p\<lparr>p_pagetable := 0, p_sz := 0, p_pid := 0, p_name := (p_name p)[0 := 0],
       p_chan := NoChan, p_killed := False, p_xstate := 0, p_state := UNUSED\<rparr>)))))))"

fun find_unused :: "(nat \<Rightarrow> proc) \<Rightarrow> nat list \<Rightarrow> nat option" where
  "find_unused ps [] = None"
| "find_unused ps (i # is) = (if p_state (ps i) = UNUSED then Some i else find_unused ps is)"

definition allocproc :: "('z pkernel_scheme, nat option) kM" where
  "allocproc =
     bnd (gets (\<lambda>s. find_unused (procs s) [0..<NPROC])) (\<lambda>slot.
     case slot of
       None \<Rightarrow> ret None
     | Some i \<Rightarrow>
         bnd allocpid (\<lambda>pid.
         bnd (upd_proc i (\<lambda>p. p\<lparr>p_pid := pid, p_state := USED\<rparr>)) (\<lambda>_.
         bnd kalloc (\<lambda>tf.
         bnd (upd_proc i (\<lambda>p. p\<lparr>p_trapframe := tf\<rparr>)) (\<lambda>_.
         if tf = 0 then bnd (freeproc i) (\<lambda>_. ret None)
         else
           bnd (proc_pagetable i) (\<lambda>pt.
           bnd (upd_proc i (\<lambda>p. p\<lparr>p_pagetable := pt\<rparr>)) (\<lambda>_.
           if pt = 0 then bnd (freeproc i) (\<lambda>_. ret None)
           else
             bnd (gets sym_forkret) (\<lambda>fr.
             bnd (upd_proc i (\<lambda>p. p\<lparr>p_context :=
               \<lparr>ctx_ra = fr, ctx_sp = p_kstack p + PGSIZE, ctx_s = replicate 12 0\<rparr>\<rparr>)) (\<lambda>_.
             ret (Some i))))))))))"

text \<open>\<^verbatim>\<open>sz + n\<close> adds the sign-extended \<^verbatim>\<open>int n\<close> modulo \<open>2 ^ 64\<close>.\<close>

definition growproc :: "int \<Rightarrow> ('z pkernel_scheme, int) kM" where
  "growproc n =
     bnd the_proc (\<lambda>p.
     bnd (get_proc p p_sz) (\<lambda>sz.
     bnd (get_proc p p_pagetable) (\<lambda>pt.
     if n > 0 then
       if sz + of_int n > TRAPFRAME then ret (- 1)
       else
         bnd (uvmalloc pt sz (sz + of_int n) PTE_W) (\<lambda>sz'.
         if sz' = 0 then ret (- 1)
         else bnd (upd_proc p (\<lambda>q. q\<lparr>p_sz := sz'\<rparr>)) (\<lambda>_. ret 0))
     else if n < 0 then
       bnd (uvmdealloc pt sz (sz + of_int n)) (\<lambda>sz'.
       bnd (upd_proc p (\<lambda>q. q\<lparr>p_sz := sz'\<rparr>)) (\<lambda>_. ret 0))
     else bnd (upd_proc p (\<lambda>q. q\<lparr>p_sz := sz\<rparr>)) (\<lambda>_. ret 0))))"

subsection \<open>Copies to and from the current address space\<close>

text \<open>The destination of a copy out of the kernel: a user address, an address of physical memory,
  or a kernel object outside it, whose bytes the caller keeps.  The source of a copy in is a user
  address or the bytes of a kernel object.\<close>

datatype copy_dst = UserDst u64 | KernDst addr | ObjDst
datatype copy_src = UserSrc u64 | ObjSrc "u8 list"

definition either_copyout :: "copy_dst \<Rightarrow> u8 list \<Rightarrow> ('z pkernel_scheme, int) kM" where
  "either_copyout dst src =
     (case dst of
        UserDst va \<Rightarrow>
          bnd the_proc (\<lambda>p.
          bnd (get_proc p p_pagetable) (\<lambda>pt.
          bnd (get_proc p p_sz) (\<lambda>sz.
          copyout pt sz va src)))
      | KernDst a \<Rightarrow> bnd (upd (\<lambda>s. s\<lparr>mem := stbytes (mem s) a src\<rparr>)) (\<lambda>_. ret 0)
      | ObjDst \<Rightarrow> ret 0)"

text \<open>The result, and the bytes that have been stored into the kernel buffer.\<close>

definition either_copyin :: "copy_src \<Rightarrow> nat \<Rightarrow> ('z pkernel_scheme, int \<times> u8 list) kM" where
  "either_copyin src len =
     (case src of
        UserSrc va \<Rightarrow>
          bnd the_proc (\<lambda>p.
          bnd (get_proc p p_pagetable) (\<lambda>pt.
          bnd (get_proc p p_sz) (\<lambda>sz.
          copyin pt sz va len)))
      | ObjSrc bs \<Rightarrow> ret (0, take len bs))"

fun copy_dst_plus :: "copy_dst \<Rightarrow> nat \<Rightarrow> copy_dst" where
  "copy_dst_plus (UserDst a) n = UserDst (a + of_nat n)"
| "copy_dst_plus (KernDst a) n = KernDst (a + of_nat n)"
| "copy_dst_plus ObjDst n = ObjDst"

fun copy_src_plus :: "copy_src \<Rightarrow> nat \<Rightarrow> copy_src" where
  "copy_src_plus (UserSrc a) n = UserSrc (a + of_nat n)"
| "copy_src_plus (ObjSrc bs) n = ObjSrc (drop n bs)"

definition state_name :: "procstate \<Rightarrow> string" where
  "state_name st =
     (case st of UNUSED \<Rightarrow> ''unused'' | USED \<Rightarrow> ''used'' | SLEEPING \<Rightarrow> ''sleep '' | RUNNABLE \<Rightarrow> ''runble''
      | RUNNING \<Rightarrow> ''run   '' | ZOMBIE \<Rightarrow> ''zombie'')"

text \<open>\<^verbatim>\<open>procdump\<close> prints the pid, the name of the state and the name of each process; the bytes of
  the name are the arguments after the pid.\<close>

definition procdump :: "('z pkernel_scheme, unit) kM" where
  "procdump =
     bnd (printk_msg [CHR 0x0A] []) (\<lambda>_.
     forM [0..<NPROC] (\<lambda>i.
       bnd (get_proc i (\<lambda>p. p)) (\<lambda>p.
       whenM (p_state p \<noteq> UNUSED)
         (bnd (printk_msg (''%d '' @ state_name (p_state p) @ '' %s'')
            (sint (p_pid p) # map uint (takeWhile (\<lambda>c. c \<noteq> 0) (p_name p)))) (\<lambda>_.
         printk_msg [CHR 0x0A] [])))))"

end
