(* ===== verification/Proc_Sync.thy ===== *)
theory Proc_Sync
  imports Proc_Base
begin

text \<open>
  Scheduling and synchronisation of \<^verbatim>\<open>kernel/proc.c\<close>: what \<^verbatim>\<open>wakeup\<close>, \<^verbatim>\<open>sleep\<close> and \<^verbatim>\<open>kkill\<close> do
  to the process table, the protocol of \<^verbatim>\<open>sleep_prepare\<close>, \<^verbatim>\<open>sleep\<close> and \<^verbatim>\<open>wakeup\<close> under
  arbitrary interleaving, the fairness of a pass of the scheduler, and the bound on the size of a
  process.
\<close>

subsection \<open>Updates of the process table\<close>

lemma forM_upd_proc:
  "distinct xs \<Longrightarrow> forM xs (\<lambda>i. upd_proc i (f i)) s =
     Ok () (s\<lparr>procs := \<lambda>i. if i \<in> set xs then f i (procs s i) else procs s i\<rparr>)"
proof (induction xs arbitrary: s)
  case (Cons x xs)
  then show ?case
    by (auto simp: bnd_def upd_proc_def upd_def fun_eq_iff intro!: pkernel.equality)
qed (simp add: ret_def)

definition wakeup_tab :: "wchan \<Rightarrow> (nat \<Rightarrow> proc) \<Rightarrow> nat \<Rightarrow> proc" where
  "wakeup_tab chan ps = (\<lambda>i. if i < NPROC then wakeup1 chan (ps i) else ps i)"

lemma wakeup_eq: "wakeup chan s = Ok () (s\<lparr>procs := wakeup_tab chan (procs s)\<rparr>)"
  unfolding wakeup_def wakeup_tab_def by (subst forM_upd_proc) simp_all

lemma sleep_retry_sleeps:
  assumes "cur s = Some p" and "chan \<noteq> NoChan"
  shows "sleep_retry chan s =
    Sleep (s\<lparr>procs := (procs s)(p := (procs s p)\<lparr>p_chan := chan, p_state := SLEEPING\<rparr>)\<rparr>)"
  using assms
  by (simp add: sleep_retry_def sleep_prepare_def sleep_def sched_def the_proc_def myproc_def
      get_proc_def upd_proc_def monad_defs)


text \<open>A process table with one process asleep on the log and one on the ticks.\<close>

definition proc0 :: proc where
  "proc0 = \<lparr>p_state = UNUSED, p_chan = NoChan, p_killed = False, p_xstate = 0, p_pid = 0,
     p_parent = None, p_kstack = 0, p_sz = 0, p_pagetable = 0, p_trapframe = 0,
     p_context = \<lparr>ctx_ra = 0, ctx_sp = 0, ctx_s = []\<rparr>, p_ofile = replicate 16 None, p_cwd = None,
     p_name = replicate 16 0\<rparr>"

definition procs_demo :: pkernel where
  "procs_demo = \<lparr>mem = (\<lambda>_. 0), freelist = 0, kend = 0x80021000, klog = [], etext = 0x80008000,
     trampoline = 0x80007000, kernel_pagetable = 0, satp = 0,
     procs = (\<lambda>_. proc0)(1 := proc0\<lparr>p_state := SLEEPING, p_chan := ChLog, p_pid := 5\<rparr>,
       2 := proc0\<lparr>p_state := SLEEPING, p_chan := ChTicks, p_pid := 6\<rparr>,
       3 := proc0\<lparr>p_state := RUNNABLE, p_pid := 7, p_sz := 4096\<rparr>),
     cur = Some 3, nextpid = 8, initproc = Some 1, ticks = 0, sym_forkret = 0\<rparr>"


subsection \<open>The sleep protocol under interleaving\<close>

text \<open>
  Any number of threads wait for a condition with the idiom of the kernel,

    \<^verbatim>\<open>acquire(lk); while (!cond) { sleep_prepare(c); release(lk); sleep(); acquire(lk); }
    cond = 0; release(lk)\<close>,

  and any number of threads signal it with \<^verbatim>\<open>acquire(lk); cond = 1; wakeup(c); release(lk)\<close>.
  Thread \<open>i\<close> is process \<open>i\<close>.  Each step is one of the calls; the process table changes by the
  functions of the model.
\<close>

datatype tpc = Idle | Test | Prepared | Unlocked | Asleep | KLocked | KSet | KWoken

record sync =
  tab :: "nat \<Rightarrow> proc"
  holder :: "nat option"
  cnd :: bool
  tpcs :: "nat \<Rightarrow> tpc"

definition sync_init :: "sync \<Rightarrow> bool" where
  "sync_init s \<longleftrightarrow> holder s = None \<and> (\<forall>i. tpcs s i = Idle) \<and> (\<forall>i. p_state (tab s i) \<noteq> SLEEPING)"

inductive sync_step :: "wchan \<Rightarrow> sync \<Rightarrow> sync \<Rightarrow> bool" for c :: wchan where
  w_acquire: "tpcs s i = Idle \<Longrightarrow> holder s = None \<Longrightarrow> i < NPROC \<Longrightarrow>
    sync_step c s (s\<lparr>holder := Some i, tpcs := (tpcs s)(i := Test)\<rparr>)"
| w_take: "tpcs s i = Test \<Longrightarrow> cnd s \<Longrightarrow>
    sync_step c s (s\<lparr>cnd := False, holder := None, tpcs := (tpcs s)(i := Idle)\<rparr>)"
| w_prepare: "tpcs s i = Test \<Longrightarrow> \<not> cnd s \<Longrightarrow>
    sync_step c s (s\<lparr>tab := (tab s)(i := (tab s i)\<lparr>p_chan := c\<rparr>), tpcs := (tpcs s)(i := Prepared)\<rparr>)"
| w_release: "tpcs s i = Prepared \<Longrightarrow>
    sync_step c s (s\<lparr>holder := None, tpcs := (tpcs s)(i := Unlocked)\<rparr>)"
| w_sleep: "tpcs s i = Unlocked \<Longrightarrow> p_chan (tab s i) \<noteq> NoChan \<Longrightarrow>
    sync_step c s (s\<lparr>tab := (tab s)(i := (tab s i)\<lparr>p_state := SLEEPING\<rparr>), tpcs := (tpcs s)(i := Asleep)\<rparr>)"
| w_no_sleep: "tpcs s i = Unlocked \<Longrightarrow> p_chan (tab s i) = NoChan \<Longrightarrow>
    sync_step c s (s\<lparr>tpcs := (tpcs s)(i := Idle)\<rparr>)"
| w_resume: "tpcs s i = Asleep \<Longrightarrow> p_state (tab s i) = RUNNABLE \<Longrightarrow>
    sync_step c s (s\<lparr>tab := (tab s)(i := (tab s i)\<lparr>p_state := RUNNING\<rparr>), tpcs := (tpcs s)(i := Idle)\<rparr>)"
| k_acquire: "tpcs s i = Idle \<Longrightarrow> holder s = None \<Longrightarrow>
    sync_step c s (s\<lparr>holder := Some i, tpcs := (tpcs s)(i := KLocked)\<rparr>)"
| k_set: "tpcs s i = KLocked \<Longrightarrow>
    sync_step c s (s\<lparr>cnd := True, tpcs := (tpcs s)(i := KSet)\<rparr>)"
| k_wakeup: "tpcs s i = KSet \<Longrightarrow>
    sync_step c s (s\<lparr>tab := wakeup_tab c (tab s), tpcs := (tpcs s)(i := KWoken)\<rparr>)"
| k_release: "tpcs s i = KWoken \<Longrightarrow>
    sync_step c s (s\<lparr>holder := None, tpcs := (tpcs s)(i := Idle)\<rparr>)"

inductive sync_reach :: "wchan \<Rightarrow> sync \<Rightarrow> bool" for c :: wchan where
  start: "sync_init s \<Longrightarrow> sync_reach c s"
| step: "sync_reach c s \<Longrightarrow> sync_step c s t \<Longrightarrow> sync_reach c t"

definition in_lock :: "tpc \<Rightarrow> bool" where
  "in_lock q \<longleftrightarrow> q \<in> {Test, Prepared, KLocked, KSet, KWoken}"

definition waiting :: "tpc \<Rightarrow> bool" where
  "waiting q \<longleftrightarrow> q \<in> {Prepared, Unlocked, Asleep}"

text \<open>The invariant: the program counters agree with the lock; only a waiting thread sleeps; a
  waiting thread is registered on the channel or has been woken; while the condition holds and no
  signaller is between setting it and calling \<^verbatim>\<open>wakeup\<close>, every waiting thread has been woken.\<close>

definition signalling :: "sync \<Rightarrow> bool" where
  "signalling s \<longleftrightarrow> (\<exists>k. tpcs s k = KSet)"

definition thread_inv :: "wchan \<Rightarrow> sync \<Rightarrow> nat \<Rightarrow> bool" where
  "thread_inv c s i \<longleftrightarrow>
     (in_lock (tpcs s i) \<longleftrightarrow> holder s = Some i)
   \<and> (waiting (tpcs s i) \<or> tpcs s i = Test \<longrightarrow> i < NPROC)
   \<and> (p_state (tab s i) = SLEEPING \<longrightarrow> tpcs s i = Asleep \<and> p_chan (tab s i) = c)
   \<and> (waiting (tpcs s i) \<longrightarrow> p_chan (tab s i) = c \<or> p_chan (tab s i) = NoChan)
   \<and> (cnd s \<and> \<not> signalling s \<and> waiting (tpcs s i) \<longrightarrow> p_chan (tab s i) = NoChan)"

definition sync_inv :: "wchan \<Rightarrow> sync \<Rightarrow> bool" where
  "sync_inv c s \<longleftrightarrow> (\<forall>i. thread_inv c s i)"

lemmas pc_defs = in_lock_def waiting_def signalling_def

lemma sync_inv_init: "sync_init s \<Longrightarrow> sync_inv c s"
  by (simp add: sync_init_def sync_inv_def thread_inv_def pc_defs)

lemma wakeup_tab_chan:
  "p_chan (wakeup_tab c ps i) = (if i < NPROC \<and> p_chan (ps i) = c then NoChan else p_chan (ps i))"
  "p_state (wakeup_tab c ps i) = (if i < NPROC \<and> p_chan (ps i) = c \<and> p_state (ps i) = SLEEPING
     then RUNNABLE else p_state (ps i))"
  by (auto simp: wakeup_tab_def wakeup1_def Let_def)

text \<open>A step of thread \<open>i\<close> that does not touch the other entries of the table keeps the invariant
  of the other threads, when the condition does not become true and no signal is completed.\<close>

lemma other_thread_inv:
  assumes "thread_inv c s j" and "j \<noteq> i" and "tpcs t = (tpcs s)(i := q)" and "tab t j = tab s j"
    and "holder t = Some j \<longleftrightarrow> holder s = Some j" and "tpcs s i \<noteq> KSet" and "cnd t \<and> q \<noteq> KSet \<longrightarrow> cnd s"
  shows "thread_inv c t j"
proof -
  have "signalling t" if "signalling s" using that assms(2,3,6) by (auto simp: signalling_def)
  moreover have "signalling t" if "q = KSet" using that assms(3) by (auto simp: signalling_def)
  ultimately show ?thesis using assms unfolding thread_inv_def by auto
qed

lemma own_thread_inv:
  assumes "thread_inv c s i" and "tpcs t = (tpcs s)(i := q)" and "tpcs s i \<noteq> KSet"
    and "in_lock q \<longleftrightarrow> holder t = Some i"
    and "waiting q \<or> q = Test \<Longrightarrow> i < NPROC"
    and "p_state (tab t i) = SLEEPING \<Longrightarrow> q = Asleep \<and> p_chan (tab t i) = c"
    and "waiting q \<Longrightarrow> p_chan (tab t i) = c \<or> p_chan (tab t i) = NoChan"
    and "waiting q \<Longrightarrow> cnd t \<Longrightarrow> \<not> signalling s \<Longrightarrow> p_chan (tab t i) = NoChan"
  shows "thread_inv c t i"
proof -
  have "signalling t" if sg: "signalling s"
  proof -
    obtain k where "tpcs s k = KSet" using sg by (auto simp: signalling_def)
    then have "tpcs t k = KSet" using assms(2,3) by auto
    then show ?thesis by (auto simp: signalling_def)
  qed
  then show ?thesis using assms(2,4-8) unfolding thread_inv_def by auto
qed

lemma sync_step_inv:
  assumes "sync_step c s t" and "c \<noteq> NoChan" and inv: "sync_inv c s"
  shows "sync_inv c t"
  unfolding sync_inv_def
proof
  fix j
  have inv_at: "thread_inv c s k" for k using inv by (simp add: sync_inv_def)
  have at: "in_lock (tpcs s k) \<longleftrightarrow> holder s = Some k" "waiting (tpcs s k) \<or> tpcs s k = Test \<Longrightarrow> k < NPROC"
    "p_state (tab s k) = SLEEPING \<Longrightarrow> tpcs s k = Asleep \<and> p_chan (tab s k) = c"
    "waiting (tpcs s k) \<Longrightarrow> p_chan (tab s k) = c \<or> p_chan (tab s k) = NoChan"
    "cnd s \<and> \<not> signalling s \<and> waiting (tpcs s k) \<Longrightarrow> p_chan (tab s k) = NoChan" for k
    using inv_at [of k] by (auto simp: thread_inv_def)
  from assms(1) show "thread_inv c t j"
  proof (cases rule: sync_step.cases)
    case (k_wakeup i)
    have t: "tab t = wakeup_tab c (tab s)" "holder t = holder s" "tpcs t = (tpcs s)(i := KWoken)"
      using k_wakeup by simp_all
    have "holder s = Some i" using at(1) [of i] k_wakeup by (simp add: in_lock_def)
    then have lock: "in_lock (tpcs t j) \<longleftrightarrow> holder t = Some j"
      using at(1) [of j] t by (cases "j = i") (simp_all add: in_lock_def)
    have w: "waiting (tpcs t j) \<Longrightarrow> waiting (tpcs s j)" "tpcs t j = Test \<Longrightarrow> tpcs s j = Test"
      "tpcs s j = Asleep \<Longrightarrow> tpcs t j = Asleep"
      using t k_wakeup by (auto simp: waiting_def split: if_splits)
    have woken: "p_chan (tab t j) = NoChan" if "waiting (tpcs t j)"
      using at(2,4) [of j] w(1) [OF that] by (auto simp: t wakeup_tab_chan)
    have "p_state (tab t j) \<noteq> SLEEPING"
      using at(2,3) [of j] by (auto simp: t wakeup_tab_chan waiting_def split: if_splits)
    then show ?thesis using lock woken at(2) [of j] w unfolding thread_inv_def by blast
  next
    case (w_acquire i)
    show ?thesis
    proof (cases "j = i")
      case True
      show ?thesis unfolding True
        by (rule own_thread_inv [OF inv_at [of i], of t Test])
          (use w_acquire at [of i] assms(2) in \<open>auto simp: in_lock_def waiting_def\<close>)
    next
      case False
      then show ?thesis using w_acquire at(1) [of i] at(1) [of j]
        by (intro other_thread_inv [OF inv_at [of j] False, of t Test]) (auto simp: in_lock_def)
    qed
  next
    case (w_take i)
    show ?thesis
    proof (cases "j = i")
      case True
      show ?thesis unfolding True
        by (rule own_thread_inv [OF inv_at [of i], of t Idle])
          (use w_take at [of i] assms(2) in \<open>auto simp: in_lock_def waiting_def\<close>)
    next
      case False
      then show ?thesis using w_take at(1) [of i] at(1) [of j]
        by (intro other_thread_inv [OF inv_at [of j] False, of t Idle]) (auto simp: in_lock_def)
    qed
  next
    case (w_prepare i)
    show ?thesis
    proof (cases "j = i")
      case True
      show ?thesis unfolding True
        by (rule own_thread_inv [OF inv_at [of i], of t Prepared])
          (use w_prepare at [of i] assms(2) in \<open>auto simp: in_lock_def waiting_def\<close>)
    next
      case False
      then show ?thesis using w_prepare at(1) [of i] at(1) [of j]
        by (intro other_thread_inv [OF inv_at [of j] False, of t Prepared]) (auto simp: in_lock_def)
    qed
  next
    case (w_release i)
    show ?thesis
    proof (cases "j = i")
      case True
      show ?thesis unfolding True
        by (rule own_thread_inv [OF inv_at [of i], of t Unlocked])
          (use w_release at [of i] assms(2) in \<open>auto simp: in_lock_def waiting_def\<close>)
    next
      case False
      then show ?thesis using w_release at(1) [of i] at(1) [of j]
        by (intro other_thread_inv [OF inv_at [of j] False, of t Unlocked]) (auto simp: in_lock_def)
    qed
  next
    case (w_sleep i)
    show ?thesis
    proof (cases "j = i")
      case True
      show ?thesis unfolding True
        by (rule own_thread_inv [OF inv_at [of i], of t Asleep])
          (use w_sleep at [of i] assms(2) in \<open>auto simp: in_lock_def waiting_def\<close>)
    next
      case False
      then show ?thesis using w_sleep at(1) [of i] at(1) [of j]
        by (intro other_thread_inv [OF inv_at [of j] False, of t Asleep]) (auto simp: in_lock_def)
    qed
  next
    case (w_no_sleep i)
    show ?thesis
    proof (cases "j = i")
      case True
      show ?thesis unfolding True
        by (rule own_thread_inv [OF inv_at [of i], of t Idle])
          (use w_no_sleep at [of i] assms(2) in \<open>auto simp: in_lock_def waiting_def\<close>)
    next
      case False
      then show ?thesis using w_no_sleep at(1) [of i] at(1) [of j]
        by (intro other_thread_inv [OF inv_at [of j] False, of t Idle]) (auto simp: in_lock_def)
    qed
  next
    case (w_resume i)
    show ?thesis
    proof (cases "j = i")
      case True
      show ?thesis unfolding True
        by (rule own_thread_inv [OF inv_at [of i], of t Idle])
          (use w_resume at [of i] assms(2) in \<open>auto simp: in_lock_def waiting_def\<close>)
    next
      case False
      then show ?thesis using w_resume at(1) [of i] at(1) [of j]
        by (intro other_thread_inv [OF inv_at [of j] False, of t Idle]) (auto simp: in_lock_def)
    qed
  next
    case (k_acquire i)
    show ?thesis
    proof (cases "j = i")
      case True
      show ?thesis unfolding True
        by (rule own_thread_inv [OF inv_at [of i], of t KLocked])
          (use k_acquire at [of i] assms(2) in \<open>auto simp: in_lock_def waiting_def\<close>)
    next
      case False
      then show ?thesis using k_acquire at(1) [of i] at(1) [of j]
        by (intro other_thread_inv [OF inv_at [of j] False, of t KLocked]) (auto simp: in_lock_def)
    qed
  next
    case (k_set i)
    show ?thesis
    proof (cases "j = i")
      case True
      show ?thesis unfolding True
        by (rule own_thread_inv [OF inv_at [of i], of t KSet])
          (use k_set at [of i] assms(2) in \<open>auto simp: in_lock_def waiting_def\<close>)
    next
      case False
      then show ?thesis using k_set at(1) [of i] at(1) [of j]
        by (intro other_thread_inv [OF inv_at [of j] False, of t KSet]) (auto simp: in_lock_def)
    qed
  next
    case (k_release i)
    show ?thesis
    proof (cases "j = i")
      case True
      show ?thesis unfolding True
        by (rule own_thread_inv [OF inv_at [of i], of t Idle])
          (use k_release at [of i] assms(2) in \<open>auto simp: in_lock_def waiting_def\<close>)
    next
      case False
      then show ?thesis using k_release at(1) [of i] at(1) [of j]
        by (intro other_thread_inv [OF inv_at [of j] False, of t Idle]) (auto simp: in_lock_def)
    qed
  qed
qed

lemma sync_reach_inv: "sync_reach c s \<Longrightarrow> c \<noteq> NoChan \<Longrightarrow> sync_inv c s"
  by (induction rule: sync_reach.induct) (auto intro: sync_inv_init sync_step_inv)


text \<open>A run in which thread 1 goes to sleep and thread 2 signals.\<close>

definition sync0 :: sync where
  "sync0 = \<lparr>tab = (\<lambda>_. proc0), holder = None, cnd = False, tpcs = (\<lambda>_. Idle)\<rparr>"
definition sync1 :: sync where "sync1 = sync0\<lparr>holder := Some 1, tpcs := (tpcs sync0)(1 := Test)\<rparr>"
definition sync2 :: sync where
  "sync2 = sync1\<lparr>tab := (tab sync1)(1 := (tab sync1 1)\<lparr>p_chan := ChLog\<rparr>), tpcs := (tpcs sync1)(1 := Prepared)\<rparr>"
definition sync3 :: sync where "sync3 = sync2\<lparr>holder := None, tpcs := (tpcs sync2)(1 := Unlocked)\<rparr>"
definition sync4 :: sync where
  "sync4 = sync3\<lparr>tab := (tab sync3)(1 := (tab sync3 1)\<lparr>p_state := SLEEPING\<rparr>), tpcs := (tpcs sync3)(1 := Asleep)\<rparr>"
definition sync5 :: sync where "sync5 = sync4\<lparr>holder := Some 2, tpcs := (tpcs sync4)(2 := KLocked)\<rparr>"
definition sync6 :: sync where "sync6 = sync5\<lparr>cnd := True, tpcs := (tpcs sync5)(2 := KSet)\<rparr>"
definition sync7 :: sync where "sync7 = sync6\<lparr>tab := wakeup_tab ChLog (tab sync6), tpcs := (tpcs sync6)(2 := KWoken)\<rparr>"
definition sync8 :: sync where "sync8 = sync7\<lparr>holder := None, tpcs := (tpcs sync7)(2 := Idle)\<rparr>"

lemmas sync_demo_defs = sync0_def sync1_def sync2_def sync3_def sync4_def sync5_def sync6_def sync7_def
  sync8_def

lemma sync_demo_reach: "sync_reach ChLog sync8"
proof -
  have "sync_reach ChLog sync0"
    by (rule sync_reach.start) (simp add: sync_init_def sync0_def proc0_def)
  moreover have "sync_step ChLog sync0 sync1"
    unfolding sync1_def by (rule w_acquire) (simp_all add: sync0_def NPROC_def)
  moreover have "sync_step ChLog sync1 sync2"
    unfolding sync2_def by (rule w_prepare) (simp_all add: sync_demo_defs)
  moreover have "sync_step ChLog sync2 sync3"
    unfolding sync3_def by (rule w_release) (simp_all add: sync_demo_defs)
  moreover have "sync_step ChLog sync3 sync4"
    unfolding sync4_def by (rule w_sleep) (simp_all add: sync_demo_defs)
  moreover have "sync_step ChLog sync4 sync5"
    unfolding sync5_def by (rule k_acquire) (simp_all add: sync_demo_defs)
  moreover have "sync_step ChLog sync5 sync6"
    unfolding sync6_def by (rule k_set) (simp_all add: sync_demo_defs)
  moreover have "sync_step ChLog sync6 sync7"
    unfolding sync7_def by (rule k_wakeup) (simp_all add: sync_demo_defs)
  moreover have "sync_step ChLog sync7 sync8"
    unfolding sync8_def by (rule k_release) (simp_all add: sync_demo_defs)
  ultimately show ?thesis by (meson sync_reach.step)
qed


subsection \<open>Kill\<close>

definition kill1 :: "proc \<Rightarrow> proc" where
  "kill1 p = p\<lparr>p_killed := True, p_state := if p_state p = SLEEPING then RUNNABLE else p_state p\<rparr>"

lemma kkill_loop_eq:
  "kkill_loop pid is s =
     (case find (\<lambda>i. p_pid (procs s i) = pid) is of
        None \<Rightarrow> Ok (- 1) s
      | Some i \<Rightarrow> Ok 0 (s\<lparr>procs := (procs s)(i := kill1 (procs s i))\<rparr>))"
  by (induction "is") (simp_all add: monad_defs get_proc_def upd_proc_def kill1_def)

text \<open>C17 \<^verbatim>\<open>kkill\<close> marks the first process with the given pid as killed, wakes it when it sleeps, and
  changes nothing else; with no such process it returns -1 and changes nothing.\<close>

theorem kkill_exact:
  "(\<exists>i<NPROC. p_pid (procs s i) = pid \<and> (\<forall>j<i. p_pid (procs s j) \<noteq> pid)
     \<and> kkill pid s = Ok 0 (s\<lparr>procs := (procs s)(i := (procs s i)\<lparr>p_killed := True,
          p_state := if p_state (procs s i) = SLEEPING then RUNNABLE else p_state (procs s i)\<rparr>)\<rparr>))
   \<or> (\<forall>i<NPROC. p_pid (procs s i) \<noteq> pid) \<and> kkill pid s = Ok (- 1) s"
proof (cases "find (\<lambda>i. p_pid (procs s i) = pid) [0..<NPROC]")
  case None
  then have "kkill pid s = Ok (- 1) s" by (simp add: kkill_def kkill_loop_eq)
  then show ?thesis using None by (simp add: find_None_iff)
next
  case (Some i)
  then obtain k where "k < length [0..<NPROC]" "p_pid (procs s ([0..<NPROC] ! k)) = pid"
    "i = [0..<NPROC] ! k" "\<And>j. j < k \<Longrightarrow> p_pid (procs s ([0..<NPROC] ! j)) \<noteq> pid"
    unfolding find_Some_iff by blast
  then have i: "i < NPROC" "p_pid (procs s i) = pid" "\<And>j. j < i \<Longrightarrow> p_pid (procs s j) \<noteq> pid" by simp_all
  have "kkill pid s = Ok 0 (s\<lparr>procs := (procs s)(i := kill1 (procs s i))\<rparr>)"
    using Some by (simp add: kkill_def kkill_loop_eq)
  then show ?thesis unfolding kill1_def using i by blast
qed

theorem kkill_exact_witness: "\<exists>t. kkill 6 procs_demo = Ok 0 t \<and> p_state (procs t 2) = RUNNABLE"
proof -
  have "p_pid (procs procs_demo 2) = 6" "2 < NPROC" by (simp_all add: procs_demo_def NPROC_def)
  then have "\<exists>i<NPROC. p_pid (procs procs_demo i) = 6 \<and> kkill 6 procs_demo =
      Ok 0 (procs_demo\<lparr>procs := (procs procs_demo)(i := (procs procs_demo i)\<lparr>p_killed := True,
        p_state := if p_state (procs procs_demo i) = SLEEPING then RUNNABLE
          else p_state (procs procs_demo i)\<rparr>)\<rparr>)"
    using kkill_exact [of procs_demo 6] by blast
  then obtain i where i: "p_pid (procs procs_demo i) = 6" "kkill 6 procs_demo =
      Ok 0 (procs_demo\<lparr>procs := (procs procs_demo)(i := (procs procs_demo i)\<lparr>p_killed := True,
        p_state := if p_state (procs procs_demo i) = SLEEPING then RUNNABLE
          else p_state (procs procs_demo i)\<rparr>)\<rparr>)" by blast
  moreover have "i = 2" using i(1) by (simp add: procs_demo_def proc0_def split: if_splits)
  ultimately show ?thesis by (auto simp: procs_demo_def)
qed

subsection \<open>Allocation keeps the kill mark\<close>

lemma keeps_procs [keep]: "keeps kernel_rest m \<Longrightarrow> keeps procs m"
proof -
  assume m: "keeps kernel_rest m"
  have "procs t = procs s" if "kernel.more t = kernel.more s" for s t :: "'a pkernel_scheme"
    using that by (cases s; cases t) simp
  then show ?thesis using m unfolding keeps_def by blast
qed

lemma keeps_proc_pagetable [keep]: "keeps procs (proc_pagetable i)"
  unfolding proc_pagetable_def get_proc_def by (intro keep)

lemma allocproc_killed:
  assumes "allocproc s = Ok (Some k) u"
  shows "find_unused (procs s) [0..<NPROC] = Some k \<and> p_killed (procs u k) = p_killed (procs s k)"
proof -
  obtain i where i: "find_unused (procs s) [0..<NPROC] = Some i"
    using assms by (auto simp: allocproc_def monad_defs split: option.splits)
  obtain x t xa ta where k: "k = i"
    and ka: "kalloc (s\<lparr>nextpid := nextpid s + 1,
      procs := (procs s)(i := (procs s i)\<lparr>p_pid := nextpid s, p_state := USED\<rparr>)\<rparr>) = Ok x t"
    and pp: "proc_pagetable i (t\<lparr>procs := (procs t)(i := (procs t i)\<lparr>p_trapframe := x\<rparr>)\<rparr>) = Ok xa ta"
    and u: "u = ta\<lparr>procs := (procs ta)(i := (procs ta i)\<lparr>p_pagetable := xa, p_context :=
      \<lparr>ctx_ra = sym_forkret ta, ctx_sp = p_kstack (procs ta i) + PGSIZE, ctx_s = replicate 12 0\<rparr>\<rparr>)\<rparr>"
    using assms i unfolding allocproc_def
    by (auto simp: bnd_eq_Ok_iff allocpid_def gets_def upd_def ret_def upd_proc_def split: if_splits)
  have "keeps procs (kalloc :: ('a pkernel_scheme, addr) kM)" by (intro keep)
  from keepsD [OF this ka] keepsD [OF keeps_proc_pagetable pp] k i u show ?thesis by simp
qed

lemma find_unused_first:
  assumes "p_state (ps i) = UNUSED" and "\<And>j. j < i \<Longrightarrow> p_state (ps j) \<noteq> UNUSED" and "i < n"
  shows "find_unused ps [0..<n] = Some i"
proof -
  have skip: "find_unused ps (xs @ ys) = find_unused ps ys" if "\<And>j. j \<in> set xs \<Longrightarrow> p_state (ps j) \<noteq> UNUSED" for xs ys
    using that by (induction xs) auto
  have "[0..<n] = [0..<i] @ i # [Suc i..<n]"
    using assms(3) upt_add_eq_append [of 0 i "n - i"] by (simp add: upt_conv_Cons)
  moreover have "find_unused ps ([0..<i] @ i # [Suc i..<n]) = Some i"
    using assms(1,2) by (subst skip) simp_all
  ultimately show ?thesis by simp
qed



subsection \<open>The scheduler is fair\<close>

lemma scheduler_pass_runs:
  assumes run: "\<And>i s x t j. run i s = Ok x t \<Longrightarrow> j \<noteq> i \<Longrightarrow> p_state (procs s j) = RUNNABLE \<Longrightarrow>
      p_state (procs t j) = RUNNABLE"
    and "scheduler_pass run is s = Ok rs t" and "distinct is"
  shows "distinct rs \<and> set rs \<subseteq> set is \<and> (\<forall>i\<in>set is. p_state (procs s i) = RUNNABLE \<longrightarrow> i \<in> set rs)"
  using assms(2,3)
proof (induction "is" arbitrary: s rs)
  case (Cons i "is")
  show ?case
  proof (cases "p_state (procs s i) = RUNNABLE")
    case True
    let ?s = "s\<lparr>procs := (procs s)(i := (procs s i)\<lparr>p_state := RUNNING\<rparr>), cur := Some i\<rparr>"
    obtain x u rs' where r: "run i ?s = Ok x u" and p: "scheduler_pass run is (u\<lparr>cur := None\<rparr>) = Ok rs' t"
      and rs: "rs = i # rs'"
      using Cons.prems(1) True
      by (auto simp: bnd_eq_Ok_iff get_proc_def gets_def upd_proc_def upd_def ret_def)
    have "p_state (procs (u\<lparr>cur := None\<rparr>) j) = RUNNABLE" if "j \<in> set is" "p_state (procs s j) = RUNNABLE" for j
      using run [OF r, of j] that Cons.prems(2) by auto
    then show ?thesis using Cons.IH [OF p] Cons.prems(2) rs by auto
  next
    case False
    then have "scheduler_pass run is s = Ok rs t"
      using Cons.prems(1) by (simp add: bnd_def get_proc_def gets_def)
    then show ?thesis using Cons.IH [of s rs] Cons.prems(2) False by auto
  qed
qed (auto simp: ret_def)


definition run_demo :: "nat \<Rightarrow> (pkernel, unit) kM" where
  "run_demo i = upd_proc i (\<lambda>p. p\<lparr>p_state := RUNNABLE\<rparr>)"

lemma scheduler_pass_demo:
  "\<exists>rs t. scheduler_pass run_demo is s = Ok rs t"
  by (induction "is" arbitrary: s)
    (auto simp: monad_defs get_proc_def upd_proc_def run_demo_def split: res.splits, (metis res.distinct res.inject)+)


subsection \<open>The size of a process\<close>

lemma uvmalloc_loop_result:
  "uvmalloc_loop k pt a o' n x s = Ok r t \<Longrightarrow> r = 0 \<or> r = n"
  by (induction k arbitrary: a s) (auto simp: bnd_eq_Ok_iff ret_def hang_def split: if_splits)

lemma uvmalloc_result: "uvmalloc pt a n x s = Ok r t \<Longrightarrow> r = 0 \<or> r = n \<or> n < a \<and> r = a"
  using uvmalloc_loop_result [of vm_fuel pt "PGROUNDUP a" "PGROUNDUP a" n x s r t]
  by (auto simp: uvmalloc_def ret_def split: if_splits)

lemma uvmdealloc_result: "uvmdealloc pt a n s = Ok r t \<Longrightarrow> r \<le> a"
  by (auto simp: uvmdealloc_def bnd_eq_Ok_iff ret_def split: if_splits)

text \<open>C20 Whatever \<^verbatim>\<open>growproc\<close> is asked for, also a request that overflows, the memory of the
  process stays below the trapframe page; when it fails the size is unchanged.\<close>

theorem growproc_bounded:
  assumes "growproc n s = Ok r t" and "cur s = Some p" and "p_sz (procs s p) \<le> TRAPFRAME"
  shows "p_sz (procs t p) \<le> TRAPFRAME \<and> (r = - 1 \<longrightarrow> p_sz (procs t p) = p_sz (procs s p)) \<and> (r = 0 \<or> r = - 1)"
proof -
  let ?sz = "p_sz (procs s p)" and ?pt = "p_pagetable (procs s p)"
  have ka: "keeps procs (uvmalloc ?pt ?sz (?sz + of_int n) PTE_W :: ('a pkernel_scheme, u64) kM)"
    by (intro keep)
  note run = assms(1) [unfolded growproc_def the_proc_def myproc_def get_proc_def upd_proc_def]
  consider "n > 0" | "n < 0" | "n = 0" by linarith
  then show ?thesis
  proof cases
    case 1
    show ?thesis
    proof (cases "?sz + of_int n > TRAPFRAME")
      case True
      then show ?thesis using run 1 assms(2,3) by (simp add: monad_defs)
    next
      case False
      obtain sz' u where u: "uvmalloc ?pt ?sz (?sz + of_int n) PTE_W s = Ok sz' u"
        and e: "sz' = 0 \<and> r = - 1 \<and> t = u \<or>
          sz' \<noteq> 0 \<and> r = 0 \<and> t = u\<lparr>procs := (procs u)(p := (procs u p)\<lparr>p_sz := sz'\<rparr>)\<rparr>"
        using run 1 False assms(2)
        by (auto simp: bnd_eq_Ok_iff gets_def upd_def ret_def split: if_splits)
      have "procs u = procs s" by (rule keepsD [OF ka u])
      moreover have "sz' \<noteq> 0 \<Longrightarrow> sz' \<le> TRAPFRAME" using uvmalloc_result [OF u] False assms(3) by auto
      ultimately show ?thesis using e assms(3) by auto
    qed
  next
    case 2
    obtain sz' u where u: "uvmdealloc ?pt ?sz (?sz + of_int n) s = Ok sz' u"
      and e: "r = 0" "t = u\<lparr>procs := (procs u)(p := (procs u p)\<lparr>p_sz := sz'\<rparr>)\<rparr>"
      using run 2 assms(2) by (auto simp: bnd_eq_Ok_iff gets_def upd_def ret_def)
    then show ?thesis using uvmdealloc_result [OF u] assms(3) by auto
  next
    case 3
    then show ?thesis using run assms(2,3) by (simp add: monad_defs)
  qed
qed

theorem growproc_bounded_witness:
  "\<exists>t. growproc 2147483647000000 procs_demo = Ok (- 1) t \<and> p_sz (procs t 3) \<le> TRAPFRAME"
proof -
  have r: "growproc 2147483647000000 procs_demo = Ok (- 1) procs_demo"
    by (simp add: growproc_def the_proc_def myproc_def get_proc_def monad_defs procs_demo_def layout_defs)
  moreover have "p_sz (procs procs_demo 3) \<le> TRAPFRAME" by (simp add: procs_demo_def layout_defs)
  ultimately show ?thesis
    using growproc_bounded [OF r, of 3] by (auto simp: procs_demo_def)
qed

end
