(* ===== verification/Bytes.thy ===== *)
theory Bytes
  imports Xv6_Prelude
begin

text \<open>
  Little-endian 16- and 32-bit fields in the bytes of a disk block, the layout in which the
  on-disk structures of \<^verbatim>\<open>kernel/fs.h\<close> and the log header of \<^verbatim>\<open>kernel/log.c\<close> are stored, and the
  replacement of a part of a byte array.
\<close>

type_synonym block = "u8 list"

text \<open>\<^verbatim>\<open>memmove(dst + off, bs, n)\<close> into a byte array.\<close>

definition splice :: "u8 list \<Rightarrow> nat \<Rightarrow> u8 list \<Rightarrow> u8 list" where
  "splice xs off bs = take off xs @ bs @ drop (off + length bs) xs"

definition slice :: "u8 list \<Rightarrow> nat \<Rightarrow> nat \<Rightarrow> u8 list" where
  "slice xs off n = take n (drop off xs)"

definition le16 :: "u16 \<Rightarrow> u8 list" where
  "le16 v = [ucast v, ucast (drop_bit 8 v)]"

definition le32 :: "u32 \<Rightarrow> u8 list" where
  "le32 v = [ucast v, ucast (drop_bit 8 v), ucast (drop_bit 16 v), ucast (drop_bit 24 v)]"

definition le64 :: "u64 \<Rightarrow> u8 list" where
  "le64 v = map (\<lambda>i. byte_of v i) [0..<8]"

definition un16 :: "u8 list \<Rightarrow> u16" where
  "un16 bs = ucast (bs ! 0) OR push_bit 8 (ucast (bs ! 1))"

definition un32 :: "u8 list \<Rightarrow> u32" where
  "un32 bs = ucast (bs ! 0) OR push_bit 8 (ucast (bs ! 1)) OR push_bit 16 (ucast (bs ! 2))
     OR push_bit 24 (ucast (bs ! 3))"

definition un64 :: "u8 list \<Rightarrow> u64" where
  "un64 bs = ld64 (\<lambda>a. bs ! unat a) 0"

definition rd16 :: "u8 list \<Rightarrow> nat \<Rightarrow> u16" where
  "rd16 xs off = un16 (slice xs off 2)"

definition rd32 :: "u8 list \<Rightarrow> nat \<Rightarrow> u32" where
  "rd32 xs off = un32 (slice xs off 4)"

definition rd64 :: "u8 list \<Rightarrow> nat \<Rightarrow> u64" where
  "rd64 xs off = un64 (slice xs off 8)"

definition wr16 :: "u8 list \<Rightarrow> nat \<Rightarrow> u16 \<Rightarrow> u8 list" where
  "wr16 xs off v = splice xs off (le16 v)"

definition wr32 :: "u8 list \<Rightarrow> nat \<Rightarrow> u32 \<Rightarrow> u8 list" where
  "wr32 xs off v = splice xs off (le32 v)"

subsection \<open>Replacing a part of an array\<close>

lemma length_splice [simp]: "off + length bs \<le> length xs \<Longrightarrow> length (splice xs off bs) = length xs"
  by (simp add: splice_def)

lemma length_slice [simp]: "off + n \<le> length xs \<Longrightarrow> length (slice xs off n) = n"
  by (simp add: slice_def)

lemma slice_splice_same [simp]:
  "off + length bs \<le> length xs \<Longrightarrow> n = length bs \<Longrightarrow> slice (splice xs off bs) off n = bs"
  by (simp add: slice_def splice_def)

lemma nth_splice:
  "off + length bs \<le> length xs \<Longrightarrow> i < length xs \<Longrightarrow>
   splice xs off bs ! i = (if off \<le> i \<and> i < off + length bs then bs ! (i - off) else xs ! i)"
  by (auto simp: splice_def nth_append)

lemma nth_slice: "off + n \<le> length xs \<Longrightarrow> i < n \<Longrightarrow> slice xs off n ! i = xs ! (off + i)"
  by (simp add: slice_def)

lemma slice_splice_other:
  assumes "off + length bs \<le> length xs" "o' + n \<le> length xs" "o' + n \<le> off \<or> off + length bs \<le> o'"
  shows "slice (splice xs off bs) o' n = slice xs o' n"
proof (rule nth_equalityI)
  fix i
  assume "i < length (slice (splice xs off bs) o' n)"
  then have i: "i < n" using assms by simp
  then have "slice (splice xs off bs) o' n ! i = splice xs off bs ! (o' + i)"
    using assms by (intro nth_slice) simp_all
  also have "\<dots> = xs ! (o' + i)"
    using assms i nth_splice [of off bs xs "o' + i"] by auto
  also have "\<dots> = slice xs o' n ! i" using assms i by (simp add: nth_slice)
  finally show "slice (splice xs off bs) o' n ! i = slice xs o' n ! i" .
qed (use assms in simp)

subsection \<open>Fields\<close>

lemma length_le [simp]: "length (le16 v) = 2" "length (le32 w) = 4" "length (le64 x) = 8"
  by (simp_all add: le16_def le32_def le64_def)

lemma un16_le16 [simp]: "un16 (le16 v) = v"
proof (rule bit_word_eqI)
  fix n :: nat
  assume "n < LENGTH(16)"
  then consider "n < 8" | "8 \<le> n" "n < 16" by fastforce
  then show "bit (un16 (le16 v)) n = bit v n"
    by cases (simp_all add: un16_def le16_def bit_simps less_diff_conv2)
qed

lemma un32_le32 [simp]: "un32 (le32 v) = v"
proof (rule bit_word_eqI)
  fix n :: nat
  assume "n < LENGTH(32)"
  then consider "n < 8" | "8 \<le> n" "n < 16" | "16 \<le> n" "n < 24" | "24 \<le> n" "n < 32" by fastforce
  then show "bit (un32 (le32 v)) n = bit v n"
    by cases (simp_all add: un32_def le32_def bit_simps less_diff_conv2 numeral_2_eq_2 numeral_3_eq_3)
qed

lemma rd32_wr32_same [simp]: "off + 4 \<le> length xs \<Longrightarrow> rd32 (wr32 xs off v) off = v"
  by (simp add: rd32_def wr32_def)

lemma rd32_wr32_other:
  "off + 4 \<le> length xs \<Longrightarrow> o' + 4 \<le> length xs \<Longrightarrow> o' + 4 \<le> off \<or> off + 4 \<le> o' \<Longrightarrow>
   rd32 (wr32 xs off v) o' = rd32 xs o'"
  by (simp add: rd32_def wr32_def slice_splice_other)

lemma length_wr [simp]:
  "off + 4 \<le> length xs \<Longrightarrow> length (wr32 xs off v) = length xs"
  "off + 2 \<le> length xs \<Longrightarrow> length (wr16 xs off w) = length xs"
  by (simp_all add: wr32_def wr16_def)

lemma rd16_wr16_same [simp]: "off + 2 \<le> length xs \<Longrightarrow> rd16 (wr16 xs off v) off = v"
  by (simp add: rd16_def wr16_def)

end
