(* ===== verification/Bio.thy ===== *)
theory Bio
  imports Proc_Base Bytes
begin

text \<open>
  Sleep locks (\<^verbatim>\<open>kernel/sleeplock.c\<close>) and the buffer cache (\<^verbatim>\<open>kernel/bio.c\<close>).  The buffers and
  the list head form a doubly linked list through \<open>b_prev\<close> and \<open>b_next\<close>, most recently used
  first, as in the code; a buffer is its index, and the list head is the index \<open>NBUF\<close>.

  The disk is a map from block numbers to the bytes of a block.  \<open>disk_rw\<close> is what
  \<^verbatim>\<open>virtio_disk_rw\<close> has done when it returns, the device having served the request: a block has
  moved between the buffer and the disk.  \<open>dtrace\<close> records the writes in the order in which the
  device performed them, so that a crash leaves the disk with a prefix of them.
\<close>

definition BSIZE :: nat where "BSIZE = 1024"

record sleeplock =
  sl_locked :: bool
  sl_pid :: u32

record buf =
  b_valid :: bool
  b_disk :: bool
  b_dev :: u32
  b_blockno :: u32
  b_lock :: sleeplock
  b_refcnt :: u32
  b_prev :: nat
  b_next :: nat
  b_data :: block

record bkernel = pkernel +
  disk :: "u32 \<Rightarrow> block"
  dtrace :: "(u32 \<times> block) list"
  bufs :: "nat \<Rightarrow> buf"

abbreviation BHEAD :: nat where "BHEAD \<equiv> NBUF"

subsection \<open>Sleep locks\<close>

definition initsleeplock :: sleeplock where
  "initsleeplock = \<lparr>sl_locked = False, sl_pid = 0\<rparr>"

text \<open>A sleep lock is part of the object that it protects; \<open>getl\<close> and \<open>setl\<close> read and write it, and
  \<open>chan\<close> is its address.\<close>

definition acquiresleep :: "('z pkernel_scheme \<Rightarrow> sleeplock) \<Rightarrow>
    ((sleeplock \<Rightarrow> sleeplock) \<Rightarrow> 'z pkernel_scheme \<Rightarrow> 'z pkernel_scheme) \<Rightarrow> wchan \<Rightarrow>
    ('z pkernel_scheme, unit) kM" where
  "acquiresleep getl setl chan =
     bnd (gets (\<lambda>s. sl_locked (getl s))) (\<lambda>held.
     if held then sleep_retry chan
     else
       bnd the_proc (\<lambda>p.
       bnd (get_proc p p_pid) (\<lambda>pid.
       upd (setl (\<lambda>l. l\<lparr>sl_locked := True, sl_pid := pid\<rparr>)))))"

definition releasesleep :: "((sleeplock \<Rightarrow> sleeplock) \<Rightarrow> 'z pkernel_scheme \<Rightarrow> 'z pkernel_scheme) \<Rightarrow>
    wchan \<Rightarrow> ('z pkernel_scheme, unit) kM" where
  "releasesleep setl chan =
     bnd (upd (setl (\<lambda>l. l\<lparr>sl_locked := False, sl_pid := 0\<rparr>))) (\<lambda>_. wakeup chan)"

definition holdingsleep :: "('z pkernel_scheme \<Rightarrow> sleeplock) \<Rightarrow> ('z pkernel_scheme, bool) kM" where
  "holdingsleep getl =
     bnd (gets getl) (\<lambda>l.
     if sl_locked l then
       bnd the_proc (\<lambda>p. bnd (get_proc p p_pid) (\<lambda>pid. ret (sl_pid l = pid)))
     else ret False)"

subsection \<open>Buffers\<close>

definition get_buf :: "nat \<Rightarrow> (buf \<Rightarrow> 'a) \<Rightarrow> ('z bkernel_scheme, 'a) kM" where
  "get_buf i f = gets (\<lambda>s. f (bufs s i))"

definition upd_buf :: "nat \<Rightarrow> (buf \<Rightarrow> buf) \<Rightarrow> ('z bkernel_scheme, unit) kM" where
  "upd_buf i f = upd (\<lambda>s. s\<lparr>bufs := (bufs s)(i := f (bufs s i))\<rparr>)"

definition buf_lock :: "nat \<Rightarrow> 'z bkernel_scheme \<Rightarrow> sleeplock" where
  "buf_lock i s = b_lock (bufs s i)"

definition set_buf_lock :: "nat \<Rightarrow> (sleeplock \<Rightarrow> sleeplock) \<Rightarrow> 'z bkernel_scheme \<Rightarrow> 'z bkernel_scheme" where
  "set_buf_lock i f s = s\<lparr>bufs := (bufs s)(i := (bufs s i)\<lparr>b_lock := f (b_lock (bufs s i))\<rparr>)\<rparr>"

definition disk_rw :: "nat \<Rightarrow> bool \<Rightarrow> ('z bkernel_scheme, unit) kM" where
  "disk_rw i wr =
     upd (\<lambda>s. let b = bufs s i in
       if wr then s\<lparr>disk := (disk s)(b_blockno b := b_data b), dtrace := dtrace s @ [(b_blockno b, b_data b)]\<rparr>
       else s\<lparr>bufs := (bufs s)(i := b\<lparr>b_data := disk s (b_blockno b)\<rparr>)\<rparr>)"

definition binit :: "('z bkernel_scheme, unit) kM" where
  "binit =
     bnd (upd_buf BHEAD (\<lambda>h. h\<lparr>b_prev := BHEAD\<rparr>)) (\<lambda>_.
     bnd (upd_buf BHEAD (\<lambda>h. h\<lparr>b_next := BHEAD\<rparr>)) (\<lambda>_.
     forM [0..<NBUF] (\<lambda>i.
       bnd (get_buf BHEAD b_next) (\<lambda>n.
       bnd (upd_buf i (\<lambda>b. b\<lparr>b_next := n\<rparr>)) (\<lambda>_.
       bnd (upd_buf i (\<lambda>b. b\<lparr>b_prev := BHEAD\<rparr>)) (\<lambda>_.
       bnd (upd_buf i (\<lambda>b. b\<lparr>b_lock := initsleeplock\<rparr>)) (\<lambda>_.
       bnd (get_buf BHEAD b_next) (\<lambda>n2.
       bnd (upd_buf n2 (\<lambda>b. b\<lparr>b_prev := i\<rparr>)) (\<lambda>_.
       upd_buf BHEAD (\<lambda>h. h\<lparr>b_next := i\<rparr>))))))))))"

text \<open>The two searches of \<^verbatim>\<open>bget\<close> along the list; a list that does not come back to its head within
  \<open>NBUF + 1\<close> nodes has a cycle without the head and the loop never ends.\<close>

fun scan_next :: "nat \<Rightarrow> (nat \<Rightarrow> buf) \<Rightarrow> (buf \<Rightarrow> bool) \<Rightarrow> nat \<Rightarrow> ('z, nat option) kM" where
  "scan_next 0 B P b = hang"
| "scan_next (Suc k) B P b =
     (if b = BHEAD then ret None
      else if P (B b) then ret (Some b)
      else scan_next k B P (b_next (B b)))"

fun scan_prev :: "nat \<Rightarrow> (nat \<Rightarrow> buf) \<Rightarrow> (buf \<Rightarrow> bool) \<Rightarrow> nat \<Rightarrow> ('z, nat option) kM" where
  "scan_prev 0 B P b = hang"
| "scan_prev (Suc k) B P b =
     (if b = BHEAD then ret None
      else if P (B b) then ret (Some b)
      else scan_prev k B P (b_prev (B b)))"

definition bget :: "u32 \<Rightarrow> u32 \<Rightarrow> ('z bkernel_scheme, nat) kM" where
  "bget dev blockno =
     bnd (gets bufs) (\<lambda>B.
     bnd (scan_next (NBUF + 1) B (\<lambda>b. b_dev b = dev \<and> b_blockno b = blockno) (b_next (B BHEAD))) (\<lambda>hit.
     case hit of
       Some b \<Rightarrow>
         bnd (upd_buf b (\<lambda>x. x\<lparr>b_refcnt := b_refcnt x + 1\<rparr>)) (\<lambda>_.
         bnd (acquiresleep (buf_lock b) (set_buf_lock b) (ChBufLock b)) (\<lambda>_.
         ret b))
     | None \<Rightarrow>
         bnd (scan_prev (NBUF + 1) B (\<lambda>b. b_refcnt b = 0) (b_prev (B BHEAD))) (\<lambda>lru.
         case lru of
           Some b \<Rightarrow>
             bnd (upd_buf b (\<lambda>x. x\<lparr>b_dev := dev, b_blockno := blockno, b_valid := False, b_refcnt := 1\<rparr>)) (\<lambda>_.
             bnd (acquiresleep (buf_lock b) (set_buf_lock b) (ChBufLock b)) (\<lambda>_.
             ret b))
         | None \<Rightarrow> panic ''bget: no buffers'')))"

definition bread :: "u32 \<Rightarrow> u32 \<Rightarrow> ('z bkernel_scheme, nat) kM" where
  "bread dev blockno =
     bnd (bget dev blockno) (\<lambda>b.
     bnd (get_buf b b_valid) (\<lambda>v.
     bnd (whenM (\<not> v) (bnd (disk_rw b False) (\<lambda>_. upd_buf b (\<lambda>x. x\<lparr>b_valid := True\<rparr>)))) (\<lambda>_.
     ret b)))"

definition bwrite :: "nat \<Rightarrow> ('z bkernel_scheme, unit) kM" where
  "bwrite b =
     bnd (holdingsleep (buf_lock b)) (\<lambda>h.
     if \<not> h then panic ''bwrite'' else disk_rw b True)"

definition brelse :: "nat \<Rightarrow> ('z bkernel_scheme, unit) kM" where
  "brelse b =
     bnd (holdingsleep (buf_lock b)) (\<lambda>h.
     if \<not> h then panic ''brelse''
     else
       bnd (releasesleep (set_buf_lock b) (ChBufLock b)) (\<lambda>_.
       bnd (upd_buf b (\<lambda>x. x\<lparr>b_refcnt := b_refcnt x - 1\<rparr>)) (\<lambda>_.
       bnd (get_buf b b_refcnt) (\<lambda>r.
       whenM (r = 0)
         (bnd (get_buf b b_next) (\<lambda>nx.
          bnd (get_buf b b_prev) (\<lambda>pv.
          bnd (upd_buf nx (\<lambda>x. x\<lparr>b_prev := pv\<rparr>)) (\<lambda>_.
          bnd (upd_buf pv (\<lambda>x. x\<lparr>b_next := nx\<rparr>)) (\<lambda>_.
          bnd (get_buf BHEAD b_next) (\<lambda>hn.
          bnd (upd_buf b (\<lambda>x. x\<lparr>b_next := hn\<rparr>)) (\<lambda>_.
          bnd (upd_buf b (\<lambda>x. x\<lparr>b_prev := BHEAD\<rparr>)) (\<lambda>_.
          bnd (get_buf BHEAD b_next) (\<lambda>hn2.
          bnd (upd_buf hn2 (\<lambda>x. x\<lparr>b_prev := b\<rparr>)) (\<lambda>_.
          upd_buf BHEAD (\<lambda>x. x\<lparr>b_next := b\<rparr>)))))))))))))))"

definition bpin :: "nat \<Rightarrow> ('z bkernel_scheme, unit) kM" where
  "bpin b = upd_buf b (\<lambda>x. x\<lparr>b_refcnt := b_refcnt x + 1\<rparr>)"

definition bunpin :: "nat \<Rightarrow> ('z bkernel_scheme, unit) kM" where
  "bunpin b = upd_buf b (\<lambda>x. x\<lparr>b_refcnt := b_refcnt x - 1\<rparr>)"

end
