(* ===== verification/Log.thy ===== *)
theory Log
  imports Bio
begin

text \<open>
  The write-ahead log, \<^verbatim>\<open>kernel/log.c\<close>.  The in-memory log header is \<open>lh_n\<close> with the block numbers
  \<open>lh_block\<close>; on disk the header is a block whose first 32-bit field is the count and whose further
  fields are the block numbers.  A store outside an array of the kernel is undefined behaviour in
  C; it is the outcome \<open>ub\<close> here, so that every theorem about a normal return also says that it
  does not happen.
\<close>

record log =
  l_start :: int
  l_outstanding :: int
  l_committing :: bool
  l_dev :: u32
  l_ncommit :: int
  lh_n :: int
  lh_block :: "u32 list"

record lkernel = bkernel +
  log :: log

definition ub :: "('s, 'a) kM" where
  "ub = panic ''undefined behaviour''"

definition get_log :: "(log \<Rightarrow> 'a) \<Rightarrow> ('z lkernel_scheme, 'a) kM" where
  "get_log f = gets (\<lambda>s. f (log s))"

definition upd_log :: "(log \<Rightarrow> log) \<Rightarrow> ('z lkernel_scheme, unit) kM" where
  "upd_log f = upd (\<lambda>s. s\<lparr>log := f (log s)\<rparr>)"

text \<open>\<^verbatim>\<open>log.lh.block[i] = v\<close>.\<close>

definition set_lh_block :: "nat \<Rightarrow> u32 \<Rightarrow> ('z lkernel_scheme, unit) kM" where
  "set_lh_block i v =
     bnd (get_log lh_block) (\<lambda>bl.
     if i < length bl then upd_log (\<lambda>l. l\<lparr>lh_block := (lh_block l)[i := v]\<rparr>) else ub)"

definition get_lh_block :: "nat \<Rightarrow> ('z lkernel_scheme, u32) kM" where
  "get_lh_block i = bnd (get_log lh_block) (\<lambda>bl. if i < length bl then ret (bl ! i) else ub)"

definition log_count :: "('z lkernel_scheme, nat) kM" where
  "log_count = bnd (get_log lh_n) (\<lambda>n. ret (nat n))"

text \<open>The block number \<^verbatim>\<open>log.start + k\<close>, converted to \<^verbatim>\<open>uint\<close> by the call.\<close>

definition log_blockno :: "nat \<Rightarrow> ('z lkernel_scheme, u32) kM" where
  "log_blockno k = bnd (get_log l_start) (\<lambda>st. ret (of_int (st + int k)))"

definition install_trans :: "bool \<Rightarrow> ('z lkernel_scheme, unit) kM" where
  "install_trans recovering =
     bnd log_count (\<lambda>n.
     forM [0..<n] (\<lambda>tail.
       bnd (get_lh_block tail) (\<lambda>dst.
       bnd (get_log l_dev) (\<lambda>dev.
       bnd (whenM recovering (printk_msg ''recovering tail %d dst %d'' [int tail, sint dst])) (\<lambda>_.
       bnd (log_blockno (tail + 1)) (\<lambda>src.
       bnd (bread dev src) (\<lambda>lbuf.
       bnd (bread dev dst) (\<lambda>dbuf.
       bnd (get_buf lbuf b_data) (\<lambda>d.
       bnd (upd_buf dbuf (\<lambda>b. b\<lparr>b_data := d\<rparr>)) (\<lambda>_.
       bnd (bwrite dbuf) (\<lambda>_.
       bnd (whenM (\<not> recovering) (bunpin dbuf)) (\<lambda>_.
       bnd (brelse lbuf) (\<lambda>_.
       brelse dbuf)))))))))))))"

definition read_head :: "('z lkernel_scheme, unit) kM" where
  "read_head =
     bnd (get_log l_dev) (\<lambda>dev.
     bnd (log_blockno 0) (\<lambda>hd_no.
     bnd (bread dev hd_no) (\<lambda>b.
     bnd (get_buf b b_data) (\<lambda>d.
     bnd (upd_log (\<lambda>l. l\<lparr>lh_n := sint (rd32 d 0)\<rparr>)) (\<lambda>_.
     bnd log_count (\<lambda>n.
     bnd (forM [0..<n] (\<lambda>i. set_lh_block i (rd32 d (4 + 4 * i)))) (\<lambda>_.
     brelse b)))))))"

definition write_head :: "('z lkernel_scheme, unit) kM" where
  "write_head =
     bnd (get_log l_dev) (\<lambda>dev.
     bnd (log_blockno 0) (\<lambda>hd_no.
     bnd (bread dev hd_no) (\<lambda>b.
     bnd (get_log lh_n) (\<lambda>n.
     bnd (upd_buf b (\<lambda>x. x\<lparr>b_data := wr32 (b_data x) 0 (of_int n)\<rparr>)) (\<lambda>_.
     bnd (forM [0..<nat n] (\<lambda>i.
       bnd (get_lh_block i) (\<lambda>v.
       upd_buf b (\<lambda>x. x\<lparr>b_data := wr32 (b_data x) (4 + 4 * i) v\<rparr>)))) (\<lambda>_.
     bnd (bwrite b) (\<lambda>_.
     brelse b)))))))"

definition recover_from_log :: "('z lkernel_scheme, unit) kM" where
  "recover_from_log =
     bnd read_head (\<lambda>_.
     bnd (install_trans True) (\<lambda>_.
     bnd (upd_log (\<lambda>l. l\<lparr>lh_n := 0\<rparr>)) (\<lambda>_.
     write_head)))"

definition initlog :: "u32 \<Rightarrow> u32 \<Rightarrow> ('z lkernel_scheme, unit) kM" where
  "initlog dev logstart =
     (if 4 + 4 * LOGBLOCKS \<ge> BSIZE then panic ''initlog: too big logheader''
      else
        bnd (upd_log (\<lambda>l. l\<lparr>l_start := sint logstart, l_dev := dev\<rparr>)) (\<lambda>_.
        recover_from_log))"

definition begin_op :: "('z lkernel_scheme, unit) kM" where
  "begin_op =
     bnd (get_log (\<lambda>l. l)) (\<lambda>l.
     if l_committing l then sleep_retry ChLog
     else if lh_n l + (l_outstanding l + 1) * int MAXOPBLOCKS > int LOGBLOCKS then sleep_retry ChLog
     else upd_log (\<lambda>l. l\<lparr>l_outstanding := l_outstanding l + 1\<rparr>))"

definition write_log :: "('z lkernel_scheme, unit) kM" where
  "write_log =
     bnd log_count (\<lambda>n.
     forM [0..<n] (\<lambda>tail.
       bnd (get_log l_dev) (\<lambda>dev.
       bnd (log_blockno (tail + 1)) (\<lambda>dst.
       bnd (bread dev dst) (\<lambda>to.
       bnd (get_lh_block tail) (\<lambda>src.
       bnd (bread dev src) (\<lambda>from.
       bnd (get_buf from b_data) (\<lambda>d.
       bnd (upd_buf to (\<lambda>b. b\<lparr>b_data := d\<rparr>)) (\<lambda>_.
       bnd (bwrite to) (\<lambda>_.
       bnd (brelse from) (\<lambda>_.
       brelse to)))))))))))"

definition commit :: "('z lkernel_scheme, unit) kM" where
  "commit =
     bnd (get_log lh_n) (\<lambda>n.
     whenM (n > 0)
       (bnd write_log (\<lambda>_.
        bnd write_head (\<lambda>_.
        bnd (install_trans False) (\<lambda>_.
        bnd (upd_log (\<lambda>l. l\<lparr>lh_n := 0\<rparr>)) (\<lambda>_.
        write_head))))))"

definition end_op :: "('z lkernel_scheme, unit) kM" where
  "end_op =
     bnd (upd_log (\<lambda>l. l\<lparr>l_outstanding := l_outstanding l - 1\<rparr>)) (\<lambda>_.
     bnd (get_log (\<lambda>l. l)) (\<lambda>l.
     if l_committing l then panic ''log.committing''
     else if l_outstanding l = 0 then
       bnd (upd_log (\<lambda>l. l\<lparr>l_committing := True\<rparr>)) (\<lambda>_.
       bnd commit (\<lambda>_.
       bnd (upd_log (\<lambda>l. l\<lparr>l_committing := False, l_ncommit := l_ncommit l + 1\<rparr>)) (\<lambda>_.
       wakeup ChLog)))
     else wakeup ChLog))"

text \<open>The index at which \<^verbatim>\<open>log_write\<close> stores the block number: that of the block when it is in the
  log already, else the count.\<close>

fun absorb :: "u32 list \<Rightarrow> u32 \<Rightarrow> nat \<Rightarrow> nat" where
  "absorb [] b i = i"
| "absorb (x # xs) b i = (if x = b then i else absorb xs b (Suc i))"

definition log_write :: "nat \<Rightarrow> ('z lkernel_scheme, unit) kM" where
  "log_write b =
     bnd (get_log (\<lambda>l. l)) (\<lambda>l.
     if lh_n l \<ge> int LOGBLOCKS then panic ''too big a transaction''
     else if l_outstanding l < 1 then panic ''log_write outside of trans''
     else
       bnd (get_buf b b_blockno) (\<lambda>bno.
       let i = absorb (take (nat (lh_n l)) (lh_block l)) bno 0 in
       bnd (set_lh_block i bno) (\<lambda>_.
       whenM (int i = lh_n l)
         (bnd (bpin b) (\<lambda>_. upd_log (\<lambda>l. l\<lparr>lh_n := lh_n l + 1\<rparr>))))))"

text \<open>The loop of \<^verbatim>\<open>sys_sync\<close>, which waits for the \<open>n\<close>th commit.\<close>

definition sys_sync_wait :: "int \<Rightarrow> ('z lkernel_scheme, u64) kM" where
  "sys_sync_wait n =
     bnd (get_log l_ncommit) (\<lambda>k. if k < n then sleep_retry ChLog else ret 0)"

definition sys_sync :: "('z lkernel_scheme, u64) kM" where
  "sys_sync =
     bnd (get_log (\<lambda>l. l)) (\<lambda>l.
     if l_committing l \<or> l_outstanding l > 0 then sys_sync_wait (l_ncommit l + 1)
     else ret 0)"

end
