(* ===== verification/Bcache.thy ===== *)
theory Bcache
  imports Bio Proc_Sync
begin

text \<open>
  The buffer cache against its abstraction.  The doubly linked list of \<^verbatim>\<open>kernel/bio.c\<close> refines a
  list of buffer numbers, most recently used first: \<^verbatim>\<open>bget\<close> is a search in it, and \<^verbatim>\<open>brelse\<close>
  moves the buffer to the front.  Above the list, the cache is a view of the disk: \<open>view\<close> gives
  the contents of a block that a reader sees.
\<close>

subsection \<open>Rings of pointers\<close>

fun path :: "(nat \<Rightarrow> nat) \<Rightarrow> nat \<Rightarrow> nat list \<Rightarrow> nat \<Rightarrow> bool" where
  "path f p [] q \<longleftrightarrow> p = q"
| "path f p (x # xs) q \<longleftrightarrow> p = x \<and> path f (f x) xs q"

lemma path_append: "path f p (xs @ ys) q \<longleftrightarrow> (\<exists>m. path f p xs m \<and> path f m ys q)"
  by (induction xs arbitrary: p) auto

lemma path_cong: "(\<And>x. x \<in> set xs \<Longrightarrow> f x = g x) \<Longrightarrow> path f p xs q = path g p xs q"
  by (induction xs arbitrary: p) auto

definition ring :: "(nat \<Rightarrow> nat) \<Rightarrow> (nat \<Rightarrow> nat) \<Rightarrow> nat list \<Rightarrow> bool" where
  "ring N P xs \<longleftrightarrow> path N (N BHEAD) xs BHEAD \<and> path P (P BHEAD) (rev xs) BHEAD"

lemma ring_rev: "ring P N (rev xs) \<longleftrightarrow> ring N P xs"
  by (auto simp: ring_def)

lemma ring_next:
  assumes "ring N P (us @ b # vs)"
  shows "N b = (case vs of [] \<Rightarrow> BHEAD | v # _ \<Rightarrow> v)"
  using assms by (cases vs) (auto simp: ring_def path_append)

lemma ring_prev:
  assumes "ring N P (us @ b # vs)"
  shows "P b = (case rev us of [] \<Rightarrow> BHEAD | v # _ \<Rightarrow> v)"
  using ring_next [of P N "rev vs" b "rev us"] assms by (simp add: ring_def)

lemma ring_remove_next:
  assumes r: "ring N P (us @ b # vs)" and d: "distinct (us @ b # vs)" "BHEAD \<notin> set (us @ b # vs)"
  shows "path (N(P b := N b)) ((N(P b := N b)) BHEAD) (us @ vs) BHEAD"
proof (cases us rule: rev_cases)
  case Nil
  then have "P b = BHEAD" "path N (N b) vs BHEAD" using r ring_prev [OF r] by (auto simp: ring_def)
  moreover have "path (N(BHEAD := N b)) (N b) vs BHEAD = path N (N b) vs BHEAD"
    using d by (intro path_cong) auto
  ultimately show ?thesis using Nil by simp
next
  case (snoc us' l)
  then have l: "P b = l" using ring_prev [OF r] by simp
  have p: "path N (N BHEAD) us' l" "path N (N b) vs BHEAD"
    using r snoc by (auto simp: ring_def path_append)
  have "path (N(l := N b)) (N BHEAD) us' l = path N (N BHEAD) us' l"
    "path (N(l := N b)) (N b) vs BHEAD = path N (N b) vs BHEAD"
    using d snoc by (auto intro!: path_cong)
  with p show ?thesis using l snoc d by (auto simp: path_append)
qed

lemma ring_remove:
  assumes r: "ring N P (us @ b # vs)" and d: "distinct (us @ b # vs)" "BHEAD \<notin> set (us @ b # vs)"
  shows "ring (N(P b := N b)) (P(N b := P b)) (us @ vs)"
proof -
  have "ring P N (rev vs @ b # rev us)" using r ring_rev [of P N "us @ b # vs"] by simp
  then have "path (P(N b := P b)) ((P(N b := P b)) BHEAD) (rev vs @ rev us) BHEAD"
    by (rule ring_remove_next) (use d in auto)
  then show ?thesis using ring_remove_next [OF r d] by (simp add: ring_def)
qed

lemma ring_push_front:
  assumes r: "ring N P xs" and d: "distinct xs" "BHEAD \<notin> set xs" "b \<notin> set xs" "b \<noteq> BHEAD"
  shows "ring (N(b := N BHEAD, BHEAD := b)) (P(b := BHEAD, N BHEAD := b)) (b # xs)"
proof -
  let ?N = "N(b := N BHEAD, BHEAD := b)" and ?P = "P(b := BHEAD, N BHEAD := b)"
  have "path ?N (N BHEAD) xs BHEAD = path N (N BHEAD) xs BHEAD" using d by (intro path_cong) auto
  then have "path ?N (?N BHEAD) (b # xs) BHEAD" using r d by (simp add: ring_def)
  moreover have "path ?P (?P BHEAD) (rev (b # xs)) BHEAD"
  proof (cases xs)
    case Nil
    then show ?thesis using r d by (simp add: ring_def)
  next
    case (Cons x ys)
    then have x: "N BHEAD = x" and p: "path P (P BHEAD) (rev ys) x"
      using r by (auto simp: ring_def path_append)
    have "path ?P (P BHEAD) (rev ys) x = path P (P BHEAD) (rev ys) x"
      using d Cons x by (intro path_cong) auto
    then show ?thesis using p Cons x d by (auto simp: path_append)
  qed
  ultimately show ?thesis by (simp add: ring_def)
qed

subsection \<open>The list of buffers\<close>

definition lru :: "(nat \<Rightarrow> buf) \<Rightarrow> nat list \<Rightarrow> bool" where
  "lru B xs \<longleftrightarrow> distinct xs \<and> set xs = {0..<NBUF} \<and> ring (\<lambda>i. b_next (B i)) (\<lambda>i. b_prev (B i)) xs"

lemma scan_next_find:
  assumes "path (\<lambda>i. b_next (B i)) p xs BHEAD" "BHEAD \<notin> set xs" "length xs < k"
  shows "scan_next k B Q p = ret (find (\<lambda>i. Q (B i)) xs)"
  using assms
proof (induction xs arbitrary: p k)
  case Nil
  then show ?case by (cases k) auto
next
  case (Cons x xs)
  then show ?case by (cases k) auto
qed

lemma scan_prev_find:
  assumes "path (\<lambda>i. b_prev (B i)) p xs BHEAD" "BHEAD \<notin> set xs" "length xs < k"
  shows "scan_prev k B Q p = ret (find (\<lambda>i. Q (B i)) xs)"
  using assms
proof (induction xs arbitrary: p k)
  case Nil
  then show ?case by (cases k) auto
next
  case (Cons x xs)
  then show ?case by (cases k) auto
qed

lemma lru_length: "lru B xs \<Longrightarrow> length xs = NBUF"
  using distinct_card [of xs] by (simp add: lru_def)

lemma lru_scans:
  assumes "lru B xs"
  shows "scan_next (Suc NBUF) B Q (b_next (B BHEAD)) = ret (find (\<lambda>i. Q (B i)) xs)"
    and "scan_prev (Suc NBUF) B Q (b_prev (B BHEAD)) = ret (find (\<lambda>i. Q (B i)) (rev xs))"
proof -
  have p: "path (\<lambda>i. b_next (B i)) (b_next (B BHEAD)) xs BHEAD"
    "path (\<lambda>i. b_prev (B i)) (b_prev (B BHEAD)) (rev xs) BHEAD" "BHEAD \<notin> set xs"
    using assms by (auto simp: lru_def ring_def)
  show "scan_next (Suc NBUF) B Q (b_next (B BHEAD)) = ret (find (\<lambda>i. Q (B i)) xs)"
    by (rule scan_next_find [OF p(1)]) (use p(3) lru_length [OF assms] in simp_all)
  show "scan_prev (Suc NBUF) B Q (b_prev (B BHEAD)) = ret (find (\<lambda>i. Q (B i)) (rev xs))"
    by (rule scan_prev_find [OF p(2)]) (use p(3) lru_length [OF assms] in simp_all)
qed

declare scan_next.simps [simp del] scan_prev.simps [simp del]

text \<open>The fields of a buffer apart from its links.\<close>

definition core :: "buf \<Rightarrow> buf" where
  "core b = b\<lparr>b_prev := 0, b_next := 0\<rparr>"

lemma core_fields:
  "core x = core y \<longleftrightarrow> b_valid x = b_valid y \<and> b_disk x = b_disk y \<and> b_dev x = b_dev y \<and> b_blockno x = b_blockno y
     \<and> b_lock x = b_lock y \<and> b_refcnt x = b_refcnt y \<and> b_data x = b_data y"
  by (cases x; cases y) (auto simp: core_def)

definition unlink :: "(nat \<Rightarrow> buf) \<Rightarrow> nat \<Rightarrow> (nat \<Rightarrow> buf)" where
  "unlink B b =
     (let nx = b_next (B b); pv = b_prev (B b);
          B1 = B(nx := (B nx)\<lparr>b_prev := pv\<rparr>)
      in B1(pv := (B1 pv)\<lparr>b_next := nx\<rparr>))"

definition link_front :: "(nat \<Rightarrow> buf) \<Rightarrow> nat \<Rightarrow> (nat \<Rightarrow> buf)" where
  "link_front B b =
     (let hn = b_next (B BHEAD);
          B1 = B(b := (B b)\<lparr>b_next := hn, b_prev := BHEAD\<rparr>);
          B2 = B1(hn := (B1 hn)\<lparr>b_prev := b\<rparr>)
      in B2(BHEAD := (B2 BHEAD)\<lparr>b_next := b\<rparr>))"

lemma unlink_links:
  "(\<lambda>i. b_next (unlink B b i)) = (\<lambda>i. b_next (B i))(b_prev (B b) := b_next (B b))"
  "(\<lambda>i. b_prev (unlink B b i)) = (\<lambda>i. b_prev (B i))(b_next (B b) := b_prev (B b))"
  "core (unlink B b i) = core (B i)"
  by (auto simp: unlink_def Let_def core_def fun_eq_iff)

lemma link_front_links:
  "b \<noteq> BHEAD \<Longrightarrow> (\<lambda>i. b_next (link_front B b i)) = (\<lambda>i. b_next (B i))(b := b_next (B BHEAD), BHEAD := b)"
  "b \<noteq> BHEAD \<Longrightarrow> (\<lambda>i. b_prev (link_front B b i)) = (\<lambda>i. b_prev (B i))(b := BHEAD, b_next (B BHEAD) := b)"
  "core (link_front B b i) = core (B i)"
  by (auto simp: link_front_def Let_def core_def fun_eq_iff)

lemma link_front_ring:
  "ring (\<lambda>i. b_next (B i)) (\<lambda>i. b_prev (B i)) xs \<Longrightarrow> distinct xs \<Longrightarrow> BHEAD \<notin> set xs \<Longrightarrow> b \<notin> set xs \<Longrightarrow>
   b \<noteq> BHEAD \<Longrightarrow> ring (\<lambda>i. b_next (link_front B b i)) (\<lambda>i. b_prev (link_front B b i)) (b # xs)"
  by (simp only: link_front_links not_False_eq_True) (rule ring_push_front)

lemma lru_move_to_front:
  assumes "lru B xs" and "b < NBUF"
  shows "lru (link_front (unlink B b) b) (b # removeAll b xs)"
proof -
  obtain us vs where xs: "xs = us @ b # vs" using assms by (metis atLeastLessThan_iff in_set_conv_decomp le0 lru_def)
  have d: "distinct (us @ b # vs)" "set (us @ b # vs) = {0..<NBUF}" "BHEAD \<notin> set (us @ b # vs)"
    using assms xs unfolding lru_def by (auto simp del: set_append)
  have rm: "removeAll b xs = us @ vs" using d(1) xs by (simp add: removeAll_id)
  have "ring (\<lambda>i. b_next (B i)) (\<lambda>i. b_prev (B i)) (us @ b # vs)" using assms xs by (simp add: lru_def)
  from ring_remove [OF this d(1,3)]
  have "ring (\<lambda>i. b_next (unlink B b i)) (\<lambda>i. b_prev (unlink B b i)) (us @ vs)"
    by (simp add: unlink_links)
  then have "ring (\<lambda>i. b_next (link_front (unlink B b) b i)) (\<lambda>i. b_prev (link_front (unlink B b) b i)) (b # us @ vs)"
    by (rule link_front_ring) (use d assms(2) in auto)
  then show ?thesis using d rm by (auto simp: lru_def)
qed

lemma lru_cong: "(\<And>i. b_next (B' i) = b_next (B i) \<and> b_prev (B' i) = b_prev (B i)) \<Longrightarrow> lru B' xs = lru B xs"
  by (simp add: lru_def)

subsection \<open>The cache as a view of the disk\<close>

definition holds :: "u32 \<Rightarrow> u32 \<Rightarrow> buf \<Rightarrow> bool" where
  "holds d bn b \<longleftrightarrow> b_dev b = d \<and> b_blockno b = bn"

definition view :: "u32 \<Rightarrow> 'z bkernel_scheme \<Rightarrow> u32 \<Rightarrow> block" where
  "view d s bn =
     (case find (\<lambda>i. holds d bn (bufs s i) \<and> b_valid (bufs s i)) [0..<NBUF] of
        Some i \<Rightarrow> b_data (bufs s i)
      | None \<Rightarrow> disk s bn)"

text \<open>The invariant of the cache of device \<open>d\<close> while the current process, with the given pid, holds
  the buffers \<open>L\<close> and nobody else holds one.\<close>

definition binv :: "u32 \<Rightarrow> u32 \<Rightarrow> (u32 \<Rightarrow> block) \<Rightarrow> bool \<Rightarrow> buf \<Rightarrow> bool" where
  "binv d pid dk held b \<longleftrightarrow> (sl_locked (b_lock b) \<longleftrightarrow> held)
     \<and> (held \<longrightarrow> sl_pid (b_lock b) = pid \<and> b_refcnt b \<noteq> 0 \<and> b_valid b \<and> b_dev b = d)
     \<and> (b_dev b = d \<and> b_valid b \<and> b_refcnt b = 0 \<longrightarrow> b_data b = dk (b_blockno b))
     \<and> unat (b_refcnt b) < 2 ^ 31 + (if held then 1 else 0)"

definition uniq :: "u32 \<Rightarrow> (nat \<Rightarrow> buf) \<Rightarrow> bool" where
  "uniq d B \<longleftrightarrow> (\<forall>i<NBUF. \<forall>j<NBUF. \<forall>bn. holds d bn (B i) \<longrightarrow> holds d bn (B j) \<longrightarrow> i = j)"

definition cinv :: "u32 \<Rightarrow> u32 \<Rightarrow> 'z bkernel_scheme \<Rightarrow> nat set \<Rightarrow> bool" where
  "cinv d pid s L \<longleftrightarrow> (\<exists>xs. lru (bufs s) xs) \<and> L \<subseteq> {..<NBUF}
   \<and> (\<exists>p. cur s = Some p \<and> p_pid (procs s p) = pid) \<and> uniq d (bufs s)
   \<and> (\<forall>i<NBUF. binv d pid (disk s) (i \<in> L) (bufs s i))"

lemma cinvD:
  assumes "cinv d pid s L"
  shows "\<exists>xs. lru (bufs s) xs" "L \<subseteq> {..<NBUF}" "\<exists>p. cur s = Some p \<and> p_pid (procs s p) = pid"
    "i < NBUF \<Longrightarrow> j < NBUF \<Longrightarrow> holds d bn (bufs s i) \<Longrightarrow> holds d bn (bufs s j) \<Longrightarrow> i = j"
    "i < NBUF \<Longrightarrow> sl_locked (b_lock (bufs s i)) \<longleftrightarrow> i \<in> L"
    "i \<in> L \<Longrightarrow> i < NBUF \<and> sl_pid (b_lock (bufs s i)) = pid \<and> b_refcnt (bufs s i) \<noteq> 0 \<and> b_valid (bufs s i) \<and> b_dev (bufs s i) = d"
    "i < NBUF \<Longrightarrow> unat (b_refcnt (bufs s i)) < 2 ^ 31 + (if i \<in> L then 1 else 0)"
    "i < NBUF \<Longrightarrow> binv d pid (disk s) (i \<in> L) (bufs s i)"
proof -
  have b: "binv d pid (disk s) (i \<in> L) (bufs s i)" if "i < NBUF" for i
    using assms that by (simp add: cinv_def)
  show "\<exists>xs. lru (bufs s) xs" "L \<subseteq> {..<NBUF}" "\<exists>p. cur s = Some p \<and> p_pid (procs s p) = pid"
    using assms by (simp_all add: cinv_def)
  show "i < NBUF \<Longrightarrow> j < NBUF \<Longrightarrow> holds d bn (bufs s i) \<Longrightarrow> holds d bn (bufs s j) \<Longrightarrow> i = j"
    using assms unfolding cinv_def uniq_def by blast
  show "i < NBUF \<Longrightarrow> sl_locked (b_lock (bufs s i)) \<longleftrightarrow> i \<in> L"
    "i < NBUF \<Longrightarrow> unat (b_refcnt (bufs s i)) < 2 ^ 31 + (if i \<in> L then 1 else 0)"
    "i < NBUF \<Longrightarrow> binv d pid (disk s) (i \<in> L) (bufs s i)"
    using b [of i] by (simp_all add: binv_def)
  show "i \<in> L \<Longrightarrow> i < NBUF \<and> sl_pid (b_lock (bufs s i)) = pid \<and> b_refcnt (bufs s i) \<noteq> 0 \<and> b_valid (bufs s i) \<and> b_dev (bufs s i) = d"
    using b [of i] assms by (auto simp: binv_def cinv_def)
qed

lemma find_upt_None: "find P [0..<n] = None \<longleftrightarrow> (\<forall>i<n. \<not> P i)"
  by (auto simp: find_None_iff)

lemma find_upt_Some: "find P [0..<n] = Some i \<Longrightarrow> i < n \<and> P i"
  by (auto simp: find_Some_iff)

lemma view_cached:
  assumes "cinv d pid s L" "i < NBUF" "holds d bn (bufs s i)" "b_valid (bufs s i)"
  shows "view d s bn = b_data (bufs s i)"
proof (cases "find (\<lambda>i. holds d bn (bufs s i) \<and> b_valid (bufs s i)) [0..<NBUF]")
  case None
  then show ?thesis using assms by (auto simp: find_upt_None)
next
  case (Some j)
  then have "j = i" using find_upt_Some [OF Some] cinvD(4) [OF assms(1) _ assms(2) _ assms(3)] by blast
  then show ?thesis using Some by (simp add: view_def)
qed

lemma view_uncached:
  "(\<And>i. i < NBUF \<Longrightarrow> holds d bn (bufs s i) \<Longrightarrow> \<not> b_valid (bufs s i)) \<Longrightarrow> view d s bn = disk s bn"
  using find_upt_None [of "\<lambda>i. holds d bn (bufs s i) \<and> b_valid (bufs s i)" NBUF]
  by (auto simp: view_def)

text \<open>The state after the current process has taken buffer \<open>i\<close> for block \<open>bn\<close>.\<close>

definition taken :: "u32 \<Rightarrow> u32 \<Rightarrow> 'z bkernel_scheme \<Rightarrow> nat \<Rightarrow> u32 \<Rightarrow> 'z bkernel_scheme" where
  "taken d pid s i bn = s\<lparr>bufs := (bufs s)(i := (bufs s i)\<lparr>b_valid := True, b_dev := d, b_blockno := bn,
     b_lock := \<lparr>sl_locked = True, sl_pid = pid\<rparr>, b_refcnt := b_refcnt (bufs s i) + 1,
     b_data := view d s bn\<rparr>)\<rparr>"

text \<open>The buffer that \<^verbatim>\<open>bget\<close> chooses: the one that holds the block, or a free one.\<close>

definition slot_for :: "u32 \<Rightarrow> 'z bkernel_scheme \<Rightarrow> u32 \<Rightarrow> nat \<Rightarrow> bool" where
  "slot_for d s bn i \<longleftrightarrow> i < NBUF \<and> (holds d bn (bufs s i) \<or>
     b_refcnt (bufs s i) = 0 \<and> (\<forall>j<NBUF. \<not> holds d bn (bufs s j)))"

lemma sleeplock_upd: "l\<lparr>sl_locked := a, sl_pid := b\<rparr> = \<lparr>sl_locked = a, sl_pid = b\<rparr>" for l :: sleeplock
  by (cases l) simp

lemma acquire_buf:
  assumes "cur s = Some p" "p_pid (procs s p) = pid" "\<not> sl_locked (b_lock (bufs s i))"
  shows "acquiresleep (buf_lock i) (set_buf_lock i) c s =
    Ok () (s\<lparr>bufs := (bufs s)(i := (bufs s i)\<lparr>b_lock := \<lparr>sl_locked = True, sl_pid = pid\<rparr>\<rparr>)\<rparr>)"
  using assms
  by (simp add: acquiresleep_def monad_defs buf_lock_def set_buf_lock_def the_proc_def myproc_def get_proc_def
      sleeplock_upd)

lemma taken_eq: "y = bufs (taken d pid s i bn) i \<Longrightarrow> s\<lparr>bufs := (bufs s)(i := y)\<rparr> = taken d pid s i bn"
  by (simp add: taken_def)

lemma bread_run:
  assumes inv: "cinv d pid s L" and slot: "slot_for d s bn i"
    and get: "bget d bn s = Ok i (s\<lparr>bufs := (bufs s)(i := x)\<rparr>)"
    and x: "b_dev x = d" "b_blockno x = bn" "b_lock x = \<lparr>sl_locked = True, sl_pid = pid\<rparr>"
      "b_refcnt x = b_refcnt (bufs s i) + 1" "b_valid x \<longleftrightarrow> holds d bn (bufs s i) \<and> b_valid (bufs s i)"
      "b_data x = b_data (bufs s i)" "b_disk x = b_disk (bufs s i)" "b_prev x = b_prev (bufs s i)"
      "b_next x = b_next (bufs s i)"
  shows "bread d bn s = Ok i (taken d pid s i bn)"
proof (cases "b_valid x")
  case True
  then have "view d s bn = b_data (bufs s i)" using slot x(5) view_cached [OF inv] by (simp add: slot_for_def)
  then have "x = bufs (taken d pid s i bn) i"
    by (intro buf.equality) (use True in \<open>simp_all add: taken_def x\<close>)
  from taken_eq [OF this] have "bget d bn s = Ok i (taken d pid s i bn)" using get by simp
  moreover have "b_valid (bufs (taken d pid s i bn) i)" by (simp add: taken_def)
  ultimately show ?thesis by (simp add: bread_def bnd_def get_buf_def gets_def whenM_def ret_def)
next
  case False
  have "view d s bn = disk s bn"
  proof (rule view_uncached)
    fix j
    assume j: "j < NBUF" "holds d bn (bufs s j)"
    then have "j = i" using slot cinvD(4) [OF inv, of i j bn] by (auto simp: slot_for_def)
    then show "\<not> b_valid (bufs s j)" using False x(5) j by simp
  qed
  then have "x\<lparr>b_data := disk s bn, b_valid := True\<rparr> = bufs (taken d pid s i bn) i"
    by (intro buf.equality) (simp_all add: taken_def x)
  from taken_eq [OF this] show ?thesis using get False x(2)
    by (simp add: bread_def bnd_def get_buf_def gets_def whenM_def ret_def disk_rw_def upd_buf_def upd_def Let_def)
qed

lemma bread_eq:
  assumes inv: "cinv d pid s L" and free: "\<And>i. i < NBUF \<Longrightarrow> holds d bn (bufs s i) \<Longrightarrow> i \<notin> L"
    and avail: "(\<exists>i<NBUF. holds d bn (bufs s i)) \<or> (\<exists>i<NBUF. b_refcnt (bufs s i) = 0)"
  obtains i where "slot_for d s bn i" "i \<notin> L" "bread d bn s = Ok i (taken d pid s i bn)"
proof -
  obtain xs where xs: "lru (bufs s) xs" using cinvD(1) [OF inv] by blast
  then have set: "set xs = {0..<NBUF}" by (simp add: lru_def)
  obtain p where p: "cur s = Some p" "p_pid (procs s p) = pid" using cinvD(3) [OF inv] by blast
  let ?Q = "\<lambda>i. b_dev (bufs s i) = d \<and> b_blockno (bufs s i) = bn"
  show ?thesis
  proof (cases "find ?Q xs")
    case (Some i)
    then have i: "i < NBUF" "holds d bn (bufs s i)" using set by (auto simp: find_Some_iff holds_def)
    then have "i \<notin> L" by (rule free)
    then have unl: "\<not> sl_locked (b_lock (bufs s i))" using cinvD(5) [OF inv i(1)] by simp
    have "bget d bn s = Ok i (s\<lparr>bufs := (bufs s)(i := (bufs s i)\<lparr>b_refcnt := b_refcnt (bufs s i) + 1,
        b_lock := \<lparr>sl_locked = True, sl_pid = pid\<rparr>\<rparr>)\<rparr>)"
      using Some unl p unfolding bget_def
      by (simp add: bnd_def gets_def lru_scans [OF xs] ret_def upd_buf_def upd_def acquire_buf)
    then have "bread d bn s = Ok i (taken d pid s i bn)"
      using i \<open>i \<notin> L\<close>
      by (elim bread_run [OF inv, rotated]) (simp_all add: slot_for_def holds_def)
    then show ?thesis using i \<open>i \<notin> L\<close> that by (auto simp: slot_for_def)
  next
    case None
    then have none: "\<not> holds d bn (bufs s j)" if "j < NBUF" for j
      using set that by (auto simp: find_None_iff holds_def)
    then obtain k where "k < NBUF" "b_refcnt (bufs s k) = 0" using avail by blast
    then have "find (\<lambda>i. b_refcnt (bufs s i) = 0) (rev xs) \<noteq> None" using set by (auto simp: find_None_iff)
    then obtain i where f: "find (\<lambda>i. b_refcnt (bufs s i) = 0) (rev xs) = Some i" by blast
    then have i: "i < NBUF" "b_refcnt (bufs s i) = 0" using set by (auto simp: find_Some_iff)
      (metis atLeastLessThan_iff length_rev nth_mem set_rev)
    then have "i \<notin> L" using cinvD(6) [OF inv] by blast
    then have unl: "\<not> sl_locked (b_lock (bufs s i))" using cinvD(5) [OF inv i(1)] by simp
    have "bget d bn s = Ok i (s\<lparr>bufs := (bufs s)(i := (bufs s i)\<lparr>b_dev := d, b_blockno := bn, b_valid := False,
        b_refcnt := 1, b_lock := \<lparr>sl_locked = True, sl_pid = pid\<rparr>\<rparr>)\<rparr>)"
      using None f unl p unfolding bget_def
      by (simp add: bnd_def gets_def lru_scans [OF xs] ret_def upd_buf_def upd_def acquire_buf)
    then have "bread d bn s = Ok i (taken d pid s i bn)"
      using i none \<open>i \<notin> L\<close>
      by (elim bread_run [OF inv, rotated]) (simp_all add: slot_for_def)
    then show ?thesis using i none \<open>i \<notin> L\<close> that by (auto simp: slot_for_def)
  qed
qed

subsection \<open>Taking and releasing a buffer\<close>

lemma view_cong:
  assumes "\<And>i. i < NBUF \<Longrightarrow> core (bufs t i) = core (bufs s i)" and "disk t = disk s"
  shows "view d t bn = view d s bn"
proof -
  have eq: "holds d bn (bufs t i) \<and> b_valid (bufs t i) \<longleftrightarrow> holds d bn (bufs s i) \<and> b_valid (bufs s i)"
    "b_data (bufs t i) = b_data (bufs s i)" if "i < NBUF" for i
    using assms(1) [OF that] by (auto simp: core_fields holds_def)
  have "find (\<lambda>i. holds d bn (bufs t i) \<and> b_valid (bufs t i)) [0..<NBUF] =
      find (\<lambda>i. holds d bn (bufs s i) \<and> b_valid (bufs s i)) [0..<NBUF]"
    by (rule find_cong) (auto simp: eq)
  then show ?thesis using assms(2) eq(2) find_upt_Some
    by (auto simp: view_def split: option.splits)
qed

text \<open>The effect of \<^verbatim>\<open>bread\<close> on the abstraction.\<close>

lemma slot_unique: "cinv d pid s L \<Longrightarrow> slot_for d s bn i \<Longrightarrow> j < NBUF \<Longrightarrow> holds d bn (bufs s j) \<Longrightarrow> j = i"
  using cinvD(4) [of d pid s L i j bn] by (auto simp: slot_for_def)

lemma uniq_taken:
  assumes "cinv d pid s L" and slot: "slot_for d s bn i"
  shows "uniq d (bufs (taken d pid s i bn))"
  unfolding uniq_def
proof (intro allI impI)
  fix j k n
  assume jk: "j < NBUF" "k < NBUF" "holds d n (bufs (taken d pid s i bn) j)" "holds d n (bufs (taken d pid s i bn) k)"
  have at: "holds d n (bufs (taken d pid s i bn) l) \<longleftrightarrow> (if l = i then n = bn else holds d n (bufs s l))" for l
    by (auto simp: taken_def holds_def)
  show "j = k"
    using jk slot_unique [OF assms, of j] slot_unique [OF assms, of k] cinvD(4) [OF assms(1), of j k n]
    unfolding at by (auto split: if_splits)
qed

lemma taken_inv:
  assumes inv: "cinv d pid s L" and slot: "slot_for d s bn i" and L: "i \<notin> L"
  shows "cinv d pid (taken d pid s i bn) (insert i L)"
proof -
  let ?t = "taken d pid s i bn"
  have i: "i < NBUF" using slot by (simp add: slot_for_def)
  obtain xs where "lru (bufs s) xs" using cinvD(1) [OF inv] by blast
  then have "lru (bufs ?t) xs" by (subst lru_cong [of _ "bufs s"]) (auto simp: taken_def)
  moreover have rc: "unat (b_refcnt (bufs s i) + 1) = unat (b_refcnt (bufs s i)) + 1"
    using unat_add_small [of "b_refcnt (bufs s i)" 1] cinvD(7) [OF inv i] L by simp
  then have "b_refcnt (bufs s i) + 1 \<noteq> 0" by (metis Suc_eq_plus1 nat.distinct(1) unat_0)
  then have "binv d pid (disk ?t) (j \<in> insert i L) (bufs ?t j)" if "j < NBUF" for j
    using cinvD(8) [OF inv that] cinvD(7) [OF inv i] rc L
    by (cases "j = i") (simp_all add: taken_def binv_def)
  ultimately show ?thesis
    unfolding cinv_def using cinvD(2,3) [OF inv] i uniq_taken [OF inv slot] by (auto simp: taken_def)
qed

lemma taken_view:
  assumes inv: "cinv d pid s L" and slot: "slot_for d s bn i" and L: "i \<notin> L"
  shows "view d (taken d pid s i bn) n = view d s n"
proof -
  let ?t = "taken d pid s i bn"
  have i: "i < NBUF" using slot by (simp add: slot_for_def)
  note inv' = taken_inv [OF assms]
  show ?thesis
  proof (cases "n = bn")
    case True
    have "holds d n (bufs ?t i)" "b_valid (bufs ?t i)" "b_data (bufs ?t i) = view d s n"
      using True by (simp_all add: taken_def holds_def)
    then show ?thesis using view_cached [OF inv' i] by simp
  next
    case False
    show ?thesis
    proof (cases "\<exists>j<NBUF. j \<noteq> i \<and> holds d n (bufs s j) \<and> b_valid (bufs s j)")
      case True
      then obtain j where j: "j < NBUF" "j \<noteq> i" "holds d n (bufs s j)" "b_valid (bufs s j)" by blast
      then have "bufs ?t j = bufs s j" by (simp add: taken_def)
      then show ?thesis using view_cached [OF inv j(1,3,4)] view_cached [OF inv' j(1)] j by simp
    next
      case no: False
      have "view d ?t n = disk ?t n"
        by (rule view_uncached) (use no False in \<open>auto simp: taken_def holds_def split: if_splits\<close>)
      moreover have "view d s n = disk s n"
      proof (cases "holds d n (bufs s i) \<and> b_valid (bufs s i)")
        case True
        then have "b_refcnt (bufs s i) = 0" using slot False by (auto simp: slot_for_def holds_def)
        then have "b_data (bufs s i) = disk s n"
          using cinvD(8) [OF inv i] True by (auto simp: binv_def holds_def)
        then show ?thesis using view_cached [OF inv i] True by simp
      next
        case no_i: False
        show ?thesis by (rule view_uncached) (use no no_i in blast)
      qed
      ultimately show ?thesis by (simp add: taken_def)
    qed
  qed
qed

lemma holding_buf:
  assumes "cinv d pid s L" "i \<in> L"
  shows "holdingsleep (buf_lock i) s = Ok True s"
proof -
  obtain p where "cur s = Some p" "p_pid (procs s p) = pid" using cinvD(3) [OF assms(1)] by blast
  moreover have "sl_locked (b_lock (bufs s i))" "sl_pid (b_lock (bufs s i)) = pid"
    using cinvD(5,6) [OF assms(1), of i] assms(2) by auto
  ultimately show ?thesis
    by (simp add: holdingsleep_def monad_defs buf_lock_def the_proc_def myproc_def get_proc_def)
qed

lemma bwrite_eq:
  "cinv d pid s L \<Longrightarrow> i \<in> L \<Longrightarrow> bwrite i s =
     Ok () (s\<lparr>disk := (disk s)(b_blockno (bufs s i) := b_data (bufs s i)),
       dtrace := dtrace s @ [(b_blockno (bufs s i), b_data (bufs s i))]\<rparr>)"
  by (simp add: bwrite_def bnd_def holding_buf disk_rw_def upd_def Let_def)

text \<open>A release: the state afterwards, up to the order of the list.\<close>

definition dropped :: "buf \<Rightarrow> buf" where
  "dropped b = b\<lparr>b_lock := \<lparr>sl_locked = False, sl_pid = 0\<rparr>, b_refcnt := b_refcnt b - 1\<rparr>"

lemma brelse_run:
  assumes inv: "cinv d pid s L" and i: "i \<in> L"
  obtains B' where
    "brelse i s = Ok () (s\<lparr>procs := wakeup_tab (ChBufLock i) (procs s), bufs := B'\<rparr>)"
    "\<forall>j. core (B' j) = core (if j = i then dropped (bufs s i) else bufs s j)" "\<exists>xs. lru B' xs"
proof -
  let ?s1 = "s\<lparr>procs := wakeup_tab (ChBufLock i) (procs s), bufs := (bufs s)(i := dropped (bufs s i))\<rparr>"
  have i': "i < NBUF" "i \<noteq> BHEAD" using cinvD(6) [OF inv i] by auto
  obtain xs where "lru (bufs s) xs" using cinvD(1) [OF inv] by blast
  then have lru1: "lru (bufs ?s1) xs" by (subst lru_cong [of _ "bufs s"]) (auto simp: dropped_def)
  have rel: "releasesleep (set_buf_lock i) (ChBufLock i) s =
      Ok () (s\<lparr>procs := wakeup_tab (ChBufLock i) (procs s),
        bufs := (bufs s)(i := (bufs s i)\<lparr>b_lock := \<lparr>sl_locked = False, sl_pid = 0\<rparr>\<rparr>)\<rparr>)"
    by (simp add: releasesleep_def bnd_def upd_def set_buf_lock_def wakeup_eq sleeplock_upd)
  show ?thesis
  proof (cases "b_refcnt (bufs s i) - 1 = 0")
    case False
    then have "brelse i s = Ok () (s\<lparr>procs := wakeup_tab (ChBufLock i) (procs s),
        bufs := (bufs s)(i := dropped (bufs s i))\<rparr>)"
      using i' unfolding brelse_def
      by (simp add: bnd_def holding_buf [OF inv i] rel upd_buf_def upd_def get_buf_def gets_def whenM_def ret_def dropped_def)
    then show ?thesis using lru1 by (intro that) auto
  next
    case True
    have "brelse i s = Ok () (s\<lparr>procs := wakeup_tab (ChBufLock i) (procs s),
        bufs := link_front (unlink ((bufs s)(i := dropped (bufs s i))) i) i\<rparr>)"
      using i' True unfolding brelse_def
      by (simp add: bnd_def holding_buf [OF inv i] rel upd_buf_def upd_def get_buf_def gets_def whenM_def dropped_def
          link_front_def unlink_def Let_def)
    moreover have "\<exists>xs. lru (link_front (unlink ((bufs s)(i := dropped (bufs s i))) i) i) xs"
      using lru_move_to_front [OF lru1 i'(1)] by auto
    ultimately show ?thesis by (intro that) (auto simp: unlink_links(3) link_front_links(3))
  qed
qed

lemma binv_core: "core x = core y \<Longrightarrow> binv d pid dk h x = binv d pid dk h y"
  unfolding core_fields binv_def by simp

lemma holds_core: "core x = core y \<Longrightarrow> holds d bn x = holds d bn y"
  unfolding core_fields holds_def by simp

lemma brelse_spec:
  assumes inv: "cinv d pid s L" and i: "i \<in> L"
    and clean: "b_refcnt (bufs s i) = 1 \<Longrightarrow> b_data (bufs s i) = disk s (b_blockno (bufs s i))"
  obtains B' where
    "brelse i s = Ok () (s\<lparr>procs := wakeup_tab (ChBufLock i) (procs s), bufs := B'\<rparr>)"
    "\<forall>j. core (B' j) = core (if j = i then dropped (bufs s i) else bufs s j)"
    "cinv d pid (s\<lparr>procs := wakeup_tab (ChBufLock i) (procs s), bufs := B'\<rparr>) (L - {i})"
    "\<forall>bn. view d (s\<lparr>procs := wakeup_tab (ChBufLock i) (procs s), bufs := B'\<rparr>) bn = view d s bn"
proof -
  obtain B' where run: "brelse i s = Ok () (s\<lparr>procs := wakeup_tab (ChBufLock i) (procs s), bufs := B'\<rparr>)"
    and core: "\<forall>j. core (B' j) = core (if j = i then dropped (bufs s i) else bufs s j)" and l: "\<exists>xs. lru B' xs"
    by (rule brelse_run [OF inv i])
  let ?t = "s\<lparr>procs := wakeup_tab (ChBufLock i) (procs s), bufs := B'\<rparr>"
  have i': "i < NBUF" "b_refcnt (bufs s i) \<noteq> 0" using cinvD(6) [OF inv i] by auto
  have h: "holds d bn (B' j) = holds d bn (bufs s j)" for d bn j
    using holds_core [OF core [rule_format, of j]] by (simp add: dropped_def holds_def split: if_splits)
  have "uniq d B'" using inv by (simp add: cinv_def uniq_def h)
  moreover have "\<exists>p. cur ?t = Some p \<and> p_pid (procs ?t p) = pid"
    using cinvD(3) [OF inv] by (auto simp: wakeup_tab_def wakeup1_def Let_def)
  moreover have "binv d pid (disk s) (j \<in> L - {i}) (B' j)" if "j < NBUF" for j
  proof (cases "j = i")
    case True
    have "unat (b_refcnt (bufs s i) - 1) = unat (b_refcnt (bufs s i)) - 1"
      using i'(2) by (rule unat_minus_one)
    then have "binv d pid (disk s) False (dropped (bufs s i))"
      using cinvD(7) [OF inv i'(1)] i i'(2) clean by (auto simp: binv_def dropped_def)
    then show ?thesis using binv_core [OF core [rule_format, of i]] True by simp
  next
    case False
    then show ?thesis using cinvD(8) [OF inv that] binv_core [OF core [rule_format, of j]] by simp
  qed
  ultimately have inv': "cinv d pid ?t (L - {i})"
    using l cinvD(2) [OF inv] by (auto simp: cinv_def)
  have f: "b_valid (B' j) = b_valid (bufs s j)" "b_data (B' j) = b_data (bufs s j)" for j
    using core [rule_format, of j] by (auto simp: core_fields dropped_def split: if_splits)
  have "view d ?t bn = view d s bn" for bn
    by (simp add: view_def h f split: option.split)
  with run core inv' show thesis by (intro that) auto
qed

text \<open>A store into a buffer that the process holds changes the view of that block.\<close>

lemma view_store:
  assumes inv: "cinv d pid s L" and i: "i \<in> L"
  shows "cinv d pid (s\<lparr>bufs := (bufs s)(i := (bufs s i)\<lparr>b_data := v\<rparr>)\<rparr>) L"
    and "view d (s\<lparr>bufs := (bufs s)(i := (bufs s i)\<lparr>b_data := v\<rparr>)\<rparr>) =
      (view d s)(b_blockno (bufs s i) := v)"
proof -
  let ?t = "s\<lparr>bufs := (bufs s)(i := (bufs s i)\<lparr>b_data := v\<rparr>)\<rparr>"
  have i': "i < NBUF" "b_refcnt (bufs s i) \<noteq> 0" "b_valid (bufs s i)" "b_dev (bufs s i) = d"
    using cinvD(6) [OF inv i] by auto
  obtain xs where "lru (bufs s) xs" using cinvD(1) [OF inv] by blast
  then have "lru (bufs ?t) xs" by (subst lru_cong [of _ "bufs s"]) auto
  moreover have h: "holds d bn (bufs ?t j) = holds d bn (bufs s j)" for d bn j by (simp add: holds_def)
  have "uniq d (bufs ?t)" using inv unfolding cinv_def uniq_def h by simp
  moreover have "binv d pid (disk s) (j \<in> L) (bufs ?t j)" if "j < NBUF" for j
    using cinvD(8) [OF inv that] i i'(2) by (cases "j = i") (simp_all add: binv_def)
  ultimately show inv': "cinv d pid ?t L" using cinvD(2,3) [OF inv] by (auto simp: cinv_def)
  show "view d ?t = (view d s)(b_blockno (bufs s i) := v)"
  proof
    fix bn
    show "view d ?t bn = ((view d s)(b_blockno (bufs s i) := v)) bn"
    proof (cases "bn = b_blockno (bufs s i)")
      case True
      then show ?thesis using view_cached [OF inv' i'(1)] i' by (simp add: holds_def)
    next
      case False
      have "find (\<lambda>i. holds d bn (bufs ?t i) \<and> b_valid (bufs ?t i)) [0..<NBUF] =
          find (\<lambda>i. holds d bn (bufs s i) \<and> b_valid (bufs s i)) [0..<NBUF]"
        by (rule find_cong) (auto simp: holds_def)
      moreover have "j \<noteq> i" if "find (\<lambda>i. holds d bn (bufs s i) \<and> b_valid (bufs s i)) [0..<NBUF] = Some j" for j
        using find_upt_Some [OF that] False by (auto simp: holds_def)
      ultimately show ?thesis using False by (auto simp: view_def split: option.splits)
    qed
  qed
qed

text \<open>A write to disk of a held buffer.\<close>

lemma disk_store_inv:
  assumes inv: "cinv d pid s L" and i: "i \<in> L"
  shows "cinv d pid (s\<lparr>disk := (disk s)(b_blockno (bufs s i) := b_data (bufs s i)), dtrace := tr\<rparr>) L"
    and "view d (s\<lparr>disk := (disk s)(b_blockno (bufs s i) := b_data (bufs s i)), dtrace := tr\<rparr>) = view d s"
proof -
  let ?t = "s\<lparr>disk := (disk s)(b_blockno (bufs s i) := b_data (bufs s i)), dtrace := tr\<rparr>"
  have i': "i < NBUF" "b_valid (bufs s i)" "b_dev (bufs s i) = d" "b_refcnt (bufs s i) \<noteq> 0"
    using cinvD(6) [OF inv i] by auto
  have "binv d pid (disk ?t) (j \<in> L) (bufs s j)" if "j < NBUF" for j
    using cinvD(8) [OF inv that] cinvD(4) [OF inv that i'(1), of "b_blockno (bufs s i)"] i'
    by (auto simp: binv_def holds_def)
  then show inv': "cinv d pid ?t L" using inv by (simp add: cinv_def)
  show "view d ?t = view d s"
  proof
    fix bn
    show "view d ?t bn = view d s bn"
    proof (cases "bn = b_blockno (bufs s i)")
      case True
      then have "holds d bn (bufs s i)" using i' by (simp add: holds_def)
      then show ?thesis using view_cached [OF inv' i'(1), of bn] view_cached [OF inv i'(1)] i' by simp
    next
      case False
      then show ?thesis by (simp add: view_def split: option.splits)
    qed
  qed
qed

end
