(* ===== verification/Block_Rules.thy ===== *)
theory Block_Rules
  imports Log Bcache
begin

text \<open>
  The buffer cache as its clients see it.  \<open>lst d pid H V R D T L s\<close> describes a state in which the
  current process holds the buffers \<open>H\<close> (each for a block), a reader of device \<open>d\<close> sees the blocks
  \<open>V\<close>, block \<open>b\<close> has \<open>R b\<close> references, the disk is \<open>D\<close>, the writes so far are \<open>T\<close> and the log
  structure is \<open>L\<close>.  The operations of \<^verbatim>\<open>kernel/bio.c\<close> get one rule each over this description.
\<close>

definition rc :: "u32 \<Rightarrow> (nat \<Rightarrow> buf) \<Rightarrow> u32 \<Rightarrow> nat" where
  "rc d B bn = (case find (\<lambda>i. holds d bn (B i)) [0..<NBUF] of Some i \<Rightarrow> unat (b_refcnt (B i)) | None \<Rightarrow> 0)"

definition lst :: "u32 \<Rightarrow> u32 \<Rightarrow> (nat \<rightharpoonup> u32) \<Rightarrow> (u32 \<Rightarrow> block) \<Rightarrow> (u32 \<Rightarrow> nat) \<Rightarrow> (u32 \<Rightarrow> block) \<Rightarrow>
    (u32 \<times> block) list \<Rightarrow> log \<Rightarrow> 'z lkernel_scheme \<Rightarrow> bool" where
  "lst d pid H V R D T L s \<longleftrightarrow> cinv d pid s (dom H) \<and> (\<forall>i bn. H i = Some bn \<longrightarrow> b_blockno (bufs s i) = bn)
     \<and> view d s = V \<and> rc d (bufs s) = R \<and> disk s = D \<and> dtrace s = T \<and> log s = L
     \<and> (\<forall>i<NBUF. b_refcnt (bufs s i) \<noteq> 0 \<longrightarrow> b_dev (bufs s i) = d)"

lemma rc_at: "uniq d B \<Longrightarrow> i < NBUF \<Longrightarrow> holds d bn (B i) \<Longrightarrow> rc d B bn = unat (b_refcnt (B i))"
proof -
  assume u: "uniq d B" "i < NBUF" "holds d bn (B i)"
  have "find (\<lambda>i. holds d bn (B i)) [0..<NBUF] \<noteq> None" using u by (auto simp: find_upt_None)
  then obtain j where j: "find (\<lambda>i. holds d bn (B i)) [0..<NBUF] = Some j" by blast
  then have "j = i" using find_upt_Some [OF j] u unfolding uniq_def by blast
  then show ?thesis using j by (simp add: rc_def)
qed

lemma rc_none: "(\<And>i. i < NBUF \<Longrightarrow> \<not> holds d bn (B i)) \<Longrightarrow> rc d B bn = 0"
  using find_upt_None [of "\<lambda>i. holds d bn (B i)" NBUF] by (simp add: rc_def)

lemma rc_nonzero: "rc d B bn \<noteq> 0 \<Longrightarrow> \<exists>i<NBUF. holds d bn (B i) \<and> b_refcnt (B i) \<noteq> 0"
  using find_upt_Some by (fastforce simp: rc_def split: option.splits)

lemma lst_held:
  assumes "lst d pid H V R D T L s" "H i = Some bn"
  shows "i < NBUF" "holds d bn (bufs s i)" "b_valid (bufs s i)" "b_data (bufs s i) = V bn"
    "b_blockno (bufs s i) = bn" "R bn = unat (b_refcnt (bufs s i))" "R bn \<noteq> 0" "R bn \<le> 2 ^ 31"
proof -
  have inv: "cinv d pid s (dom H)" and v: "view d s = V" and r: "rc d (bufs s) = R" and bn: "b_blockno (bufs s i) = bn"
    and u: "uniq d (bufs s)" using assms by (auto simp: lst_def cinv_def)
  have i: "i < NBUF" "b_refcnt (bufs s i) \<noteq> 0" "b_valid (bufs s i)" "b_dev (bufs s i) = d"
    using cinvD(6) [OF inv, of i] assms(2) by auto
  show "i < NBUF" "b_valid (bufs s i)" "b_blockno (bufs s i) = bn" using i bn by auto
  show h: "holds d bn (bufs s i)" using i bn by (simp add: holds_def)
  show "b_data (bufs s i) = V bn" using view_cached [OF inv i(1) h i(3)] v by simp
  show rr: "R bn = unat (b_refcnt (bufs s i))" using rc_at [OF u i(1) h] r by simp
  show "R bn \<noteq> 0" using rr i(2) by (simp add: unat_eq_zero)
  show "R bn \<le> 2 ^ 31" using rr cinvD(7) [OF inv i(1)] assms(2) by (simp add: domI)
qed

lemma lst_clean: "lst d pid H V R D T L s \<Longrightarrow> R bn = 0 \<Longrightarrow> V bn = D bn"
proof -
  assume l: "lst d pid H V R D T L s" and r: "R bn = 0"
  have inv: "cinv d pid s (dom H)" and u: "uniq d (bufs s)" using l by (auto simp: lst_def cinv_def)
  show "V bn = D bn"
  proof (cases "\<exists>i<NBUF. holds d bn (bufs s i) \<and> b_valid (bufs s i)")
    case True
    then obtain i where i: "i < NBUF" "holds d bn (bufs s i)" "b_valid (bufs s i)" by blast
    then have "b_refcnt (bufs s i) = 0" using rc_at [OF u i(1,2)] r l by (simp add: lst_def unat_eq_zero)
    then have "b_data (bufs s i) = disk s bn" using cinvD(8) [OF inv i(1)] i by (auto simp: binv_def holds_def)
    then show ?thesis using view_cached [OF inv i] l by (simp add: lst_def)
  next
    case False
    then have "view d s bn = disk s bn" by (intro view_uncached) blast
    then show ?thesis using l by (simp add: lst_def)
  qed
qed

lemma lst_unique: "lst d pid H V R D T L s \<Longrightarrow> H i = Some bn \<Longrightarrow> H j = Some bn \<Longrightarrow> i = j"
  using lst_held(1,2) [of d pid H V R D T L s i bn] lst_held(1,2) [of d pid H V R D T L s j bn] cinvD(4) [of d pid s "dom H" i j bn]
  by (auto simp: lst_def)

subsection \<open>Reading a block\<close>

text \<open>A free buffer exists when fewer than \<open>NBUF\<close> blocks have references.\<close>

lemma free_buffer:
  assumes l: "lst d pid H V R D T L s" and c: "card {bn. R bn \<noteq> 0} < NBUF"
  shows "\<exists>i<NBUF. b_refcnt (bufs s i) = 0"
proof (rule ccontr)
  assume "\<not> ?thesis"
  then have nz: "b_refcnt (bufs s i) \<noteq> 0" if "i < NBUF" for i using that by blast
  have u: "uniq d (bufs s)" and r: "rc d (bufs s) = R" and dv: "\<forall>i<NBUF. b_dev (bufs s i) = d"
    using l nz by (auto simp: lst_def cinv_def)
  have h: "holds d (b_blockno (bufs s i)) (bufs s i)" if "i < NBUF" for i using dv that by (simp add: holds_def)
  have "inj_on (\<lambda>i. b_blockno (bufs s i)) {..<NBUF}"
    using u h unfolding inj_on_def uniq_def by (metis lessThan_iff)
  then have "card ((\<lambda>i. b_blockno (bufs s i)) ` {..<NBUF}) = NBUF" by (simp add: card_image)
  moreover have "(\<lambda>i. b_blockno (bufs s i)) ` {..<NBUF} \<subseteq> {bn. R bn \<noteq> 0}"
    using rc_at [OF u _ h] nz r by (auto simp: unat_gt_0)
  ultimately show False using c card_mono [of "{bn. R bn \<noteq> 0}"] by (metis finite leD)
qed

lemma bread_rule:
  assumes l: "lst d pid H V R D T L s" and bn: "bn \<notin> ran H"
    and c: "R bn \<noteq> 0 \<or> card {b. R b \<noteq> 0} < NBUF"
  shows "runs (bread d bn) s (\<lambda>i. lst d pid (H(i \<mapsto> bn)) V (R(bn := R bn + 1)) D T L)"
    and "runs (bread d bn) s (\<lambda>i t. H i = None)"
proof -
  have inv: "cinv d pid s (dom H)" and u: "uniq d (bufs s)" and r: "rc d (bufs s) = R" using l by (auto simp: lst_def cinv_def)
  have "i \<notin> dom H" if "i < NBUF" "holds d bn (bufs s i)" for i
    using lst_held(5) [OF l, of i] that bn by (auto simp: holds_def ran_def)
  moreover have "(\<exists>i<NBUF. holds d bn (bufs s i)) \<or> (\<exists>i<NBUF. b_refcnt (bufs s i) = 0)"
    using c free_buffer [OF l] rc_nonzero [of d "bufs s" bn] r by auto
  ultimately obtain i where i: "slot_for d s bn i" "i \<notin> dom H" "bread d bn s = Ok i (taken d pid s i bn)"
    by (rule bread_eq [OF inv])
  let ?t = "taken d pid s i bn"
  have i': "i < NBUF" using i(1) by (simp add: slot_for_def)
  note inv' = taken_inv [OF inv i(1,2)]
  then have u': "uniq d (bufs ?t)" by (simp add: cinv_def)
  have ht: "holds d b (bufs ?t j) \<longleftrightarrow> (if j = i then b = bn else holds d b (bufs s j))" for j b
    by (auto simp: taken_def holds_def)
  have rcs: "rc d (bufs s) bn = unat (b_refcnt (bufs s i))"
  proof (cases "holds d bn (bufs s i)")
    case False
    then show ?thesis using i(1) rc_none [of d bn "bufs s"] by (auto simp: slot_for_def)
  qed (use rc_at [OF u i'] in simp)
  have small: "unat (b_refcnt (bufs s i) + 1) = unat (b_refcnt (bufs s i)) + 1"
    using cinvD(7) [OF inv i'] i(2) unat_add_small [of "b_refcnt (bufs s i)" 1] by simp
  have "rc d (bufs ?t) b = (R(bn := R bn + 1)) b" for b
  proof (cases "b = bn")
    case True
    then show ?thesis using rc_at [OF u' i', of b] ht [of b i] rcs small r by (simp add: taken_def)
  next
    case False
    show ?thesis
    proof (cases "\<exists>j<NBUF. j \<noteq> i \<and> holds d b (bufs s j)")
      case True
      then obtain j where j: "j < NBUF" "j \<noteq> i" "holds d b (bufs s j)" by blast
      then show ?thesis
        using rc_at [OF u' j(1), of b] rc_at [OF u j(1,3)] ht [of b j] r False by (simp add: taken_def)
    next
      case no: False
      then have "rc d (bufs ?t) b = 0" using False ht by (intro rc_none) auto
      moreover have "rc d (bufs s) b = 0"
      proof (cases "holds d b (bufs s i)")
        case True
        then have "b_refcnt (bufs s i) = 0" using i(1) False by (auto simp: slot_for_def holds_def)
        then show ?thesis using rc_at [OF u i' True] by simp
      qed (use no in \<open>intro rc_none, blast\<close>)
      ultimately show ?thesis using r False by simp
    qed
  qed
  then have "rc d (bufs ?t) = R(bn := R bn + 1)" by blast
  moreover have "view d ?t = view d s" using taken_view [OF inv i(1,2)] by blast
  moreover have "dom (H(i \<mapsto> bn)) = insert i (dom H)" by simp
  ultimately have "lst d pid (H(i \<mapsto> bn)) V (R(bn := R bn + 1)) D T L ?t"
    using l inv' i(2) unfolding lst_def by (auto simp: taken_def)
  then show "runs (bread d bn) s (\<lambda>i. lst d pid (H(i \<mapsto> bn)) V (R(bn := R bn + 1)) D T L)"
    using i(3) by (rule runs_OkI [rotated])
  show "runs (bread d bn) s (\<lambda>i t. H i = None)" using i(2,3) by (auto simp: runs_def)
qed

subsection \<open>The contents of a held buffer\<close>

lemma get_data_rule:
  "lst d pid H V R D T L s \<Longrightarrow> H i = Some bn \<Longrightarrow> Q (V bn) s \<Longrightarrow> runs (get_buf i b_data) s Q"
  using lst_held(4) [of d pid H V R D T L s i bn] by (simp add: get_buf_def)

lemma get_blockno_rule:
  "lst d pid H V R D T L s \<Longrightarrow> H i = Some bn \<Longrightarrow> Q bn s \<Longrightarrow> runs (get_buf i b_blockno) s Q"
  using lst_held(5) [of d pid H V R D T L s i bn] by (simp add: get_buf_def)

lemma rc_store: "rc d (B(i := (B i)\<lparr>b_data := v\<rparr>)) = rc d B"
proof
  fix bn
  have h: "holds d bn ((B(i := (B i)\<lparr>b_data := v\<rparr>)) j) = holds d bn (B j)" for j by (simp add: holds_def)
  show "rc d (B(i := (B i)\<lparr>b_data := v\<rparr>)) bn = rc d B bn"
    unfolding rc_def h by (simp split: option.split)
qed

lemma set_data_rule:
  assumes l: "lst d pid H V R D T L s" and i: "H i = Some bn" and f: "f (bufs s i) = (bufs s i)\<lparr>b_data := v\<rparr>"
  shows "runs (upd_buf i f) s (\<lambda>_. lst d pid H (V(bn := v)) R D T L)"
proof -
  let ?t = "s\<lparr>bufs := (bufs s)(i := (bufs s i)\<lparr>b_data := v\<rparr>)\<rparr>"
  have inv: "cinv d pid s (dom H)" "i \<in> dom H" using l i by (auto simp: lst_def)
  have "view d ?t = V(bn := v)" using view_store(2) [OF inv] lst_held(5) [OF l i] l by (simp add: lst_def)
  moreover have "rc d (bufs ?t) = R" using rc_store [of d "bufs s" i v] l by (simp add: lst_def)
  ultimately have "lst d pid H (V(bn := v)) R D T L ?t"
    using l view_store(1) [OF inv] unfolding lst_def by auto
  then show ?thesis by (simp add: upd_buf_def f)
qed

lemma bwrite_rule:
  assumes l: "lst d pid H V R D T L s" and i: "H i = Some bn"
  shows "runs (bwrite i) s (\<lambda>_. lst d pid H V R (D(bn := V bn)) (T @ [(bn, V bn)]) L)"
proof -
  have inv: "cinv d pid s (dom H)" "i \<in> dom H" using l i by (auto simp: lst_def)
  note h = lst_held [OF l i]
  show ?thesis
    using l disk_store_inv [OF inv, of "dtrace s @ [(bn, V bn)]"] h(4,5)
    unfolding runs_def bwrite_eq [OF inv] by (simp add: lst_def)
qed

subsection \<open>Releasing and pinning\<close>

lemma rc_upd:
  assumes u: "uniq d B" and i: "i < NBUF" "holds d bn (B i)" and h: "\<And>j b. holds d b (B' j) = holds d b (B j)"
    and r: "\<And>j. j < NBUF \<Longrightarrow> j \<noteq> i \<Longrightarrow> b_refcnt (B' j) = b_refcnt (B j)"
  shows "rc d B' = (rc d B)(bn := unat (b_refcnt (B' i)))"
proof
  fix b
  have u': "uniq d B'" using u by (simp add: uniq_def h)
  show "rc d B' b = ((rc d B)(bn := unat (b_refcnt (B' i)))) b"
  proof (cases "\<exists>j<NBUF. holds d b (B j)")
    case True
    then obtain j where j: "j < NBUF" "holds d b (B j)" by blast
    then have "rc d B' b = unat (b_refcnt (B' j))" "rc d B b = unat (b_refcnt (B j))"
      using rc_at [OF u' j(1)] rc_at [OF u j(1)] h by auto
    moreover have "j = i \<longleftrightarrow> b = bn" using j i u unfolding uniq_def by (auto simp: holds_def)
    ultimately show ?thesis using r [OF j(1)] by auto
  next
    case False
    then have "rc d B' b = 0" "rc d B b = 0" using h by (auto intro!: rc_none)
    then show ?thesis using False i by auto
  qed
qed

lemma brelse_rule:
  assumes l: "lst d pid H V R D T L s" and i: "H i = Some bn" and clean: "R bn = 1 \<Longrightarrow> V bn = D bn"
  shows "runs (brelse i) s (\<lambda>_. lst d pid (H(i := None)) V (R(bn := R bn - 1)) D T L)"
proof -
  have inv: "cinv d pid s (dom H)" "i \<in> dom H" and u: "uniq d (bufs s)" using l i by (auto simp: lst_def cinv_def)
  note h = lst_held [OF l i]
  have "b_data (bufs s i) = disk s (b_blockno (bufs s i))" if "b_refcnt (bufs s i) = 1"
    using h clean that l by (simp add: lst_def)
  then obtain B' where B': "brelse i s = Ok () (s\<lparr>procs := wakeup_tab (ChBufLock i) (procs s), bufs := B'\<rparr>)"
    "\<forall>j. core (B' j) = core (if j = i then dropped (bufs s i) else bufs s j)"
    "cinv d pid (s\<lparr>procs := wakeup_tab (ChBufLock i) (procs s), bufs := B'\<rparr>) (dom H - {i})"
    "\<forall>bn. view d (s\<lparr>procs := wakeup_tab (ChBufLock i) (procs s), bufs := B'\<rparr>) bn = view d s bn"
    by (rule brelse_spec [OF inv])
  have f: "b_dev (B' j) = b_dev (bufs s j)" "b_blockno (B' j) = b_blockno (bufs s j)"
    "b_refcnt (B' j) = (if j = i then b_refcnt (bufs s i) - 1 else b_refcnt (bufs s j))" for j
    using B'(2) [rule_format, of j] by (auto simp: core_fields dropped_def split: if_splits)
  have nz: "b_refcnt (bufs s i) \<noteq> 0" using h(6,7) by auto
  have "rc d B' = (rc d (bufs s))(bn := unat (b_refcnt (B' i)))"
    by (rule rc_upd [OF u h(1,2)]) (auto simp: holds_def f)
  also have "\<dots> = R(bn := R bn - 1)" using l h(6) nz by (simp add: f unat_minus_one lst_def)
  finally have "rc d B' = R(bn := R bn - 1)" .
  moreover have "dom (H(i := None)) = dom H - {i}" by simp
  ultimately have "lst d pid (H(i := None)) V (R(bn := R bn - 1)) D T L
      (s\<lparr>procs := wakeup_tab (ChBufLock i) (procs s), bufs := B'\<rparr>)"
    using l B'(3,4) nz unfolding lst_def by (auto simp: f fun_eq_iff)
  then show ?thesis using B'(1) by (simp add: runs_def)
qed

text \<open>A change of the reference count of a held buffer by \<^verbatim>\<open>bpin\<close> or \<^verbatim>\<open>bunpin\<close>.\<close>

lemma refcnt_rule:
  assumes l: "lst d pid H V R D T L s" and i: "H i = Some bn"
    and r: "unat r \<noteq> 0" "unat r \<le> 2 ^ 31"
  shows "lst d pid H V (R(bn := unat r)) D T L (s\<lparr>bufs := (bufs s)(i := (bufs s i)\<lparr>b_refcnt := r\<rparr>)\<rparr>)"
proof -
  let ?B = "(bufs s)(i := (bufs s i)\<lparr>b_refcnt := r\<rparr>)"
  let ?t = "s\<lparr>bufs := ?B\<rparr>"
  have inv: "cinv d pid s (dom H)" "i \<in> dom H" and u: "uniq d (bufs s)" using l i by (auto simp: lst_def cinv_def)
  note h = lst_held [OF l i]
  have hh: "holds d b (?B j) = holds d b (bufs s j)" for j b by (simp add: holds_def)
  obtain xs where "lru (bufs s) xs" using cinvD(1) [OF inv(1)] by blast
  then have "lru ?B xs" by (subst lru_cong [of _ "bufs s"]) auto
  moreover have "uniq d ?B" using u unfolding uniq_def hh by simp
  moreover have "binv d pid (disk s) (j \<in> dom H) (?B j)" if "j < NBUF" for j
    using cinvD(8) [OF inv(1) that] inv(2) r by (auto simp: binv_def)
  ultimately have "cinv d pid ?t (dom H)" using inv by (auto simp: cinv_def)
  moreover have "rc d ?B = (rc d (bufs s))(bn := unat (b_refcnt (?B i)))"
    by (rule rc_upd [OF u h(1,2) hh]) simp
  then have "rc d ?B = R(bn := unat r)" using l by (simp add: lst_def)
  moreover have "view d ?t bn' = view d s bn'" for bn'
  proof -
    have hv: "holds d bn' (?B j) \<and> b_valid (?B j) \<longleftrightarrow> holds d bn' (bufs s j) \<and> b_valid (bufs s j)" for j
      by (simp add: holds_def)
    show ?thesis unfolding view_def using hv by (simp split: option.split)
  qed
  moreover have "b_dev (bufs s i) = d" using h(2) by (simp add: holds_def)
  ultimately show ?thesis using l unfolding lst_def by (auto simp: fun_eq_iff)
qed

lemma bpin_rule:
  assumes l: "lst d pid H V R D T L s" and i: "H i = Some bn" and r: "R bn < 2 ^ 31"
  shows "runs (bpin i) s (\<lambda>_. lst d pid H V (R(bn := R bn + 1)) D T L)"
proof -
  note h = lst_held [OF l i]
  have "unat (b_refcnt (bufs s i) + 1) = R bn + 1"
    using unat_add_small [of "b_refcnt (bufs s i)" 1] r h(6) by simp
  then show ?thesis using refcnt_rule [OF l i, of "b_refcnt (bufs s i) + 1"] r by (simp add: bpin_def upd_buf_def)
qed

lemma bunpin_rule:
  assumes l: "lst d pid H V R D T L s" and i: "H i = Some bn" and r: "1 < R bn"
  shows "runs (bunpin i) s (\<lambda>_. lst d pid H V (R(bn := R bn - 1)) D T L)"
proof -
  note h = lst_held [OF l i]
  have "b_refcnt (bufs s i) \<noteq> 0" using h(6,7) by auto
  then have "unat (b_refcnt (bufs s i) - 1) = R bn - 1" using h(6) by (simp add: unat_minus_one)
  then show ?thesis using refcnt_rule [OF l i, of "b_refcnt (bufs s i) - 1"] r h(8) by (simp add: bunpin_def upd_buf_def)
qed

subsection \<open>The rules in continuation form\<close>

lemma bread_step:
  assumes "lst d pid H V R D T L s" and "bn \<notin> ran H" and "R bn \<noteq> 0 \<or> card {b. R b \<noteq> 0} < NBUF"
    and "\<And>i t. H i = None \<Longrightarrow> lst d pid (H(i \<mapsto> bn)) V (R(bn := R bn + 1)) D T L t \<Longrightarrow> Q i t"
  shows "runs (bread d bn) s Q"
  by (rule runs_mono [OF runs_conj [OF bread_rule [OF assms(1-3)]]]) (use assms(4) in blast)

lemma set_data_step:
  assumes "lst d pid H V R D T L s" and "H i = Some bn" and "f (bufs s i) = (bufs s i)\<lparr>b_data := v\<rparr>"
    and "\<And>t. lst d pid H (V(bn := v)) R D T L t \<Longrightarrow> Q () t"
  shows "runs (upd_buf i f) s Q"
  by (rule runs_mono [OF set_data_rule [where f = f, OF assms(1-3)]]) (use assms(4) in simp)

lemma bwrite_step:
  assumes "lst d pid H V R D T L s" and "H i = Some bn"
    and "\<And>t. lst d pid H V R (D(bn := V bn)) (T @ [(bn, V bn)]) L t \<Longrightarrow> Q () t"
  shows "runs (bwrite i) s Q"
  by (rule runs_mono [OF bwrite_rule [OF assms(1,2)]]) (use assms(3) in simp)

lemma brelse_step:
  assumes "lst d pid H V R D T L s" and "H i = Some bn" and "R bn = 1 \<Longrightarrow> V bn = D bn"
    and "\<And>t. lst d pid (H(i := None)) V (R(bn := R bn - 1)) D T L t \<Longrightarrow> Q () t"
  shows "runs (brelse i) s Q"
  by (rule runs_mono [OF brelse_rule [OF assms(1-3)]]) (use assms(4) in simp_all)

lemma bunpin_step:
  assumes "lst d pid H V R D T L s" and "H i = Some bn" and "1 < R bn"
    and "\<And>t. lst d pid H V (R(bn := R bn - 1)) D T L t \<Longrightarrow> Q () t"
  shows "runs (bunpin i) s Q"
  by (rule runs_mono [OF bunpin_rule [OF assms(1-3)]]) (use assms(4) in simp)

lemma bpin_step:
  assumes "lst d pid H V R D T L s" and "H i = Some bn" and "R bn < 2 ^ 31"
    and "\<And>t. lst d pid H V (R(bn := R bn + 1)) D T L t \<Longrightarrow> Q () t"
  shows "runs (bpin i) s Q"
  by (rule runs_mono [OF bpin_rule [OF assms(1-3)]]) (use assms(4) in simp)

lemma lst_log: "lst d pid H V R D T L s \<Longrightarrow> lst d pid H V R D T (f L) (s\<lparr>log := f (log s)\<rparr>)"
proof -
  assume l: "lst d pid H V R D T L s"
  then have "cinv d pid s (dom H)" by (simp add: lst_def)
  then have "cinv d pid (s\<lparr>log := f (log s)\<rparr>) (dom H)" by (simp add: cinv_def)
  moreover have "view d (s\<lparr>log := f (log s)\<rparr>) = view d s" by (simp add: view_def fun_eq_iff split: option.split)
  ultimately show ?thesis using l by (simp add: lst_def)
qed

lemma upd_log_step:
  "lst d pid H V R D T L s \<Longrightarrow> (\<And>t. lst d pid H V R D T (f L) t \<Longrightarrow> Q () t) \<Longrightarrow> runs (upd_log f) s Q"
  using lst_log [of d pid H V R D T L s f] by (simp add: upd_log_def)

lemma get_log_step: "lst d pid H V R D T L s \<Longrightarrow> Q (f L) s \<Longrightarrow> runs (get_log f) s Q"
  by (simp add: get_log_def lst_def)

lemma log_simps:
  "lst d pid H V R D T L s \<Longrightarrow> runs (get_log f) s Q \<longleftrightarrow> Q (f L) s"
  "lst d pid H V R D T L s \<Longrightarrow> runs log_count s Q' \<longleftrightarrow> Q' (nat (lh_n L)) s"
  "lst d pid H V R D T L s \<Longrightarrow> runs (log_blockno k) s Q'' \<longleftrightarrow> Q'' (of_int (l_start L + int k)) s"
  "lst d pid H V R D T L s \<Longrightarrow> i < length (lh_block L) \<Longrightarrow> runs (get_lh_block i) s Q'' \<longleftrightarrow> Q'' (lh_block L ! i) s"
  by (simp_all add: get_log_def log_count_def log_blockno_def get_lh_block_def lst_def)

lemma printk_step:
  "lst d pid H V R D T L s \<Longrightarrow> (\<And>t. lst d pid H V R D T L t \<Longrightarrow> Q () t) \<Longrightarrow> runs (printk_msg m as) s Q"
proof -
  assume l: "lst d pid H V R D T L s" and q: "\<And>t. lst d pid H V R D T L t \<Longrightarrow> Q () t"
  let ?t = "s\<lparr>klog := klog s @ [(m, as)]\<rparr>"
  have "view d ?t = view d s" by (simp add: view_def fun_eq_iff split: option.split)
  moreover have "cinv d pid s (dom H)" using l by (simp add: lst_def)
  then have "cinv d pid ?t (dom H)" by (simp add: cinv_def)
  ultimately have "lst d pid H V R D T L ?t" using l by (simp add: lst_def)
  then show ?thesis using q by (simp add: printk_msg_def)
qed

end
