(* ===== verification/Log_Crash.thy ===== *)
theory Log_Crash
  imports Block_Rules
begin

text \<open>
  The write-ahead log is atomic.  The routines of \<^verbatim>\<open>kernel/log.c\<close> get a specification over the
  description of the buffer cache, the writes of a commit are computed, and recovery is run on the
  disk after each prefix of them.
\<close>

subsection \<open>One block of the log\<close>

text \<open>The disk after a sequence of block writes.\<close>

definition dapply :: "(u32 \<Rightarrow> block) \<Rightarrow> (u32 \<times> block) list \<Rightarrow> (u32 \<Rightarrow> block)" where
  "dapply D ws = fold (\<lambda>(b, v) D. D(b := v)) ws D"

lemma dapply_simps [simp]:
  "dapply D [] = D" "dapply D (ws @ ws') = dapply (dapply D ws) ws'" "dapply D ((b, v) # ws) = dapply (D(b := v)) ws"
  by (simp_all add: dapply_def)

lemma dapply_other: "b \<notin> fst ` set ws \<Longrightarrow> dapply D ws b = D b"
  by (induction ws arbitrary: D) auto

text \<open>The body of \<^verbatim>\<open>write_log\<close>.\<close>

definition copy_to_log :: "u32 \<Rightarrow> u32 \<Rightarrow> nat \<Rightarrow> ('z lkernel_scheme, unit) kM" where
  "copy_to_log dev dst tail =
       bnd (bread dev dst) (\<lambda>to.
       bnd (get_lh_block tail) (\<lambda>src.
       bnd (bread dev src) (\<lambda>from.
       bnd (get_buf from b_data) (\<lambda>d.
       bnd (upd_buf to (\<lambda>b. b\<lparr>b_data := d\<rparr>)) (\<lambda>_.
       bnd (bwrite to) (\<lambda>_.
       bnd (brelse from) (\<lambda>_.
       brelse to)))))))"

lemma lst_eq:
  "lst d pid H V R D T L s \<Longrightarrow> H = H' \<Longrightarrow> V = V' \<Longrightarrow> R = R' \<Longrightarrow> D = D' \<Longrightarrow> T = T' \<Longrightarrow> lst d pid H' V' R' D' T' L s"
  by simp

lemma copy_to_log_rule:
  assumes l: "lst d pid Map.empty V R D T L s" and src: "tail < length (lh_block L)" "lh_block L ! tail = b"
    and ab: "a \<noteq> b" and R: "R a = 0" "R b \<noteq> 0" and c: "card {b. R b \<noteq> 0} < NBUF"
  shows "runs (copy_to_log d a tail) s (\<lambda>_. lst d pid Map.empty (V(a := V b)) R (D(a := V b)) (T @ [(a, V b)]) L)"
  unfolding copy_to_log_def runs_bnd
proof (rule bread_step [OF l], goal_cases)
  case (3 i t)
  show ?case unfolding log_simps(4) [OF 3(2) src(1)] src(2)
  proof (rule bread_step [OF 3(2)], goal_cases)
    case (3 j u)
    then have ij: "i \<noteq> j" by (auto split: if_splits)
    show ?case
    proof (rule get_data_rule [where bn = b, OF 3(2)], goal_cases)
      case 2
      show ?case
        by (rule set_data_step [where bn = a, OF 3(2)], simp add: ij, simp, rule bwrite_step, assumption, simp add: ij,
            erule brelse_step, simp, use R ab in simp, erule brelse_step, simp add: ij, simp,
            erule lst_eq) (use R ab ij in auto)
    qed simp
  qed (use ab R in auto)
qed (use c in auto)

text \<open>The body of \<^verbatim>\<open>install_trans\<close> after the message.\<close>

definition copy_home :: "bool \<Rightarrow> u32 \<Rightarrow> u32 \<Rightarrow> u32 \<Rightarrow> ('z lkernel_scheme, unit) kM" where
  "copy_home recovering dev src dst =
       bnd (bread dev src) (\<lambda>lbuf.
       bnd (bread dev dst) (\<lambda>dbuf.
       bnd (get_buf lbuf b_data) (\<lambda>d.
       bnd (upd_buf dbuf (\<lambda>b. b\<lparr>b_data := d\<rparr>)) (\<lambda>_.
       bnd (bwrite dbuf) (\<lambda>_.
       bnd (whenM (\<not> recovering) (bunpin dbuf)) (\<lambda>_.
       bnd (brelse lbuf) (\<lambda>_.
       brelse dbuf)))))))"

lemma copy_home_rule:
  assumes l: "lst d pid Map.empty V R D T L s" and ab: "a \<noteq> b" and a: "R a = 0"
    and b: "if recovering then card {b. R b \<noteq> 0} + 1 < NBUF else R b \<noteq> 0 \<and> card {b. R b \<noteq> 0} < NBUF"
  shows "runs (copy_home recovering d a b) s (\<lambda>_. lst d pid Map.empty (V(b := V a))
    (R(b := R b - (if recovering then 0 else 1))) (D(b := V a)) (T @ [(b, V a)]) L)"
  unfolding copy_home_def runs_bnd
proof (rule bread_step [OF l], goal_cases)
  case (3 i t)
  have "card {x. (R(a := R a + 1)) x \<noteq> 0} = card (insert a {x. R x \<noteq> 0})" by (rule arg_cong [where f = card]) auto
  then have c: "(R(a := R a + 1)) b \<noteq> 0 \<or> card {x. (R(a := R a + 1)) x \<noteq> 0} < NBUF"
    using b a ab by (simp split: if_splits)
  have va: "V a = D a" using lst_clean [OF l a] .
  show ?case
  proof (rule bread_step [OF 3(2) _ c], goal_cases)
    case (2 j u)
    then have ij: "i \<noteq> j" by (auto split: if_splits)
    show ?case
    proof (rule get_data_rule [where bn = a, OF 2(2)], goal_cases)
      case 2
      show ?case
      proof (rule set_data_step [where bn = b and v = "V a", OF \<open>lst d pid _ V _ D T L u\<close>], goal_cases)
        case (3 t)
        show ?case
        proof (rule bwrite_step [where bn = b, OF 3], goal_cases)
          case (2 t)
          show ?case
          proof (cases recovering)
            case True
            show ?thesis unfolding runs_whenM
              by (simp only: True simp_thms if_False, rule brelse_step [OF 2], simp add: ij, use va a ab in simp,
                  erule brelse_step, simp add: ij [symmetric], simp, erule lst_eq) (use ab a ij in auto)
          next
            case False
            show ?thesis unfolding runs_whenM
              by (simp only: False simp_thms if_True, rule bunpin_step [OF 2], simp, use b ab False in simp,
                  erule brelse_step, simp add: ij, use va a ab in simp,
                  erule brelse_step, simp add: ij [symmetric], simp, erule lst_eq) (use ab a ij in auto)
          qed
        qed simp
      qed (use ij in auto)
    qed (use ij in simp)
  qed (use ab in auto)
qed (use b in \<open>auto split: if_splits\<close>)

subsection \<open>Copying a transaction to the log\<close>

lemma upt_split: "[0..<n] = ys @ x # zs \<Longrightarrow> ys = [0..<x] \<and> x < n \<and> ys @ [x] = [0..<Suc x]"
proof -
  assume h: "[0..<n] = ys @ x # zs"
  then have l: "length ys < n" by (metis add_Suc_right diff_zero length_Cons length_append length_upt less_add_Suc1)
  have "[0..<n] ! length ys = x" using h by simp
  then have x: "x = length ys" using l by simp
  have "ys = take (length ys) [0..<n]" using h by simp
  then show ?thesis using x l by (simp add: take_upt)
qed

definition lblk :: "log \<Rightarrow> nat \<Rightarrow> u32" where
  "lblk L k = of_int (l_start L + int k)"

definition lblks :: "log \<Rightarrow> u32 set" where
  "lblks L = lblk L ` {0..LOGBLOCKS}"

definition tx_blocks :: "log \<Rightarrow> u32 list" where
  "tx_blocks L = take (nat (lh_n L)) (lh_block L)"

text \<open>The geometry of the log: a header and \<open>LOGBLOCKS\<close> blocks that no transaction touches.\<close>

definition log_geom :: "log \<Rightarrow> bool" where
  "log_geom L \<longleftrightarrow> inj_on (lblk L) {0..LOGBLOCKS} \<and> nat (lh_n L) \<le> LOGBLOCKS \<and> length (lh_block L) = LOGBLOCKS
     \<and> set (tx_blocks L) \<inter> lblks L = {}"

definition log_writes :: "(u32 \<Rightarrow> block) \<Rightarrow> log \<Rightarrow> nat \<Rightarrow> (u32 \<times> block) list" where
  "log_writes V L k = map (\<lambda>i. (lblk L (i + 1), V (tx_blocks L ! i))) [0..<k]"

definition home_writes :: "(u32 \<Rightarrow> block) \<Rightarrow> log \<Rightarrow> nat \<Rightarrow> (u32 \<times> block) list" where
  "home_writes V L k = map (\<lambda>i. (tx_blocks L ! i, V (lblk L (i + 1)))) [0..<k]"

lemma log_writes_Suc: "log_writes V L (Suc k) = log_writes V L k @ [(lblk L (k + 1), V (tx_blocks L ! k))]"
  by (simp add: log_writes_def)

lemma home_writes_Suc: "home_writes V L (Suc k) = home_writes V L k @ [(tx_blocks L ! k, V (lblk L (k + 1)))]"
  by (simp add: home_writes_def)

lemma tx_blocks_nth:
  assumes "log_geom L" "k < nat (lh_n L)"
  shows "k < length (lh_block L)" "lh_block L ! k = tx_blocks L ! k" "tx_blocks L ! k \<in> set (tx_blocks L)"
    "tx_blocks L ! k \<notin> lblks L" "lblk L (k + 1) \<in> lblks L"
proof -
  show "k < length (lh_block L)" "lh_block L ! k = tx_blocks L ! k" using assms by (simp_all add: log_geom_def tx_blocks_def)
  show m: "tx_blocks L ! k \<in> set (tx_blocks L)" using assms by (intro nth_mem) (simp add: log_geom_def tx_blocks_def)
  then show "tx_blocks L ! k \<notin> lblks L" "lblk L (k + 1) \<in> lblks L" using assms by (auto simp: log_geom_def lblks_def)
qed

lemma log_writes_outside: "log_geom L \<Longrightarrow> k \<le> nat (lh_n L) \<Longrightarrow> b \<notin> lblks L \<Longrightarrow> dapply V (log_writes V' L k) b = V b"
  by (rule dapply_other) (auto simp: log_writes_def lblks_def log_geom_def)

lemma home_writes_inside: "log_geom L \<Longrightarrow> k \<le> nat (lh_n L) \<Longrightarrow> b \<in> lblks L \<Longrightarrow> dapply V (home_writes V' L k) b = V b"
  using tx_blocks_nth(4) [of L] by (intro dapply_other) (force simp: home_writes_def)

text \<open>What a commit finds: every block of the transaction is in the cache with a reference, no block of
  the log has one, and a buffer is free.\<close>

definition pinned :: "log \<Rightarrow> (u32 \<Rightarrow> nat) \<Rightarrow> bool" where
  "pinned L R \<longleftrightarrow> (\<forall>b. count_list (tx_blocks L) b \<le> R b) \<and> (\<forall>b \<in> lblks L. R b = 0) \<and> card {b. R b \<noteq> 0} < NBUF"

lemma write_log_rule:
  assumes l: "lst d pid Map.empty V R D T L s" and g: "log_geom L" and p: "pinned L R" and dev: "l_dev L = d"
  shows "runs write_log s (\<lambda>_. lst d pid Map.empty (dapply V (log_writes V L (nat (lh_n L)))) R
    (dapply D (log_writes V L (nat (lh_n L)))) (T @ log_writes V L (nat (lh_n L))) L)"
proof -
  let ?I = "\<lambda>ys. lst d pid Map.empty (dapply V (log_writes V L (length ys))) R
    (dapply D (log_writes V L (length ys))) (T @ log_writes V L (length ys)) L"
  let ?f = "\<lambda>tail. bnd (get_log l_dev) (\<lambda>dev. bnd (log_blockno (tail + 1)) (\<lambda>dst. copy_to_log dev dst tail))"
  have w: "write_log = bnd log_count (\<lambda>n. forM [0..<n] ?f)" by (simp add: write_log_def copy_to_log_def)
  have "runs (forM [0..<nat (lh_n L)] ?f) s (\<lambda>_. ?I [0..<nat (lh_n L)])"
  proof (rule runs_forM)
    fix ys x zs t
    assume "[0..<nat (lh_n L)] = ys @ x # zs" and I: "?I ys t"
    from upt_split [OF this(1)] have x: "ys = [0..<x]" "x < nat (lh_n L)" by auto
    note tb = tx_blocks_nth [OF g x(2)]
    let ?b = "tx_blocks L ! x"
    have ab: "lblk L (x + 1) \<noteq> ?b" using tb(4,5) by metis
    have V: "dapply V (log_writes V L x) ?b = V ?b" using log_writes_outside [OF g _ tb(4)] x(2) by simp
    have "count_list (tx_blocks L) ?b \<noteq> 0" using tb(3) by (simp add: count_list_0_iff)
    moreover have "count_list (tx_blocks L) ?b \<le> R ?b" using p unfolding pinned_def by blast
    ultimately have R: "R ?b \<noteq> 0" by simp
    have "runs (copy_to_log d (lblk L (x + 1)) x) t (\<lambda>_. lst d pid Map.empty
        ((dapply V (log_writes V L x))(lblk L (x + 1) := V ?b)) R
        ((dapply D (log_writes V L x))(lblk L (x + 1) := V ?b)) ((T @ log_writes V L x) @ [(lblk L (x + 1), V ?b)]) L)"
      using copy_to_log_rule [OF I tb(1,2), of "lblk L (x + 1)", OF ab] tb(5) p R V x(1) by (simp add: pinned_def)
    then show "runs (?f x) t (\<lambda>_. ?I (ys @ [x]))"
      using I x dev by (simp add: log_simps [OF I] lblk_def log_writes_Suc)
  qed (use l in \<open>simp add: log_writes_def\<close>)
  then show ?thesis unfolding w runs_bnd log_simps(2) [OF l] by simp
qed

subsection \<open>Installing a transaction\<close>

text \<open>The references after \<open>k\<close> blocks have been installed.\<close>

definition unpinned :: "bool \<Rightarrow> log \<Rightarrow> (u32 \<Rightarrow> nat) \<Rightarrow> nat \<Rightarrow> (u32 \<Rightarrow> nat)" where
  "unpinned recovering L R k = (if recovering then R else (\<lambda>b. R b - count_list (take k (tx_blocks L)) b))"

definition installable :: "bool \<Rightarrow> log \<Rightarrow> (u32 \<Rightarrow> nat) \<Rightarrow> bool" where
  "installable recovering L R \<longleftrightarrow>
     (if recovering then (\<forall>b \<in> lblks L. R b = 0) \<and> card {b. R b \<noteq> 0} + 1 < NBUF else pinned L R)"

lemma count_take_Suc: "k < length xs \<Longrightarrow> count_list (take (Suc k) xs) b = count_list (take k xs) b + (if xs ! k = b then 1 else 0)"
  by (simp add: take_Suc_conv_app_nth)

lemma count_take_le: "count_list (take k xs) b \<le> count_list xs b"
  by (metis append_take_drop_id count_list_append le_add1)

lemma unpinned_Suc:
  "k < length (tx_blocks L) \<Longrightarrow> unpinned r L R (Suc k) =
     (unpinned r L R k)(tx_blocks L ! k := unpinned r L R k (tx_blocks L ! k) - (if r then 0 else 1))"
  by (auto simp: unpinned_def count_take_Suc fun_eq_iff)

lemma unpinned_step:
  assumes i: "installable r L R" and k: "k < length (tx_blocks L)"
  shows "\<forall>b \<in> lblks L. unpinned r L R k b = 0"
    and "if r then card {b. unpinned r L R k b \<noteq> 0} + 1 < NBUF
      else unpinned r L R k (tx_blocks L ! k) \<noteq> 0 \<and> card {b. unpinned r L R k b \<noteq> 0} < NBUF"
proof -
  show "\<forall>b \<in> lblks L. unpinned r L R k b = 0"
    using i by (auto simp: unpinned_def installable_def pinned_def split: if_splits)
  have "card {b. unpinned False L R k b \<noteq> 0} \<le> card {b. R b \<noteq> 0}"
    by (rule card_mono) (auto simp: unpinned_def)
  moreover have "count_list (take k (tx_blocks L)) (tx_blocks L ! k) < count_list (tx_blocks L) (tx_blocks L ! k)"
    using count_take_le [of "Suc k" "tx_blocks L" "tx_blocks L ! k"] k by (simp add: count_take_Suc)
  ultimately show "if r then card {b. unpinned r L R k b \<noteq> 0} + 1 < NBUF
      else unpinned r L R k (tx_blocks L ! k) \<noteq> 0 \<and> card {b. unpinned r L R k b \<noteq> 0} < NBUF"
    using i by (auto simp: installable_def pinned_def unpinned_def not_le split: if_splits dest: order_less_le_trans)
qed

lemma install_trans_rule:
  assumes l: "lst d pid Map.empty V R D T L s" and g: "log_geom L" and p: "installable r L R" and dev: "l_dev L = d"
  defines "n \<equiv> nat (lh_n L)"
  shows "runs (install_trans r) s (\<lambda>_. lst d pid Map.empty (dapply V (home_writes V L n)) (unpinned r L R n)
    (dapply D (home_writes V L n)) (T @ home_writes V L n) L)"
proof -
  let ?I = "\<lambda>ys. lst d pid Map.empty (dapply V (home_writes V L (length ys))) (unpinned r L R (length ys))
    (dapply D (home_writes V L (length ys))) (T @ home_writes V L (length ys)) L"
  let ?f = "\<lambda>tail. bnd (get_lh_block tail) (\<lambda>dst. bnd (get_log l_dev) (\<lambda>dev.
      bnd (whenM r (printk_msg ''recovering tail %d dst %d'' [int tail, sint dst])) (\<lambda>_.
      bnd (log_blockno (tail + 1)) (\<lambda>src. copy_home r dev src dst))))"
  have w: "install_trans r = bnd log_count (\<lambda>n. forM [0..<n] ?f)" by (simp add: install_trans_def copy_home_def)
  have len: "length (tx_blocks L) = n" using g by (simp add: log_geom_def tx_blocks_def n_def)
  have "runs (forM [0..<n] ?f) s (\<lambda>_. ?I [0..<n])"
  proof (rule runs_forM)
    fix ys x zs t
    assume "[0..<n] = ys @ x # zs" and I: "?I ys t"
    from upt_split [OF this(1)] have x: "ys = [0..<x]" "x < n" by auto
    note tb = tx_blocks_nth [OF g x(2) [unfolded n_def]]
    note st = unpinned_step [OF p, of x]
    let ?b = "tx_blocks L ! x" and ?a = "lblk L (x + 1)"
    have ab: "?a \<noteq> ?b" using tb(4,5) by metis
    have V: "dapply V (home_writes V L x) ?a = V ?a" using home_writes_inside [OF g _ tb(5)] x(2) by (simp add: n_def)
    have step: "runs (copy_home r d ?a ?b) u (\<lambda>_. ?I (ys @ [x]))" if "?I ys u" for u
    proof -
      have a: "unpinned r L R (length ys) ?a = 0" using st(1) tb(5) x len by simp
      have "if r then card {b. unpinned r L R (length ys) b \<noteq> 0} + 1 < NBUF
          else unpinned r L R (length ys) ?b \<noteq> 0 \<and> card {b. unpinned r L R (length ys) b \<noteq> 0} < NBUF"
        using st(2) [unfolded len, OF x(2)] x(1) by (simp only: length_upt diff_zero)
      from copy_home_rule [OF that ab a this] show ?thesis
        using x len V by (simp add: home_writes_Suc unpinned_Suc)
    qed
    have "runs (whenM r (printk_msg ''recovering tail %d dst %d'' [int x, sint ?b])) t (\<lambda>_ u. ?I ys u)"
      using I by (auto intro: printk_step)
    then have "runs (whenM r (printk_msg ''recovering tail %d dst %d'' [int x, sint ?b])) t (\<lambda>_ u.
        runs (log_blockno (x + 1)) u (\<lambda>src u. runs (copy_home r d src ?b) u (\<lambda>_. ?I (ys @ [x]))))"
      by (rule runs_mono) (use step in \<open>auto simp: log_simps lblk_def simp del: length_append\<close>)
    then show "runs (?f x) t (\<lambda>_. ?I (ys @ [x]))"
      unfolding runs_bnd log_simps(4) [OF I tb(1)] log_simps(1) [OF I] tb(2) dev .
  qed (use l in \<open>simp add: home_writes_def unpinned_def\<close>)
  then show ?thesis unfolding w runs_bnd log_simps(2) [OF l] n_def by simp
qed

subsection \<open>The header\<close>

text \<open>The header block of a log with \<open>n\<close> blocks.\<close>

definition head_block :: "nat \<Rightarrow> u32 list \<Rightarrow> block \<Rightarrow> block" where
  "head_block n bs h = fold (\<lambda>i h. wr32 h (4 + 4 * i) (bs ! i)) [0..<n] (wr32 h 0 (of_nat n))"

lemma head_block_props:
  assumes "length h = BSIZE" "n \<le> LOGBLOCKS"
  shows "length (head_block n bs h) = BSIZE \<and> rd32 (head_block n bs h) 0 = of_nat n
    \<and> (\<forall>i<n. rd32 (head_block n bs h) (4 + 4 * i) = bs ! i)"
proof -
  have "m \<le> n \<Longrightarrow> length (fold (\<lambda>i h. wr32 h (4 + 4 * i) (bs ! i)) [0..<m] (wr32 h 0 (of_nat n))) = BSIZE
    \<and> rd32 (fold (\<lambda>i h. wr32 h (4 + 4 * i) (bs ! i)) [0..<m] (wr32 h 0 (of_nat n))) 0 = of_nat n
    \<and> (\<forall>i<m. rd32 (fold (\<lambda>i h. wr32 h (4 + 4 * i) (bs ! i)) [0..<m] (wr32 h 0 (of_nat n))) (4 + 4 * i) = bs ! i)" for m
  proof (induction m)
    case 0
    then show ?case using assms by (simp add: BSIZE_def)
  next
    case (Suc m)
    let ?h = "fold (\<lambda>i h. wr32 h (4 + 4 * i) (bs ! i)) [0..<m] (wr32 h 0 (of_nat n))"
    have b: "4 + 4 * m + 4 \<le> BSIZE" using Suc.prems assms(2) by (simp add: BSIZE_def LOGBLOCKS_def MAXOPBLOCKS_def)
    have IH: "length ?h = BSIZE" "rd32 ?h 0 = of_nat n" "\<forall>i<m. rd32 ?h (4 + 4 * i) = bs ! i"
      using Suc by auto
    have "rd32 (wr32 ?h (4 + 4 * m) (bs ! m)) (4 + 4 * i) = bs ! i" if "i < Suc m" for i
    proof (cases "i = m")
      case True
      then show ?thesis using b IH(1) by simp
    next
      case False
      then show ?thesis using b IH that by (subst rd32_wr32_other) auto
    qed
    then show ?case using b IH by (simp add: rd32_wr32_other)
  qed
  from this [of n] show ?thesis by (simp add: head_block_def)
qed

lemma lst_set_lh_block:
  "lst d pid H V R D T L s \<Longrightarrow> i < length (lh_block L) \<Longrightarrow>
   runs (set_lh_block i v) s (\<lambda>_. lst d pid H V R D T (L\<lparr>lh_block := (lh_block L)[i := v]\<rparr>))"
  using lst_log [of d pid H V R D T L s "\<lambda>l. l\<lparr>lh_block := (lh_block l)[i := v]\<rparr>"]
  by (simp add: set_lh_block_def log_simps upd_log_def)

lemma write_head_rule:
  assumes l: "lst d pid Map.empty V R D T L s" and n: "lh_n L = int n" "n \<le> length (lh_block L)"
    and h: "l_dev L = d" "R (lblk L 0) = 0" "card {b. R b \<noteq> 0} < NBUF"
  defines "h' \<equiv> head_block n (lh_block L) (V (lblk L 0))"
  shows "runs write_head s (\<lambda>_. lst d pid Map.empty (V(lblk L 0 := h')) R (D(lblk L 0 := h')) (T @ [(lblk L 0, h')]) L)"
proof -
  let ?a = "lblk L 0" and ?R = "R(lblk L 0 := R (lblk L 0) + 1)"
  let ?g = "\<lambda>h i. wr32 h (4 + 4 * i) (lh_block L ! i)"
  let ?w = "\<lambda>k. fold (\<lambda>i h. ?g h i) [0..<k] (wr32 (V ?a) 0 (of_int (lh_n L)))"
  have b: "runs (bwrite i) t (\<lambda>_ t. runs (brelse i) t (\<lambda>_. lst d pid Map.empty (V(?a := h')) R (D(?a := h')) (T @ [(?a, h')]) L))"
    if "lst d pid [i \<mapsto> ?a] (V(?a := h')) ?R D T L t" for i t
    by (rule bwrite_step [OF that], simp, erule brelse_step, simp, simp, erule lst_eq) (use h(2) in auto)
  have loop: "runs (forM [0..<n] (\<lambda>j. bnd (get_lh_block j) (\<lambda>v. upd_buf i (\<lambda>x. x\<lparr>b_data := wr32 (b_data x) (4 + 4 * j) v\<rparr>)))) t
      (\<lambda>_. lst d pid [i \<mapsto> ?a] (V(?a := ?w (length [0..<n]))) ?R D T L)"
    if "lst d pid [i \<mapsto> ?a] (V(?a := wr32 (V ?a) 0 (of_int (lh_n L)))) ?R D T L t" for i t
  proof (rule runs_forM [where I = "\<lambda>ys. lst d pid [i \<mapsto> ?a] (V(?a := ?w (length ys))) ?R D T L"])
    fix ys x zs t
    assume "[0..<n] = ys @ x # zs" and I: "lst d pid [i \<mapsto> ?a] (V(?a := ?w (length ys))) ?R D T L t"
    from upt_split [OF this(1)] have x: "ys = [0..<x]" "x < n" by auto
    have xb: "x < length (lh_block L)" using x n by simp
    have "b_data (bufs t i) = ?w x" using lst_held(4) [OF I, of i ?a] x(1) by simp
    then show "runs (bnd (get_lh_block x) (\<lambda>v. upd_buf i (\<lambda>y. y\<lparr>b_data := wr32 (b_data y) (4 + 4 * x) v\<rparr>))) t
        (\<lambda>_. lst d pid [i \<mapsto> ?a] (V(?a := ?w (length (ys @ [x])))) ?R D T L)"
      unfolding runs_bnd log_simps(4) [OF I xb]
      by (intro set_data_step [where bn = ?a and v = "?g (?w x) x", OF I]) (simp_all add: x(1))
  qed (use that in simp)
  have nn: "nat (lh_n L) = n" by (simp add: n)
  have w: "?w n = h'" by (simp add: h'_def head_block_def n)
  show ?thesis
    unfolding write_head_def runs_bnd log_simps(1,3) [OF l] h(1)
  proof (fold lblk_def, rule bread_step [OF l], goal_cases)
    case (3 i t)
    have "b_data (bufs t i) = V ?a" using lst_held(4) [OF 3(2), of i ?a] by simp
    then show ?case
      unfolding log_simps(1) [OF 3(2)] nn
      by (intro set_data_step [where bn = ?a and v = "wr32 (V ?a) 0 (of_int (lh_n L))", OF 3(2)], simp, simp)
        (rule runs_mono [OF loop], assumption, rule b, simp add: w)
  qed (use h in auto)
qed

text \<open>The blocks that \<^verbatim>\<open>read_head\<close> finds.\<close>

definition head_count :: "block \<Rightarrow> nat" where
  "head_count h = nat (sint (rd32 h 0))"

definition head_list :: "block \<Rightarrow> u32 list" where
  "head_list h = map (\<lambda>i. rd32 h (4 + 4 * i)) [0..<head_count h]"

definition read_blocks :: "block \<Rightarrow> nat \<Rightarrow> u32 list \<Rightarrow> u32 list" where
  "read_blocks h n bl = fold (\<lambda>i bl. bl[i := rd32 h (4 + 4 * i)]) [0..<n] bl"

lemma read_blocks_props: "n \<le> length bl \<Longrightarrow> length (read_blocks h n bl) = length bl \<and>
    take n (read_blocks h n bl) = map (\<lambda>i. rd32 h (4 + 4 * i)) [0..<n]"
proof (induction n)
  case (Suc n)
  then show ?case by (simp add: read_blocks_def take_Suc_conv_app_nth)
qed (simp add: read_blocks_def)

lemma read_head_rule:
  assumes l: "lst d pid Map.empty V R D T L s"
    and h: "l_dev L = d" "R (lblk L 0) = 0" "card {b. R b \<noteq> 0} < NBUF" "head_count (V (lblk L 0)) \<le> length (lh_block L)"
  defines "hb \<equiv> V (lblk L 0)"
  shows "runs read_head s (\<lambda>_. lst d pid Map.empty V R D T
    (L\<lparr>lh_n := sint (rd32 hb 0), lh_block := read_blocks hb (head_count hb) (lh_block L)\<rparr>))"
proof -
  let ?a = "lblk L 0" and ?R = "R(lblk L 0 := R (lblk L 0) + 1)" and ?n = "head_count hb"
  let ?I = "\<lambda>i (ys :: nat list). lst d pid [i \<mapsto> ?a] V ?R D T (L\<lparr>lh_n := sint (rd32 hb 0), lh_block := read_blocks hb (length ys) (lh_block L)\<rparr>)"
  have loop: "runs (forM [0..<?n] (\<lambda>j. set_lh_block j (rd32 hb (4 + 4 * j)))) t (\<lambda>_. ?I i [0..<?n])"
    if "?I i [] t" for i t
  proof (rule runs_forM [where I = "?I i"])
    fix ys x zs t
    assume "[0..<?n] = ys @ x # zs" and I: "?I i ys t"
    from upt_split [OF this(1)] have x: "ys = [0..<x]" "x < ?n" by auto
    then have "x < length (lh_block L)" "x \<le> length (lh_block L)" using h(4) by (auto simp: hb_def)
    with lst_set_lh_block [OF I, of x "rd32 hb (4 + 4 * x)"] read_blocks_props [of x "lh_block L" hb]
    show "runs (set_lh_block x (rd32 hb (4 + 4 * x))) t (\<lambda>_. ?I i (ys @ [x]))"
      by (simp add: x(1) read_blocks_def)
  qed (rule that)
  show ?thesis
    unfolding read_head_def runs_bnd log_simps(1,3) [OF l] h(1)
  proof (fold lblk_def, rule bread_step [OF l], goal_cases)
    case (3 i t)
    note t = this(2)
    show ?case
    proof (rule get_data_rule [where bn = ?a, OF t], goal_cases)
      case 2
      show ?case
      proof (fold hb_def, rule upd_log_step [OF t], goal_cases)
        case (1 u)
        have I: "?I i [] u" using 1 by (simp add: read_blocks_def)
        have "runs (forM [0..<?n] (\<lambda>j. set_lh_block j (rd32 hb (4 + 4 * j)))) u (\<lambda>_ t. runs (brelse i) t
            (\<lambda>_. lst d pid Map.empty V R D T (L\<lparr>lh_n := sint (rd32 hb 0), lh_block := read_blocks hb ?n (lh_block L)\<rparr>)))"
          by (rule runs_mono [OF loop [OF I, unfolded length_upt diff_zero]], rule brelse_step, assumption, simp, simp add: h(2) lst_clean [OF l h(2)],
              erule lst_eq) (use h(2) in auto)
        then show ?case unfolding log_simps(2) [OF 1] by (simp add: head_count_def)
      qed
    qed simp
  qed (use h in auto)
qed

subsection \<open>Commit and recovery\<close>

definition commit_writes :: "(u32 \<Rightarrow> block) \<Rightarrow> log \<Rightarrow> (u32 \<times> block) list" where
  "commit_writes V L =
     (let n = nat (lh_n L); h1 = head_block n (lh_block L) (V (lblk L 0))
      in log_writes V L n @ [(lblk L 0, h1)] @ map (\<lambda>b. (b, V b)) (tx_blocks L) @ [(lblk L 0, wr32 h1 0 0)])"

lemma lblk_lh [simp]: "lblk (L\<lparr>lh_n := n\<rparr>) = lblk L" "lblk (L\<lparr>lh_block := bl\<rparr>) = lblk L" "lblks (L\<lparr>lh_n := n\<rparr>) = lblks L"
  "lblks (L\<lparr>lh_block := bl\<rparr>) = lblks L"
  by (simp_all add: lblk_def lblks_def fun_eq_iff)

lemma lblk0: "lblk L 0 \<in> lblks L"
  by (simp add: lblks_def)

lemma lblk_eq: "log_geom L \<Longrightarrow> i \<le> LOGBLOCKS \<Longrightarrow> j \<le> LOGBLOCKS \<Longrightarrow> lblk L i = lblk L j \<longleftrightarrow> i = j"
  using inj_on_eq_iff [of "lblk L" "{0..LOGBLOCKS}" i j] by (simp add: log_geom_def)

lemma log_writes_at:
  assumes "log_geom L" "i < k" "k \<le> nat (lh_n L)"
  shows "dapply D (log_writes V L k) (lblk L (i + 1)) = V (tx_blocks L ! i)"
  using assms(2,3)
proof (induction k)
  case (Suc k)
  have "lblk L (i + 1) = lblk L (k + 1) \<longleftrightarrow> i = k"
    using lblk_eq [OF assms(1)] Suc.prems assms(1) by (simp add: log_geom_def)
  then show ?case using Suc by (auto simp: log_writes_Suc less_Suc_eq)
qed simp

lemma log_writes_head: "log_geom L \<Longrightarrow> k \<le> nat (lh_n L) \<Longrightarrow> dapply D (log_writes V L k) (lblk L 0) = D (lblk L 0)"
proof (rule dapply_other)
  assume g: "log_geom L" "k \<le> nat (lh_n L)"
  have "lblk L 0 \<noteq> lblk L (i + 1)" if "i < k" for i
    using lblk_eq [OF g(1), of 0 "i + 1"] that g by (simp add: log_geom_def)
  then show "lblk L 0 \<notin> fst ` set (log_writes V L k)" by (fastforce simp: log_writes_def)
qed

lemma home_writes_commit:
  assumes g: "log_geom L"
  shows "home_writes ((dapply V (log_writes V L (nat (lh_n L))))(lblk L 0 := h)) L (nat (lh_n L)) = map (\<lambda>b. (b, V b)) (tx_blocks L)"
proof -
  let ?n = "nat (lh_n L)"
  have len: "length (tx_blocks L) = ?n" using g by (simp add: log_geom_def tx_blocks_def)
  have "((dapply V (log_writes V L ?n))(lblk L 0 := h)) (lblk L (i + 1)) = V (tx_blocks L ! i)" if "i < ?n" for i
  proof -
    have "lblk L (i + 1) \<noteq> lblk L 0" using lblk_eq [OF g] g that by (simp add: log_geom_def)
    then show ?thesis using log_writes_at [OF g that] by simp
  qed
  then show ?thesis by (intro nth_equalityI) (simp_all add: home_writes_def len del: fun_upd_apply)
qed

lemma commit_rule:
  assumes l: "lst d pid Map.empty V R D T L s" and g: "log_geom L" and p: "pinned L R" and dev: "l_dev L = d" and n: "0 < lh_n L"
  shows "runs commit s (\<lambda>_. lst d pid Map.empty (dapply V (commit_writes V L)) (unpinned False L R (nat (lh_n L)))
    (dapply D (commit_writes V L)) (T @ commit_writes V L) (L\<lparr>lh_n := 0\<rparr>))"
proof -
  let ?n = "nat (lh_n L)" and ?a = "lblk L 0"
  let ?V1 = "dapply V (log_writes V L ?n)" and ?D1 = "dapply D (log_writes V L ?n)"
  let ?h1 = "head_block ?n (lh_block L) (V ?a)"
  let ?hw = "map (\<lambda>b. (b, V b)) (tx_blocks L)"
  have va: "?V1 ?a = V ?a" by (rule log_writes_head [OF g]) simp
  have R0: "R ?a = 0" "card {b. R b \<noteq> 0} < NBUF" using p lblk0 [of L] by (auto simp: pinned_def)
  have len: "length (tx_blocks L) = ?n" "?n \<le> length (lh_block L)" using g by (auto simp: log_geom_def tx_blocks_def)
  have wh: "runs write_head t (\<lambda>_. lst d pid Map.empty (?V1(?a := ?h1)) R (?D1(?a := ?h1)) (T @ log_writes V L ?n @ [(?a, ?h1)]) L)"
    if "lst d pid Map.empty ?V1 R ?D1 (T @ log_writes V L ?n) L t" for t
    using write_head_rule [OF that, of ?n] n len dev R0 by (simp add: va)
  have it: "runs (install_trans False) t (\<lambda>_. lst d pid Map.empty (dapply (?V1(?a := ?h1)) ?hw) (unpinned False L R ?n)
      (dapply (?D1(?a := ?h1)) ?hw) (T @ log_writes V L ?n @ [(?a, ?h1)] @ ?hw) L)"
    if "lst d pid Map.empty (?V1(?a := ?h1)) R (?D1(?a := ?h1)) (T @ log_writes V L ?n @ [(?a, ?h1)]) L t" for t
    using install_trans_rule [OF that g _ dev, of False] p by (simp add: installable_def home_writes_commit [OF g])
  have ha: "dapply (?V1(?a := ?h1)) ?hw ?a = ?h1"
    using g lblk0 [of L] by (subst dapply_other) (auto simp: log_geom_def)
  have Rn: "unpinned False L R ?n ?a = 0" "card {b. unpinned False L R ?n b \<noteq> 0} < NBUF"
  proof -
    have "card {b. unpinned False L R ?n b \<noteq> 0} \<le> card {b. R b \<noteq> 0}" by (rule card_mono) (auto simp: unpinned_def)
    then show "card {b. unpinned False L R ?n b \<noteq> 0} < NBUF" using R0 by simp
  qed (use R0 in \<open>simp add: unpinned_def\<close>)
  have h0: "head_block 0 bl h = wr32 h 0 0" for bl h by (simp add: head_block_def)
  have w2: "runs write_head t (\<lambda>_. lst d pid Map.empty (dapply V (commit_writes V L)) (unpinned False L R ?n)
      (dapply D (commit_writes V L)) (T @ commit_writes V L) (L\<lparr>lh_n := 0\<rparr>))"
    if "lst d pid Map.empty (dapply (?V1(?a := ?h1)) ?hw) (unpinned False L R ?n)
      (dapply (?D1(?a := ?h1)) ?hw) (T @ log_writes V L ?n @ [(?a, ?h1)] @ ?hw) (L\<lparr>lh_n := 0\<rparr>) t" for t
    using write_head_rule [OF that, of 0] dev Rn ha by (simp add: h0 commit_writes_def Let_def)
  show ?thesis
    unfolding commit_def runs_bnd log_simps(1) [OF l] runs_whenM if_P [OF n]
    by (intro runs_mono [OF write_log_rule [OF l g p dev]], intro runs_mono [OF wh], assumption,
        intro runs_mono [OF it], assumption, rule upd_log_step, assumption, rule w2)
qed

text \<open>What recovery does to a disk: it installs the blocks that the header lists and clears the header.\<close>

definition recovered :: "log \<Rightarrow> (u32 \<Rightarrow> block) \<Rightarrow> (u32 \<Rightarrow> block)" where
  "recovered L V =
     (let h = V (lblk L 0); bs = head_list h
      in (dapply V (map (\<lambda>i. (bs ! i, V (lblk L (i + 1)))) [0..<length bs]))(lblk L 0 := wr32 h 0 0))"

definition head_ok :: "log \<Rightarrow> block \<Rightarrow> bool" where
  "head_ok L h \<longleftrightarrow> head_count h \<le> LOGBLOCKS \<and> set (head_list h) \<inter> lblks L = {}"

lemma recover_rule:
  assumes l: "lst d pid Map.empty V (\<lambda>_. 0) V T L s" and dev: "l_dev L = d" and len: "length (lh_block L) = LOGBLOCKS"
    and inj: "inj_on (lblk L) {0..LOGBLOCKS}" and hd: "head_ok L (V (lblk L 0))"
  shows "runs recover_from_log s (\<lambda>_ t. \<exists>T' L'. lst d pid Map.empty (recovered L V) (\<lambda>_. 0) (recovered L V) T' L' t
    \<and> lh_n L' = 0 \<and> l_start L' = l_start L \<and> l_dev L' = d \<and> length (lh_block L') = LOGBLOCKS
    \<and> l_outstanding L' = l_outstanding L \<and> l_committing L' = l_committing L)"
proof -
  let ?a = "lblk L 0" and ?h = "V (lblk L 0)"
  let ?n = "head_count ?h"
  let ?L = "L\<lparr>lh_n := sint (rd32 ?h 0), lh_block := read_blocks ?h ?n (lh_block L)\<rparr>"
  have rb: "length (read_blocks ?h ?n (lh_block L)) = LOGBLOCKS" "take ?n (read_blocks ?h ?n (lh_block L)) = head_list ?h"
    using read_blocks_props [of ?n "lh_block L" ?h] len hd by (simp_all add: head_ok_def head_list_def)
  have tb: "tx_blocks ?L = head_list ?h" "nat (lh_n ?L) = ?n" "length (head_list ?h) = ?n"
    using rb(2) by (simp_all add: tx_blocks_def head_count_def head_list_def)
  have g: "log_geom ?L" using hd inj rb(1) tb by (simp add: log_geom_def head_ok_def)
  let ?V = "dapply V (home_writes V ?L ?n)"
  have va: "?V ?a = ?h" using home_writes_inside [OF g, of ?n ?a V V] lblk0 [of L] tb(2) by simp
  have c: "(0::nat) + 1 < NBUF" "(0::nat) < NBUF" by (simp_all add: NBUF_def MAXOPBLOCKS_def)
  have u: "unpinned True ?L (\<lambda>_. 0) ?n = (\<lambda>_. 0)" by (simp add: unpinned_def)
  have rec: "recovered L V = ?V(?a := wr32 ?h 0 0)"
    using tb by (simp add: recovered_def Let_def home_writes_def)
  have rh: "runs read_head s (\<lambda>_. lst d pid Map.empty V (\<lambda>_. 0) V T ?L)"
    using read_head_rule [OF l dev] len hd c by (simp add: head_ok_def)
  have it: "runs (install_trans True) t (\<lambda>_. lst d pid Map.empty ?V (\<lambda>_. 0) ?V (T @ home_writes V ?L ?n) ?L)"
    if "lst d pid Map.empty V (\<lambda>_. 0) V T ?L t" for t
    using install_trans_rule [OF that g, of True] dev c tb(2) u by (simp add: installable_def)
  have wh: "runs write_head t (\<lambda>_. lst d pid Map.empty (recovered L V) (\<lambda>_. 0) (recovered L V)
      ((T @ home_writes V ?L ?n) @ [(?a, wr32 ?h 0 0)]) (?L\<lparr>lh_n := 0\<rparr>))"
    if "lst d pid Map.empty ?V (\<lambda>_. 0) ?V (T @ home_writes V ?L ?n) (?L\<lparr>lh_n := 0\<rparr>) t" for t
    using write_head_rule [OF that, of 0] dev c va by (simp add: rec head_block_def)
  show ?thesis
    unfolding recover_from_log_def runs_bnd
    by (rule runs_mono [OF rh], rule runs_mono [OF it], assumption, rule upd_log_step, assumption,
        rule runs_mono [OF wh], assumption, intro exI conjI, assumption) (use dev rb(1) in simp_all)
qed

subsection \<open>Every crash point\<close>

lemma dapply_map: "dapply D (map (\<lambda>b. (b, f b)) bs) b = (if b \<in> set bs then f b else D b)"
  by (induction bs arbitrary: D) auto

lemma dapply_pairs:
  "length bs = length vs \<Longrightarrow> (\<And>i. i < length bs \<Longrightarrow> vs ! i = f (bs ! i)) \<Longrightarrow>
   map (\<lambda>i. (bs ! i, vs ! i)) [0..<length bs] = map (\<lambda>b. (b, f b)) bs"
  by (intro nth_equalityI) simp_all

lemma recovered_empty:
  "rd32 (V (lblk L 0)) 0 = 0 \<Longrightarrow> b \<notin> lblks L \<Longrightarrow> recovered L V b = V b \<and> head_ok L (V (lblk L 0))"
  using lblk0 [of L] by (auto simp: recovered_def Let_def head_list_def head_count_def head_ok_def)

text \<open>The outcome of recovery after a crash that let \<open>k\<close> writes of the commit reach the disk.\<close>

definition outcome :: "(u32 \<Rightarrow> block) \<Rightarrow> (u32 \<Rightarrow> block) \<Rightarrow> log \<Rightarrow> nat \<Rightarrow> (u32 \<Rightarrow> block)" where
  "outcome D V L k = (\<lambda>b. if nat (lh_n L) < k \<and> b \<in> set (tx_blocks L) then V b else D b)"

lemma sint_of_nat_small: "n < 2 ^ 31 \<Longrightarrow> sint (of_nat n :: u32) = int n"
  by (simp add: signed_of_nat signed_take_bit_int_eq_self)

lemma crash_outcome:
  fixes k :: nat
  assumes g: "log_geom L" and n: "0 < lh_n L" and e: "rd32 (D (lblk L 0)) 0 = 0" and hv: "V (lblk L 0) = D (lblk L 0)"
    and len: "length (D (lblk L 0)) = BSIZE" and b: "b \<notin> lblks L"
  defines "C \<equiv> dapply D (take k (commit_writes V L))"
  shows "recovered L C b = outcome D V L k b \<and> head_ok L (C (lblk L 0)) \<and> length (C (lblk L 0)) = BSIZE"
proof -
  let ?n = "nat (lh_n L)" and ?a = "lblk L 0" and ?tx = "tx_blocks L"
  let ?h1 = "head_block ?n (lh_block L) (V ?a)"
  let ?hw = "map (\<lambda>b. (b, V b)) ?tx"
  have W: "commit_writes V L = log_writes V L ?n @ (?a, ?h1) # ?hw @ [(?a, wr32 ?h1 0 0)]"
    by (simp add: commit_writes_def Let_def)
  have ln: "length (log_writes V L ?n) = ?n" "length ?tx = ?n" "?n \<le> LOGBLOCKS"
    using g by (auto simp: log_writes_def log_geom_def tx_blocks_def)
  have h1: "length ?h1 = BSIZE" "rd32 ?h1 0 = of_nat ?n" "\<forall>i<?n. rd32 ?h1 (4 + 4 * i) = lh_block L ! i"
    using head_block_props [of "V ?a" ?n "lh_block L"] hv len ln(3) by auto
  have tx: "?a \<notin> set ?tx" "set ?tx \<inter> lblks L = {}" "b \<noteq> ?a" using g lblk0 [of L] b by (auto simp: log_geom_def)
  consider "k \<le> ?n" | j where "k = ?n + Suc j" "j \<le> ?n" | "k \<ge> 2 * ?n + 2"
  proof -
    have "k = ?n + Suc (k - ?n - 1) \<and> k - ?n - 1 \<le> ?n" if "\<not> k \<le> ?n" "\<not> 2 * ?n + 2 \<le> k" using that by simp
    then show ?thesis using that by blast
  qed
  then show ?thesis
  proof cases
    case 1
    then have C: "C = dapply D (log_writes V L k)" unfolding C_def W using ln(1)
      by (simp add: log_writes_def take_map)
    have "C ?a = D ?a" "C b = D b" unfolding C
      using log_writes_head [OF g 1, of D V] log_writes_outside [OF g 1 b, of D V] by auto
    then show ?thesis using recovered_empty [of C L b] e b 1 len by (simp add: outcome_def)
  next
    case (2 j)
    let ?D1 = "(dapply D (log_writes V L ?n))(?a := ?h1)"
    have C: "C = dapply ?D1 (map (\<lambda>b. (b, V b)) (take j ?tx))" unfolding C_def W 2(1) using ln 2(2)
      by (simp add: take_map)
    have Ca: "C ?a = ?h1" unfolding C dapply_map using tx(1) by (auto dest: in_set_takeD)
    have "head_count ?h1 = ?n" using h1(2) ln(3)
      by (simp add: head_count_def LOGBLOCKS_def MAXOPBLOCKS_def sint_of_nat_small)
    then have hl: "head_list ?h1 = ?tx" using h1(3) ln(2) g
      by (intro nth_equalityI) (simp_all add: head_list_def tx_blocks_def)
    have lv: "C (lblk L (i + 1)) = V (?tx ! i)" if "i < ?n" for i
    proof -
      have "lblk L (i + 1) \<notin> set ?tx" "lblk L (i + 1) \<noteq> ?a"
        using tx_blocks_nth(5) [OF g that] tx(2) lblk_eq [OF g, of "i + 1" 0] that ln(3) by auto
      then show ?thesis unfolding C dapply_map using log_writes_at [OF g that, of D V] by (auto dest: in_set_takeD)
    qed
    have "map (\<lambda>i. (?tx ! i, C (lblk L (i + 1)))) [0..<length ?tx] = ?hw"
      using lv ln(2) by (intro nth_equalityI) simp_all
    then have "recovered L C b = (if b \<in> set ?tx then V b else C b)"
      unfolding recovered_def Let_def Ca hl using tx(3) by (simp add: dapply_map)
    moreover have "C b = D b" if "b \<notin> set ?tx"
      unfolding C dapply_map using that tx(3) log_writes_outside [OF g _ b, of ?n D V] by (auto dest: in_set_takeD)
    ultimately show ?thesis using 2 Ca hl \<open>head_count ?h1 = ?n\<close> ln(3) tx(2) h1(1) by (auto simp: outcome_def head_ok_def)
  next
    case 3
    then have "take k (commit_writes V L) = commit_writes V L" unfolding W using ln by simp
    then have C: "C = (dapply ((dapply D (log_writes V L ?n))(?a := ?h1)) ?hw)(?a := wr32 ?h1 0 0)"
      unfolding C_def W by simp
    have "rd32 (C ?a) 0 = 0" unfolding C using h1(1) by (simp add: BSIZE_def)
    moreover have "C b = (if b \<in> set ?tx then V b else D b)"
      unfolding C using tx(3) log_writes_outside [OF g _ b, of ?n D V] by (simp add: dapply_map)
    moreover have "length (C ?a) = BSIZE" unfolding C using h1(1) by (simp add: BSIZE_def)
    ultimately show ?thesis using recovered_empty [of C L b] b 3 n by (simp add: outcome_def)
  qed
qed

end
