(* ===== verification/Log_Atomic.thy ===== *)
theory Log_Atomic
  imports Log_Crash
begin

text \<open>
  Transactions.  \<open>transaction\<close> is the use of the log that the comment of \<^verbatim>\<open>log_write\<close> in
  \<^verbatim>\<open>kernel/log.c\<close> prescribes: between \<^verbatim>\<open>begin_op\<close> and \<^verbatim>\<open>end_op\<close>, each block is read, modified,
  handed to \<^verbatim>\<open>log_write\<close> and released.  The theorem of this theory is that such a transaction is
  atomic with respect to crashes.
\<close>

definition tx_write :: "u32 \<Rightarrow> u32 \<times> block \<Rightarrow> ('z lkernel_scheme, unit) kM" where
  "tx_write dev w =
     bnd (bread dev (fst w)) (\<lambda>bp.
     bnd (upd_buf bp (\<lambda>b. b\<lparr>b_data := snd w\<rparr>)) (\<lambda>_.
     bnd (log_write bp) (\<lambda>_.
     brelse bp)))"

definition transaction :: "u32 \<Rightarrow> (u32 \<times> block) list \<Rightarrow> ('z lkernel_scheme, unit) kM" where
  "transaction dev ws = bnd begin_op (\<lambda>_. bnd (forM ws (tx_write dev)) (\<lambda>_. end_op))"

subsection \<open>Log absorption\<close>

lemma absorb_shift: "absorb xs b k = k + absorb xs b 0"
proof (induction xs arbitrary: k)
  case (Cons x xs)
  show ?case using Cons.IH [of "Suc k"] Cons.IH [of "Suc 0"] by simp
qed simp

lemma absorb_props:
  "absorb xs b 0 \<le> length xs" "b \<in> set xs \<Longrightarrow> absorb xs b 0 < length xs \<and> xs ! absorb xs b 0 = b"
  "b \<notin> set xs \<Longrightarrow> absorb xs b 0 = length xs"
  by (induction xs) (auto simp: absorb_shift [of _ _ "Suc 0"])

text \<open>The log structure after \<^verbatim>\<open>log_write\<close> of block \<open>bn\<close>.\<close>

definition logged :: "u32 \<Rightarrow> log \<Rightarrow> log" where
  "logged bn L = (if bn \<in> set (tx_blocks L) then L
     else L\<lparr>lh_block := (lh_block L)[nat (lh_n L) := bn], lh_n := lh_n L + 1\<rparr>)"

definition log_room :: "log \<Rightarrow> bool" where
  "log_room L \<longleftrightarrow> 0 \<le> lh_n L \<and> lh_n L < int LOGBLOCKS \<and> length (lh_block L) = LOGBLOCKS \<and> 1 \<le> l_outstanding L"

lemma tx_blocks_logged:
  assumes "log_room L"
  shows "tx_blocks (logged bn L) = (if bn \<in> set (tx_blocks L) then tx_blocks L else tx_blocks L @ [bn])"
proof -
  have "nat (lh_n L) < length (lh_block L)" "nat (lh_n L + 1) = Suc (nat (lh_n L))" using assms by (auto simp: log_room_def)
  then show ?thesis by (simp add: logged_def tx_blocks_def take_Suc_conv_app_nth)
qed

lemma log_write_step:
  assumes l: "lst d pid H V R D T L s" and i: "H i = Some bn" and room: "log_room L" and r: "R bn < 2 ^ 31"
    and Q: "\<And>t. lst d pid H V (if bn \<in> set (tx_blocks L) then R else R(bn := R bn + 1)) D T (logged bn L) t \<Longrightarrow> Q () t"
  shows "runs (log_write i) s Q"
proof -
  let ?n = "nat (lh_n L)" and ?i = "absorb (tx_blocks L) bn 0"
  have n: "?n < length (lh_block L)" "int ?n = lh_n L" "length (tx_blocks L) = ?n"
    using room by (auto simp: log_room_def tx_blocks_def)
  note ab = absorb_props [where xs = "tx_blocks L" and b = bn]
  have ilen: "?i < length (lh_block L)" using ab(1) n by simp
  let ?L = "L\<lparr>lh_block := (lh_block L)[?i := bn]\<rparr>"
  have cont: "runs (whenM (int ?i = lh_n L) (bnd (bpin i) (\<lambda>_. upd_log (\<lambda>l. l\<lparr>lh_n := lh_n l + 1\<rparr>)))) t Q"
    if t: "lst d pid H V R D T ?L t" for t
  proof (cases "bn \<in> set (tx_blocks L)")
    case True
    then have "?i < ?n" "lh_block L ! ?i = bn" using ab(2) n by (auto simp: tx_blocks_def)
    then have "?L = L" "int ?i \<noteq> lh_n L" using n by (auto simp: list_update_same_conv)
    then show ?thesis using t Q True by (simp add: logged_def)
  next
    case False
    then have eq: "?i = ?n" using ab(3) n by simp
    have "?L\<lparr>lh_n := lh_n L + 1\<rparr> = logged bn L" using False eq by (simp add: logged_def)
    moreover have "runs (bnd (bpin i) (\<lambda>_. upd_log (\<lambda>l. l\<lparr>lh_n := lh_n l + 1\<rparr>))) t Q"
      unfolding runs_bnd
    proof (rule bpin_step [OF t i r], rule upd_log_step, assumption, goal_cases)
      case (1 u v)
      then show ?case using Q False \<open>?L\<lparr>lh_n := lh_n L + 1\<rparr> = logged bn L\<close> by simp
    qed
    ultimately show ?thesis unfolding runs_whenM using n(2) eq by simp
  qed
  have "runs (set_lh_block ?i bn) s (\<lambda>_ t. runs (whenM (int ?i = lh_n L) (bnd (bpin i) (\<lambda>_. upd_log (\<lambda>l. l\<lparr>lh_n := lh_n l + 1\<rparr>)))) t Q)"
    by (rule runs_mono [OF lst_set_lh_block [OF l ilen]]) (rule cont)
  then show ?thesis
    unfolding log_write_def runs_bnd log_simps(1) [OF l] using room
    by (simp add: log_room_def, intro get_blockno_rule [OF l i]) (simp add: Let_def tx_blocks_def)
qed

subsection \<open>The steps of a transaction\<close>

text \<open>No process is in the file system and nothing is cached but not on disk; the log is empty.\<close>

definition log_static :: "u32 \<Rightarrow> log \<Rightarrow> bool" where
  "log_static d L \<longleftrightarrow> l_dev L = d \<and> length (lh_block L) = LOGBLOCKS \<and> inj_on (lblk L) {0..LOGBLOCKS}"

definition fs_idle :: "u32 \<Rightarrow> u32 \<Rightarrow> 'z lkernel_scheme \<Rightarrow> bool" where
  "fs_idle d pid s \<longleftrightarrow> lst d pid Map.empty (disk s) (\<lambda>_. 0) (disk s) (dtrace s) (log s) s \<and> log_static d (log s)
     \<and> lh_n (log s) = 0 \<and> l_outstanding (log s) = 0 \<and> \<not> l_committing (log s)
     \<and> rd32 (disk s (lblk (log s) 0)) 0 = 0 \<and> length (disk s (lblk (log s) 0)) = BSIZE"

text \<open>The state of a transaction of \<open>k\<close> operations after the writes \<open>ws\<close> to blocks outside the log.\<close>

definition in_tx :: "u32 \<Rightarrow> u32 \<Rightarrow> (u32 \<Rightarrow> block) \<Rightarrow> (u32 \<times> block) list \<Rightarrow> int \<Rightarrow> int \<Rightarrow> (u32 \<times> block) list \<Rightarrow> 'z lkernel_scheme \<Rightarrow> bool" where
  "in_tx d pid D T st k ws s \<longleftrightarrow> (\<exists>L. lst d pid Map.empty (dapply D ws) (\<lambda>b. if b \<in> fst ` set ws then 1 else 0) D T L s
     \<and> log_static d L \<and> l_start L = st \<and> distinct (tx_blocks L) \<and> set (tx_blocks L) = fst ` set ws
     \<and> lh_n L = int (card (fst ` set ws)) \<and> l_outstanding L = k \<and> \<not> l_committing L)"

lemma log_static_logged: "log_static d L \<Longrightarrow> log_static d (logged bn L)"
  by (simp add: log_static_def logged_def)

lemma tx_write_step:
  assumes tx: "in_tx d pid D T st k ws s" and c': "card (fst ` set ws) < NBUF" and k: "1 \<le> k"
  shows "runs (tx_write d w) s (\<lambda>_. in_tx d pid D T st k (ws @ [w]))"
proof -
  obtain L where L: "lst d pid Map.empty (dapply D ws) (\<lambda>b. if b \<in> fst ` set ws then 1 else 0) D T L s"
    "log_static d L" "l_start L = st" "distinct (tx_blocks L)" "set (tx_blocks L) = fst ` set ws"
    "lh_n L = int (card (fst ` set ws))" "l_outstanding L = k" "\<not> l_committing L"
    using tx by (auto simp: in_tx_def)
  let ?R = "\<lambda>b. if b \<in> fst ` set ws then 1 else (0::nat)"
  have R: "{b. ?R b \<noteq> 0} = fst ` set ws" by auto
  have room: "log_room L"
    using L(2,6,7) c' k by (simp add: log_room_def log_static_def LOGBLOCKS_def NBUF_def)
  have cb: "?R (fst w) \<noteq> 0 \<or> card {b. ?R b \<noteq> 0} < NBUF" using c' R by simp
  have fin: "in_tx d pid D T st k (ws @ [w]) t"
    if "lst d pid Map.empty ((dapply D ws)(fst w := snd w)) (\<lambda>b. if b \<in> fst ` set (ws @ [w]) then 1 else 0) D T (logged (fst w) L) t" for t
  proof -
    have "set (tx_blocks (logged (fst w) L)) = fst ` set (ws @ [w])" "distinct (tx_blocks (logged (fst w) L))"
      using L(4,5) by (auto simp: tx_blocks_logged [OF room])
    moreover have "lh_n (logged (fst w) L) = int (card (fst ` set (ws @ [w])))"
      using L(5,6) by (simp add: logged_def insert_absorb)
    moreover have "dapply D (ws @ [w]) = (dapply D ws)(fst w := snd w)" by (cases w) simp
    ultimately show ?thesis
      unfolding in_tx_def using that L(2,3,7,8) by (intro exI [of _ "logged (fst w) L"]) (auto simp: logged_def log_static_def)
  qed
  show ?thesis
    unfolding tx_write_def runs_bnd
  proof (rule bread_step [OF L(1) _ cb], goal_cases)
    case (2 i t)
    show ?case
    proof (rule set_data_step [where bn = "fst w" and v = "snd w", OF 2(2)], goal_cases)
      case (3 u)
      show ?case
      proof (rule log_write_step [where bn = "fst w", OF 3 _ room], goal_cases)
        case (3 x)
        show ?case
          by (rule brelse_step [where bn = "fst w", OF 3], simp, use L(5) in \<open>simp split: if_splits\<close>, rule fin, erule lst_eq)
            (use L(5) in \<open>auto split: if_splits\<close>)
      qed (simp_all)
    qed simp_all
  qed simp
qed

lemma lst_procs:
  "lst d pid H V R D T L s \<Longrightarrow> (\<And>p. p_pid (P p) = p_pid (procs s p)) \<Longrightarrow> lst d pid H V R D T L (s\<lparr>procs := P\<rparr>)"
proof -
  assume l: "lst d pid H V R D T L s" and p: "\<And>p. p_pid (P p) = p_pid (procs s p)"
  have "cinv d pid s (dom H)" using l by (simp add: lst_def)
  then have "cinv d pid (s\<lparr>procs := P\<rparr>) (dom H)" using p by (simp add: cinv_def)
  moreover have "view d (s\<lparr>procs := P\<rparr>) = view d s" by (simp add: view_def fun_eq_iff split: option.split)
  ultimately show ?thesis using l by (simp add: lst_def)
qed

lemma wakeup_step:
  "lst d pid H V R D T L s \<Longrightarrow> (\<And>t. lst d pid H V R D T L t \<Longrightarrow> Q () t) \<Longrightarrow> runs (wakeup c) s Q"
  using lst_procs [of d pid H V R D T L s "wakeup_tab c (procs s)"]
  by (simp add: runs_def wakeup_eq wakeup_tab_def wakeup1_def Let_def)

lemma lblk_cong: "l_start L = l_start L' \<Longrightarrow> lblk L = lblk L' \<and> lblks L = lblks L'"
  by (simp add: lblk_def lblks_def fun_eq_iff)

lemma commit_disk:
  assumes "log_geom L" "b \<notin> lblks L"
  shows "dapply D (commit_writes V L) b = (if b \<in> set (tx_blocks L) then V b else D b)"
  using assms log_writes_outside [OF assms(1) _ assms(2), of "nat (lh_n L)" D V] lblk0 [of L]
  by (auto simp: commit_writes_def Let_def dapply_map)

lemma commit_header:
  assumes "log_geom L" "length (V (lblk L 0)) = BSIZE"
  shows "rd32 (dapply D (commit_writes V L) (lblk L 0)) 0 = 0 \<and> length (dapply D (commit_writes V L) (lblk L 0)) = BSIZE"
  using head_block_props [of "V (lblk L 0)" "nat (lh_n L)" "lh_block L"] assms
  by (simp add: commit_writes_def Let_def log_geom_def BSIZE_def)

lemma idle_in_tx: "fs_idle d pid s \<Longrightarrow> in_tx d pid (disk s) (dtrace s) (l_start (log s)) 0 [] s"
  unfolding in_tx_def fs_idle_def by (intro exI [of _ "log s"]) (simp add: tx_blocks_def)

lemma begin_op_step:
  assumes tx: "in_tx d pid D T st k [] s" and k: "0 \<le> k" "k < 3"
  shows "runs begin_op s (\<lambda>_. in_tx d pid D T st (k + 1) [])"
proof -
  obtain L where L: "lst d pid Map.empty D (\<lambda>_. 0) D T L s"
    "log_static d L" "l_start L = st" "tx_blocks L = []" "lh_n L = 0" "l_outstanding L = k" "\<not> l_committing L"
    using tx by (auto simp: in_tx_def)
  have "runs (upd_log (\<lambda>l. l\<lparr>l_outstanding := l_outstanding l + 1\<rparr>)) s (\<lambda>_. in_tx d pid D T st (k + 1) [])"
  proof (rule upd_log_step [OF L(1)])
    fix t
    let ?L = "L\<lparr>l_outstanding := l_outstanding L + 1\<rparr>"
    assume "lst d pid Map.empty D (\<lambda>_. 0) D T ?L t"
    moreover have "lblk ?L = lblk L" by (rule lblk_cong [THEN conjunct1]) simp
    ultimately show "in_tx d pid D T st (k + 1) [] t"
      unfolding in_tx_def using L
      by (intro exI [of _ ?L]) (simp add: log_static_def tx_blocks_def)
  qed
  then show ?thesis
    unfolding begin_op_def runs_bnd log_simps(1) [OF L(1)] using L k
    by (simp add: LOGBLOCKS_def MAXOPBLOCKS_def)
qed

lemma tx_writes_step:
  assumes "in_tx d pid D T st k [] s" and k: "1 \<le> k"
    and c: "\<And>ys x zs. ws = ys @ x # zs \<Longrightarrow> card (fst ` set ys) < NBUF"
  shows "runs (forM ws (tx_write d)) s (\<lambda>_. in_tx d pid D T st k ws)"
  by (rule runs_forM [where I = "in_tx d pid D T st k"], rule assms(1), rule tx_write_step) (use c k in auto)

text \<open>The writes that \<^verbatim>\<open>end_op\<close> makes for the transaction \<open>ws\<close>: those of a commit with some log
  structure that lists the blocks of \<open>ws\<close>.\<close>

definition tx_trace :: "u32 \<Rightarrow> (u32 \<Rightarrow> block) \<Rightarrow> int \<Rightarrow> (u32 \<times> block) list \<Rightarrow> (u32 \<times> block) list \<Rightarrow> bool" where
  "tx_trace d D st ws W \<longleftrightarrow> (if ws = [] then W = []
     else \<exists>L. W = commit_writes (dapply D ws) L \<and> log_geom L \<and> l_start L = st \<and> set (tx_blocks L) = fst ` set ws
       \<and> lh_n L = int (card (fst ` set ws)))"

lemma tx_geom:
  assumes "log_static d L" "set (tx_blocks L) \<inter> lblks L = {}" "lh_n L = int c" "c < NBUF"
  shows "log_geom L"
  using assms by (simp add: log_geom_def log_static_def NBUF_def LOGBLOCKS_def)

lemma count_distinct: "distinct xs \<Longrightarrow> count_list xs b = (if b \<in> set xs then 1 else 0)"
  by (induction xs) auto

lemma tx_pinned:
  assumes "distinct (tx_blocks L)" "set (tx_blocks L) = B" "B \<inter> lblks L = {}" "card B < NBUF" "length (tx_blocks L) = n"
  defines "R \<equiv> \<lambda>b. if b \<in> B then 1 else (0::nat)"
  shows "pinned L R" and "unpinned False L R n = (\<lambda>_. 0)"
proof -
  have cl: "count_list (tx_blocks L) b = R b" for b
    using count_distinct [OF assms(1)] assms(2) by (simp add: R_def)
  have "{b. R b \<noteq> 0} = B" by (auto simp: R_def)
  then show "pinned L R" using assms(3,4) cl by (auto simp: pinned_def R_def)
  show "unpinned False L R n = (\<lambda>_. 0)" using cl assms(5) by (simp add: unpinned_def)
qed

lemma end_op_step:
  assumes tx: "in_tx d pid D T st 1 ws s" and c: "card (fst ` set ws) < NBUF"
    and out: "fst ` set ws \<inter> lblks (log s) = {}" and h: "rd32 (D (lblk (log s) 0)) 0 = 0" "length (D (lblk (log s) 0)) = BSIZE"
  shows "runs end_op s (\<lambda>_ t. \<exists>W. dtrace t = T @ W \<and> tx_trace d D st ws W \<and> disk t = dapply D W \<and> fs_idle d pid t
    \<and> l_start (log t) = st \<and> (\<forall>b. b \<notin> lblks (log s) \<longrightarrow> disk t b = dapply D ws b))"
proof -
  obtain L where L: "lst d pid Map.empty (dapply D ws) (\<lambda>b. if b \<in> fst ` set ws then 1 else 0) D T L s"
    "log_static d L" "l_start L = st" "distinct (tx_blocks L)" "set (tx_blocks L) = fst ` set ws"
    "lh_n L = int (card (fst ` set ws))" "l_outstanding L = 1" "\<not> l_committing L"
    using tx by (auto simp: in_tx_def)
  have Ls: "log s = L" using L(1) by (simp add: lst_def)
  let ?L = "L\<lparr>l_outstanding := 0, l_committing := True\<rparr>"
  let ?R = "\<lambda>b. if b \<in> fst ` set ws then 1 else (0::nat)"
  let ?W = "if ws = [] then [] else commit_writes (dapply D ws) ?L"
  let ?Q = "\<lambda>t. lst d pid Map.empty (dapply D ?W) (\<lambda>_. 0) (dapply D ?W) (T @ ?W) (?L\<lparr>lh_n := 0\<rparr>) t"
  have lb: "lblk ?L = lblk L" "lblks ?L = lblks L" by (rule lblk_cong [THEN conjunct1], simp, rule lblk_cong [THEN conjunct2], simp)
  have tb: "tx_blocks ?L = tx_blocks L" by (simp add: tx_blocks_def)
  have st: "log_static d ?L" using L(2) lb by (simp add: log_static_def)
  have g: "log_geom ?L" by (rule tx_geom [OF st]) (use L out c lb tb Ls in auto)
  have len: "length (tx_blocks ?L) = nat (lh_n ?L)" using L(4-6) tb by (simp add: distinct_card [symmetric])
  have pin: "pinned ?L ?R" "unpinned False ?L ?R (nat (lh_n ?L)) = (\<lambda>_. 0)"
    by (rule tx_pinned [OF _ _ _ c len]; use L out lb tb Ls in auto)+
  have com: "runs commit t (\<lambda>_. ?Q)" if t: "lst d pid Map.empty (dapply D ws) ?R D T ?L t" for t
  proof (cases "ws = []")
    case True
    then have eq: "?L\<lparr>lh_n := 0\<rparr> = ?L" using L(6) by (cases L) simp
    show ?thesis using t True L(6) unfolding eq commit_def runs_bnd log_simps(1) [OF t] by simp
  next
    case False
    then have n: "0 < lh_n ?L" using L(6) by (simp add: card_gt_0_iff)
    have "runs commit t (\<lambda>_. lst d pid Map.empty (dapply (dapply D ws) ?W) (\<lambda>_. 0) (dapply D ?W) (T @ ?W) (?L\<lparr>lh_n := 0\<rparr>))"
      using commit_rule [OF t g pin(1) _ n] st pin(2) False by (simp add: log_static_def)
    then show ?thesis
    proof (rule runs_mono)
      fix x u
      assume u: "lst d pid Map.empty (dapply (dapply D ws) ?W) (\<lambda>_. 0) (dapply D ?W) (T @ ?W) (?L\<lparr>lh_n := 0\<rparr>) u"
      then have "dapply (dapply D ws) ?W = dapply D ?W" using lst_clean [OF u] by blast
      then show "?Q u" using u by simp
    qed
  qed
  have V0: "dapply D ws (lblk L 0) = D (lblk L 0)" using out lblk0 [of L] Ls by (intro dapply_other) auto
  have hd: "rd32 (dapply D ?W (lblk L 0)) 0 = 0 \<and> length (dapply D ?W (lblk L 0)) = BSIZE"
    using commit_header [OF g, of "dapply D ws" D] h V0 lb Ls by simp
  have fin: "\<exists>W. dtrace t = T @ W \<and> tx_trace d D st ws W \<and> disk t = dapply D W \<and> fs_idle d pid t
      \<and> l_start (log t) = st \<and> (\<forall>b. b \<notin> lblks (log s) \<longrightarrow> disk t b = dapply D ws b)"
    if t: "lst d pid Map.empty (dapply D ?W) (\<lambda>_. 0) (dapply D ?W) (T @ ?W) (?L\<lparr>lh_n := 0, l_committing := False, l_ncommit := n\<rparr>) t" for t n
  proof (intro exI conjI)
    let ?M = "?L\<lparr>lh_n := 0, l_committing := False, l_ncommit := n\<rparr>"
    have e: "disk t = dapply D ?W" "dtrace t = T @ ?W" "log t = ?M" using t by (simp_all add: lst_def)
    have lm: "lblk ?M = lblk L" by (rule lblk_cong [THEN conjunct1]) simp
    show "dtrace t = T @ ?W" "disk t = dapply D ?W" by (rule e)+
    show "tx_trace d D st ws ?W"
      unfolding tx_trace_def using g L(3,5,6) tb by (simp, intro impI exI [of _ ?L]) simp
    show "fs_idle d pid t"
      unfolding fs_idle_def e lm using t hd L(2) lm by (simp add: log_static_def)
    show "l_start (log t) = st" using e(3) L(3) by simp
    show "\<forall>b. b \<notin> lblks (log s) \<longrightarrow> disk t b = dapply D ws b"
    proof (intro allI impI)
      fix b
      assume b: "b \<notin> lblks (log s)"
      show "disk t b = dapply D ws b"
        using commit_disk [OF g, of b D "dapply D ws"] b lb Ls tb L(5) dapply_other [of b ws D] by (auto simp: e(1))
    qed
  qed
  show ?thesis
    unfolding end_op_def runs_bnd
  proof (rule upd_log_step [OF L(1)], goal_cases)
    case (1 t)
    have "runs (upd_log (\<lambda>l. l\<lparr>l_committing := True\<rparr>)) t (\<lambda>_ t. runs commit t (\<lambda>_ t.
        runs (upd_log (\<lambda>l. l\<lparr>l_committing := False, l_ncommit := l_ncommit l + 1\<rparr>)) t (\<lambda>_ t. runs (wakeup ChLog) t
        (\<lambda>_ t. \<exists>W. dtrace t = T @ W \<and> tx_trace d D st ws W \<and> disk t = dapply D W \<and> fs_idle d pid t
          \<and> l_start (log t) = st \<and> (\<forall>b. b \<notin> lblks (log s) \<longrightarrow> disk t b = dapply D ws b)))))"
    proof (rule upd_log_step [OF 1], rule runs_mono [OF com], goal_cases)
      case (1 u)
      then show ?case using L(7) by simp
    next
      case (2 u x v)
      show ?case
        by (rule upd_log_step [OF 2(2)], rule wakeup_step, assumption, rule fin) simp
    qed
    then show ?case unfolding log_simps(1) [OF 1] using L(7,8) by simp
  qed
qed

subsection \<open>Starting again after a crash\<close>

text \<open>The state at boot, after \<^verbatim>\<open>binit\<close>: every buffer is free and empty.\<close>

definition cold :: "u32 \<Rightarrow> u32 \<Rightarrow> 'z lkernel_scheme \<Rightarrow> bool" where
  "cold d pid r \<longleftrightarrow> (\<exists>xs. lru (bufs r) xs) \<and> (\<exists>p. cur r = Some p \<and> p_pid (procs r p) = pid)
     \<and> length (lh_block (log r)) = LOGBLOCKS \<and> l_outstanding (log r) = 0 \<and> \<not> l_committing (log r)
     \<and> (\<forall>i<NBUF. b_refcnt (bufs r i) = 0 \<and> \<not> b_valid (bufs r i) \<and> b_dev (bufs r i) \<noteq> d \<and> \<not> sl_locked (b_lock (bufs r i)))"

lemma cold_lst:
  assumes "cold d pid r"
  shows "lst d pid Map.empty (disk r) (\<lambda>_. 0) (disk r) (dtrace r) (log r) r"
proof -
  have nh: "\<not> holds d b (bufs r i)" if "i < NBUF" for i b using assms that by (auto simp: cold_def holds_def)
  have "view d r = disk r" using nh by (intro ext view_uncached) blast
  moreover have "rc d (bufs r) = (\<lambda>_. 0)" using nh by (intro ext rc_none)
  moreover have "cinv d pid r {}"
    using assms nh by (auto simp: cold_def cinv_def uniq_def binv_def)
  ultimately show ?thesis using assms by (auto simp: lst_def cold_def)
qed

lemma initlog_step:
  assumes "cold d pid r" and L: "log_static d L" "sint start = l_start L"
    and h: "head_ok L (disk r (lblk L 0))" "length (disk r (lblk L 0)) = BSIZE"
  shows "runs (initlog d start) r (\<lambda>_ t. fs_idle d pid t \<and> l_start (log t) = l_start L \<and> disk t = recovered L (disk r))"
proof -
  let ?L = "(log r)\<lparr>l_start := sint start, l_dev := d\<rparr>"
  have lb: "lblk ?L = lblk L" "lblks ?L = lblks L" using L(2) lblk_cong [of ?L L] by auto
  then have eq: "recovered ?L = recovered L" "head_ok ?L = head_ok L" by (simp_all add: recovered_def head_ok_def fun_eq_iff)
  have "runs recover_from_log t (\<lambda>_ t. fs_idle d pid t \<and> l_start (log t) = l_start L \<and> disk t = recovered L (disk r))"
    if t: "lst d pid Map.empty (disk r) (\<lambda>_. 0) (disk r) (dtrace r) ?L t" for t
  proof (rule runs_mono [OF recover_rule [OF t]], goal_cases)
    case (5 x u)
    then obtain T' L' where u: "lst d pid Map.empty (recovered L (disk r)) (\<lambda>_. 0) (recovered L (disk r)) T' L' u"
      "lh_n L' = 0" "l_start L' = l_start L" "l_dev L' = d" "length (lh_block L') = LOGBLOCKS"
      "l_outstanding L' = 0" "\<not> l_committing L'"
      using assms(1) L(2) unfolding eq by (auto simp: cold_def)
    have e: "disk u = recovered L (disk r)" "log u = L'" "dtrace u = T'" using u(1) by (simp_all add: lst_def)
    have lb': "lblk L' = lblk L" using u(3) lblk_cong by blast
    have "rd32 (recovered L (disk r) (lblk L 0)) 0 = 0" "length (recovered L (disk r) (lblk L 0)) = BSIZE"
      using h(2) by (simp_all add: recovered_def Let_def BSIZE_def)
    then show ?case using u L(1) lb' by (simp add: fs_idle_def e log_static_def)
  qed (use assms lb eq in \<open>auto simp: cold_def log_static_def\<close>)
  then have "runs (upd_log (\<lambda>l. l\<lparr>l_start := sint start, l_dev := d\<rparr>)) r (\<lambda>_ t. runs recover_from_log t
      (\<lambda>_ t. fs_idle d pid t \<and> l_start (log t) = l_start L \<and> disk t = recovered L (disk r)))"
    by (intro upd_log_step [OF cold_lst [OF assms(1)]])
  then show ?thesis
    unfolding initlog_def by (simp add: LOGBLOCKS_def MAXOPBLOCKS_def BSIZE_def)
qed

lemma crash_point:
  assumes s: "fs_idle d pid s" and tr: "tx_trace d (disk s) (l_start (log s)) ws W"
    and out: "fst ` set ws \<inter> lblks (log s) = {}"
    and r: "cold d pid' r" "sint start = l_start (log s)" "disk r = dapply (disk s) (take k W)"
  shows "\<exists>r'. initlog d start r = Ok () r' \<and> fs_idle d pid' r' \<and> (\<forall>b. b \<notin> lblks (log s) \<longrightarrow>
    disk r' b = (if card (fst ` set ws) < k then dapply (disk s) ws b else disk s b))"
proof -
  let ?L = "log s" and ?D = "disk s"
  have st: "log_static d ?L" and h: "rd32 (?D (lblk ?L 0)) 0 = 0" "length (?D (lblk ?L 0)) = BSIZE"
    using s by (auto simp: fs_idle_def)
  have "head_ok ?L (disk r (lblk ?L 0)) \<and> length (disk r (lblk ?L 0)) = BSIZE \<and> (\<forall>b. b \<notin> lblks ?L \<longrightarrow>
      recovered ?L (disk r) b = (if card (fst ` set ws) < k then dapply ?D ws b else ?D b))"
  proof (cases "ws = []")
    case True
    then have "disk r = ?D" using r(3) tr by (simp add: tx_trace_def)
    moreover have "head_ok ?L (?D (lblk ?L 0))" using h(1) by (simp add: head_ok_def head_list_def head_count_def)
    ultimately show ?thesis using True h recovered_empty [of ?D ?L] by simp
  next
    case False
    then obtain L where L: "W = commit_writes (dapply ?D ws) L" "log_geom L" "l_start L = l_start ?L"
      "set (tx_blocks L) = fst ` set ws" "lh_n L = int (card (fst ` set ws))"
      using tr by (auto simp: tx_trace_def)
    have lb: "lblk L = lblk ?L" "lblks L = lblks ?L" using L(3) lblk_cong [of L ?L] by auto
    then have eq: "recovered L = recovered ?L" "head_ok L = head_ok ?L" by (simp_all add: recovered_def head_ok_def fun_eq_iff)
    have n: "0 < lh_n L" using False L(5) by (simp add: card_gt_0_iff)
    have V: "dapply ?D ws (lblk L 0) = ?D (lblk L 0)" using out lblk0 [of L] lb by (intro dapply_other) auto
    note co = crash_outcome [where D = ?D and V = "dapply ?D ws" and L = L and k = k, folded L(1) r(3), OF L(2) n _ V, unfolded lb eq, OF h]
    obtain b0 where "b0 \<in> fst ` set ws" using False by (cases ws) auto
    then have "b0 \<notin> lblks ?L" using out by blast
    from co [OF this] have hd: "head_ok ?L (disk r (lblk ?L 0)) \<and> length (disk r (lblk ?L 0)) = BSIZE" by simp
    moreover have "outcome ?D (dapply ?D ws) L k b = (if card (fst ` set ws) < k then dapply ?D ws b else ?D b)" for b
      using L(4,5) dapply_other [of b ws ?D] by (simp add: outcome_def)
    ultimately show ?thesis using co by simp
  qed
  then show ?thesis using initlog_step [OF r(1) st r(2)] by (auto simp: runs_Ok_iff)
qed

subsection \<open>The buffer cache at boot\<close>

lemma buf_update_order:
  "x\<lparr>b_next := n, b_prev := p, b_lock := l\<rparr> = x\<lparr>b_lock := l, b_next := n, b_prev := p\<rparr>" for x :: buf
  by (cases x) simp

lemma core_lock: "core (b\<lparr>b_lock := l\<rparr>) = (core b)\<lparr>b_lock := l\<rparr>"
  by (cases b) (simp add: core_def)

lemma binit_rule:
  "runs binit s (\<lambda>_ t. t = s\<lparr>bufs := bufs t\<rparr> \<and> lru (bufs t) (rev [0..<NBUF])
     \<and> (\<forall>i<NBUF. core (bufs t i) = core ((bufs s i)\<lparr>b_lock := initsleeplock\<rparr>)))"
proof -
  let ?I = "\<lambda>ys t. t = s\<lparr>bufs := bufs t\<rparr> \<and> ring (\<lambda>i. b_next (bufs t i)) (\<lambda>i. b_prev (bufs t i)) (rev ys)
    \<and> (\<forall>i<NBUF. core (bufs t i) = core (if i \<in> set ys then (bufs s i)\<lparr>b_lock := initsleeplock\<rparr> else bufs s i))"
  let ?f = "\<lambda>i. bnd (get_buf BHEAD b_next) (\<lambda>n.
       bnd (upd_buf i (\<lambda>b. b\<lparr>b_next := n\<rparr>)) (\<lambda>_.
       bnd (upd_buf i (\<lambda>b. b\<lparr>b_prev := BHEAD\<rparr>)) (\<lambda>_.
       bnd (upd_buf i (\<lambda>b. b\<lparr>b_lock := initsleeplock\<rparr>)) (\<lambda>_.
       bnd (get_buf BHEAD b_next) (\<lambda>n2.
       bnd (upd_buf n2 (\<lambda>b. b\<lparr>b_prev := i\<rparr>)) (\<lambda>_.
       upd_buf BHEAD (\<lambda>h. h\<lparr>b_next := i\<rparr>)))))))"
  have step: "?f i t = Ok () (t\<lparr>bufs := link_front ((bufs t)(i := (bufs t i)\<lparr>b_lock := initsleeplock\<rparr>)) i\<rparr>)" if "i < NBUF" for i t
    using that by (simp add: bnd_def get_buf_def upd_buf_def gets_def upd_def link_front_def Let_def buf_update_order)
  let ?s = "s\<lparr>bufs := (bufs s)(BHEAD := (bufs s BHEAD)\<lparr>b_prev := BHEAD, b_next := BHEAD\<rparr>)\<rparr>"
  have "runs (forM [0..<NBUF] ?f) ?s (\<lambda>_. ?I [0..<NBUF])"
  proof (rule runs_forM [where I = ?I])
    fix ys x zs t
    assume "[0..<NBUF] = ys @ x # zs" and I: "?I ys t"
    from upt_split [OF this(1)] have x: "ys = [0..<x]" "x < NBUF" by auto
    let ?B = "(bufs t)(x := (bufs t x)\<lparr>b_lock := initsleeplock\<rparr>)"
    have "(\<lambda>i. b_next (?B i)) = (\<lambda>i. b_next (bufs t i))" "(\<lambda>i. b_prev (?B i)) = (\<lambda>i. b_prev (bufs t i))" by auto
    then have "ring (\<lambda>i. b_next (?B i)) (\<lambda>i. b_prev (?B i)) (rev ys)" using I by simp
    then have "ring (\<lambda>i. b_next (link_front ?B x i)) (\<lambda>i. b_prev (link_front ?B x i)) (x # rev ys)"
      by (rule link_front_ring) (use x in auto)
    moreover have "core (link_front ?B x i) = core (if i \<in> set (ys @ [x]) then (bufs s i)\<lparr>b_lock := initsleeplock\<rparr> else bufs s i)"
      if "i < NBUF" for i using link_front_links(3) [of ?B x i] I x that by (auto simp: core_lock)
    moreover have "t\<lparr>bufs := B\<rparr> = s\<lparr>bufs := B\<rparr>" for B
    proof -
      have "t\<lparr>bufs := B\<rparr> = (s\<lparr>bufs := bufs t\<rparr>)\<lparr>bufs := B\<rparr>" using I by (intro arg_cong [where f = "\<lambda>t. t\<lparr>bufs := B\<rparr>"]) blast
      then show ?thesis by simp
    qed
    ultimately show "runs (?f x) t (\<lambda>_. ?I (ys @ [x]))"
      unfolding runs_def step [OF x(2)] by simp
  qed (auto simp: ring_def)
  then have "runs (forM [0..<NBUF] ?f) ?s (\<lambda>_ t. t = s\<lparr>bufs := bufs t\<rparr> \<and> lru (bufs t) (rev [0..<NBUF])
     \<and> (\<forall>i<NBUF. core (bufs t i) = core ((bufs s i)\<lparr>b_lock := initsleeplock\<rparr>)))"
    by (rule runs_mono) (auto simp: lru_def)
  then show ?thesis by (simp add: binit_def upd_buf_def)
qed

lemma binit_cold:
  assumes "cur s = Some p" "p_pid (procs s p) = pid" "length (lh_block (log s)) = LOGBLOCKS"
    "l_outstanding (log s) = 0" "\<not> l_committing (log s)"
    "\<forall>i<NBUF. b_refcnt (bufs s i) = 0 \<and> \<not> b_valid (bufs s i) \<and> b_dev (bufs s i) \<noteq> d"
  obtains t where "binit s = Ok () t" "cold d pid t" "disk t = disk s" "dtrace t = dtrace s" "log t = log s"
proof -
  obtain t where t: "binit s = Ok () t" "t = s\<lparr>bufs := bufs t\<rparr>" "lru (bufs t) (rev [0..<NBUF])"
    "\<forall>i<NBUF. core (bufs t i) = core ((bufs s i)\<lparr>b_lock := initsleeplock\<rparr>)"
    using binit_rule [of s] by (auto simp: runs_Ok_iff)
  have f: "f t = f s" if "\<And>B. f (s\<lparr>bufs := B\<rparr>) = f s" for f :: "_ \<Rightarrow> 'c" by (metis t(2) that)
  have e: "log t = log s" "disk t = disk s" "dtrace t = dtrace s" "cur t = cur s" "procs t = procs s"
    by (subst t(2), simp)+
  have "b_refcnt (bufs t i) = 0 \<and> \<not> b_valid (bufs t i) \<and> b_dev (bufs t i) \<noteq> d \<and> \<not> sl_locked (b_lock (bufs t i))" if "i < NBUF" for i
    using t(4) assms(6) that by (simp add: core_fields initsleeplock_def)
  then have "cold d pid t" using assms e t(3) by (auto simp: cold_def)
  then show ?thesis using that t(1) e by blast
qed

lemma unat_lblk:
  assumes "0 \<le> l_start L" "l_start L + int LOGBLOCKS < 2 ^ 32" "i \<le> LOGBLOCKS"
  shows "unat (lblk L i) = nat (l_start L) + i"
proof -
  have "lblk L i = of_nat (nat (l_start L) + i)" using assms(1) by (simp add: lblk_def)
  moreover have "int (nat (l_start L) + i) < 2 ^ 32" using assms by simp
  then have "nat (l_start L) + i < 2 ^ 32" by (metis of_nat_less_iff of_nat_numeral of_nat_power)
  ultimately show ?thesis by (simp only: unat_of_nat) (simp add: take_bit_nat_eq_self)
qed

lemma lblk_inj: "0 \<le> l_start L \<Longrightarrow> l_start L + int LOGBLOCKS < 2 ^ 32 \<Longrightarrow> inj_on (lblk L) {0..LOGBLOCKS}"
  using unat_lblk [of L] by (intro inj_onI) (metis add_left_cancel atLeastAtMost_iff)

subsection \<open>Atomicity\<close>

text \<open>C1 A transaction is atomic.  From a quiet file system, \<^verbatim>\<open>begin_op\<close>, a sequence of reads, modifications
  and \<^verbatim>\<open>log_write\<close>s of fewer than \<open>NBUF\<close> distinct blocks outside the log, and \<^verbatim>\<open>end_op\<close> complete, and
  leave exactly the modified blocks on disk.  If the machine stops after any number \<open>k\<close> of the disk
  writes that \<^verbatim>\<open>end_op\<close> makes and the file system is started again by \<^verbatim>\<open>initlog\<close>, recovery
  completes and the disk holds outside the log either all the modifications, when the write of the
  header has reached the disk, or none.\<close>

theorem transaction_atomic:
  assumes "fs_idle d pid s" and "card (fst ` set ws) < NBUF" and "fst ` set ws \<inter> lblks (log s) = {}"
  shows "\<exists>t W. transaction d ws s = Ok () t \<and> dtrace t = dtrace s @ W \<and> fs_idle d pid t
    \<and> (\<forall>b. b \<notin> lblks (log s) \<longrightarrow> disk t b = dapply (disk s) ws b)
    \<and> (\<forall>k pid' start r. cold d pid' r \<and> sint start = l_start (log s) \<and> disk r = dapply (disk s) (take k W) \<longrightarrow>
        (\<exists>r'. initlog d start r = Ok () r' \<and> fs_idle d pid' r' \<and> (\<forall>b. b \<notin> lblks (log s) \<longrightarrow>
          disk r' b = (if card (fst ` set ws) < k then dapply (disk s) ws b else disk s b))))"
proof -
  let ?D = "disk s" and ?T = "dtrace s" and ?st = "l_start (log s)"
  let ?Q = "\<lambda>t. \<exists>W. dtrace t = ?T @ W \<and> tx_trace d ?D ?st ws W \<and> disk t = dapply ?D W \<and> fs_idle d pid t
    \<and> l_start (log t) = ?st \<and> (\<forall>b. b \<notin> lblks (log s) \<longrightarrow> disk t b = dapply ?D ws b)"
  have "runs (transaction d ws) s (\<lambda>_. ?Q)"
    unfolding transaction_def runs_bnd
  proof (rule runs_mono [OF begin_op_step [OF idle_in_tx [OF assms(1)]]], simp, simp, rule runs_mono [OF tx_writes_step], simp, simp, goal_cases)
    case (1 x t ys w zs)
    have "card (fst ` set ys) \<le> card (fst ` set ws)" unfolding 1(2) by (rule card_mono) auto
    then show ?case using assms(2) by simp
  next
    case (2 x u y t)
    then have t: "in_tx d pid ?D ?T ?st 1 ws t" by simp
    then have "l_start (log t) = ?st" by (auto simp: in_tx_def lst_def)
    then have lb: "lblk (log t) = lblk (log s)" "lblks (log t) = lblks (log s)" using lblk_cong by blast+
    show ?case
      using end_op_step [OF t assms(2)] assms(1,3) unfolding lb by (simp add: fs_idle_def)
  qed
  then obtain t W where t: "transaction d ws s = Ok () t" "dtrace t = ?T @ W" "tx_trace d ?D ?st ws W" "fs_idle d pid t"
    "\<forall>b. b \<notin> lblks (log s) \<longrightarrow> disk t b = dapply ?D ws b"
    by (auto simp: runs_Ok_iff)
  show ?thesis
    by (intro exI conjI, rule t, rule t, rule t, rule t) (use crash_point [OF assms(1) t(3) assms(3)] in blast)
qed

text \<open>A file system with its log in blocks 2 to 32 and every block zero.\<close>

definition buf0 :: buf where
  "buf0 = \<lparr>b_valid = False, b_disk = False, b_dev = 0, b_blockno = 0, b_lock = initsleeplock, b_refcnt = 0,
     b_prev = 0, b_next = 0, b_data = replicate BSIZE 0\<rparr>"

definition fs_demo0 :: lkernel where
  "fs_demo0 = \<lparr>mem = (\<lambda>_. 0), freelist = 0, kend = 0x80021000, klog = [], etext = 0x80008000,
     trampoline = 0x80007000, kernel_pagetable = 0, satp = 0, procs = (\<lambda>_. proc0\<lparr>p_pid := 7\<rparr>), cur = Some 3,
     nextpid = 8, initproc = Some 1, ticks = 0, sym_forkret = 0, disk = (\<lambda>_. replicate BSIZE 0), dtrace = [],
     bufs = (\<lambda>_. buf0),
     log = \<lparr>l_start = 2, l_outstanding = 0, l_committing = False, l_dev = 1, l_ncommit = 0, lh_n = 0,
       lh_block = replicate LOGBLOCKS 0\<rparr>\<rparr>"

definition fs_demo :: lkernel where
  "fs_demo = (case binit fs_demo0 of Ok _ t \<Rightarrow> t | Panic _ \<Rightarrow> fs_demo0 | Sleep _ \<Rightarrow> fs_demo0 | Hang \<Rightarrow> fs_demo0)"

lemma fs_demo_cold: "cold 1 7 fs_demo" "disk fs_demo = (\<lambda>_. replicate BSIZE 0)" "log fs_demo = log fs_demo0"
proof -
  obtain t where t: "binit fs_demo0 = Ok () t" "cold 1 7 t" "disk t = disk fs_demo0" "dtrace t = dtrace fs_demo0" "log t = log fs_demo0"
    by (rule binit_cold [of fs_demo0 3 7 1]) (simp_all add: fs_demo0_def buf0_def)
  then show "cold 1 7 fs_demo" "disk fs_demo = (\<lambda>_. replicate BSIZE 0)" "log fs_demo = log fs_demo0"
    by (simp_all add: fs_demo_def) (simp add: fs_demo0_def)
qed

lemma fs_demo_idle: "fs_idle 1 7 fs_demo"
proof -
  have "inj_on (lblk (log fs_demo0)) {0..LOGBLOCKS}"
    by (rule lblk_inj) (simp_all add: fs_demo0_def LOGBLOCKS_def MAXOPBLOCKS_def)
  then have "log_static 1 (log fs_demo0)" by (simp add: log_static_def fs_demo0_def)
  moreover have "rd32 (replicate BSIZE 0) 0 = 0" by (simp add: rd32_def slice_def un32_def BSIZE_def numeral_eq_Suc)
  ultimately show ?thesis using cold_lst [OF fs_demo_cold(1)] unfolding fs_idle_def fs_demo_cold(2,3)
    by (simp add: fs_demo0_def)
qed

theorem transaction_atomic_witness:
  "\<exists>t W. transaction 1 [(50, replicate BSIZE 7)] fs_demo = Ok () t \<and> disk t 50 = replicate BSIZE 7
    \<and> (\<exists>r. initlog 1 2 (fs_demo\<lparr>disk := dapply (disk fs_demo) (take 1 W)\<rparr>) = Ok () r \<and> disk r 50 = replicate BSIZE 0)
    \<and> (\<exists>r. initlog 1 2 (fs_demo\<lparr>disk := dapply (disk fs_demo) (take 2 W)\<rparr>) = Ok () r \<and> disk r 50 = replicate BSIZE 7)"
proof -
  let ?ws = "[(50::u32, replicate BSIZE (7::u8))]"
  have b: "50 \<notin> lblks (log fs_demo)"
  proof -
    have "lblk (log fs_demo) i \<noteq> 50" if "i \<le> LOGBLOCKS" for i
    proof
      assume "lblk (log fs_demo) i = 50"
      then have "2 + i = 50" using unat_lblk [of "log fs_demo" i] that
        by (simp add: fs_demo_cold(3) fs_demo0_def LOGBLOCKS_def MAXOPBLOCKS_def)
      then show False using that by (simp add: LOGBLOCKS_def MAXOPBLOCKS_def)
    qed
    then show ?thesis by (auto simp: lblks_def)
  qed
  have "card (fst ` set ?ws) < NBUF" "fst ` set ?ws \<inter> lblks (log fs_demo) = {}"
    using b by (simp_all add: NBUF_def MAXOPBLOCKS_def)
  from transaction_atomic [where ?'b = unit, OF fs_demo_idle this] obtain t W where t: "transaction 1 ?ws fs_demo = Ok () t"
    and d: "\<forall>b. b \<notin> lblks (log fs_demo) \<longrightarrow> disk t b = dapply (disk fs_demo) ?ws b"
    and w: "\<forall>k pid' start (r :: lkernel). cold 1 pid' r \<and> sint start = l_start (log fs_demo) \<and> disk r = dapply (disk fs_demo) (take k W) \<longrightarrow>
        (\<exists>r'. initlog 1 start r = Ok () r' \<and> fs_idle 1 pid' r' \<and> (\<forall>b. b \<notin> lblks (log fs_demo) \<longrightarrow>
          disk r' b = (if card (fst ` set ?ws) < k then dapply (disk fs_demo) ?ws b else disk fs_demo b)))"
    by blast
  have c: "cold 1 7 (fs_demo\<lparr>disk := D\<rparr>)" for D using fs_demo_cold(1) by (simp add: cold_def)
  have "sint (2 :: u32) = l_start (log fs_demo)" by (simp add: fs_demo_cold(3) fs_demo0_def)
  then have "\<exists>r. initlog 1 2 (fs_demo\<lparr>disk := dapply (disk fs_demo) (take k W)\<rparr>) = Ok () r \<and>
      disk r 50 = (if card (fst ` set ?ws) < k then dapply (disk fs_demo) ?ws 50 else disk fs_demo 50)" for k
    using w [rule_format, of 7 "fs_demo\<lparr>disk := dapply (disk fs_demo) (take k W)\<rparr>" 2 k] c b by auto
  from this [of 1] this [of 2] t d b show ?thesis by (intro exI [of _ t] exI [of _ W]) (simp add: fs_demo_cold(2))
qed

subsection \<open>A log as large as the cache\<close>

lemma lst_full:
  assumes l: "lst d pid H V R D T L s" and c: "NBUF \<le> card {b. R b \<noteq> 0}" and i: "i < NBUF"
  shows "b_refcnt (bufs s i) \<noteq> 0" "R (b_blockno (bufs s i)) \<noteq> 0" "b_dev (bufs s i) = d"
proof -
  have u: "uniq d (bufs s)" and r: "rc d (bufs s) = R" using l by (auto simp: lst_def cinv_def)
  have "{b. R b \<noteq> 0} \<subseteq> (\<lambda>i. b_blockno (bufs s i)) ` {i. i < NBUF \<and> b_refcnt (bufs s i) \<noteq> 0}"
    using rc_nonzero [of d "bufs s"] r by (fastforce simp: holds_def)
  then have "card {b. R b \<noteq> 0} \<le> card {i. i < NBUF \<and> b_refcnt (bufs s i) \<noteq> 0}"
    by (intro surj_card_le) auto
  moreover have "card {i. i < NBUF \<and> b_refcnt (bufs s i) \<noteq> 0} \<le> card {..<NBUF}" by (rule card_mono) auto
  ultimately have "card {i. i < NBUF \<and> b_refcnt (bufs s i) \<noteq> 0} = card {..<NBUF}" using c by simp
  then have "{i. i < NBUF \<and> b_refcnt (bufs s i) \<noteq> 0} = {..<NBUF}" by (intro card_subset_eq) auto
  then show nz: "b_refcnt (bufs s i) \<noteq> 0" using i by blast
  then show dv: "b_dev (bufs s i) = d" using l i by (auto simp: lst_def)
  then show "R (b_blockno (bufs s i)) \<noteq> 0"
    using rc_at [OF u i, of "b_blockno (bufs s i)"] nz r by (simp add: holds_def unat_eq_zero)
qed

lemma bread_full:
  assumes l: "lst d pid H V R D T L s" and c: "NBUF \<le> card {b. R b \<noteq> 0}" and bn: "R bn = 0"
  shows "bread d bn s = Panic ''bget: no buffers''"
proof -
  obtain xs where xs: "lru (bufs s) xs" using l by (auto simp: lst_def cinv_def)
  then have set: "set xs = {0..<NBUF}" by (simp add: lru_def)
  note full = lst_full [OF l c]
  have "find (\<lambda>i. b_dev (bufs s i) = d \<and> b_blockno (bufs s i) = bn) xs = None"
    "find (\<lambda>i. b_refcnt (bufs s i) = 0) (rev xs) = None"
    unfolding find_None_iff set_rev set using full(1,2) bn by (metis atLeastLessThan_iff)+
  then show ?thesis
    by (simp add: bread_def bget_def bnd_def gets_def lru_scans [OF xs] ret_def panic_def del: scan_next.simps scan_prev.simps)
qed

lemma bnd_Panic: "m s = Panic e \<Longrightarrow> bnd m f s = Panic e"
  by (simp add: bnd_def)

lemma runs_bnd_eq: "runs m s P \<Longrightarrow> (\<And>x t. P x t \<Longrightarrow> f x t = r) \<Longrightarrow> bnd m f s = r"
  by (auto simp: runs_Ok_iff bnd_def)

lemma end_op_more:
  assumes tx: "in_tx d pid D T st (k + 1) ws s" and k: "0 < k"
  shows "runs end_op s (\<lambda>_. in_tx d pid D T st k ws)"
proof -
  obtain L where L: "lst d pid Map.empty (dapply D ws) (\<lambda>b. if b \<in> fst ` set ws then 1 else 0) D T L s"
    "log_static d L" "l_start L = st" "distinct (tx_blocks L)" "set (tx_blocks L) = fst ` set ws"
    "lh_n L = int (card (fst ` set ws))" "l_outstanding L = k + 1" "\<not> l_committing L"
    using tx by (auto simp: in_tx_def)
  let ?L = "L\<lparr>l_outstanding := l_outstanding L - 1\<rparr>"
  have lb: "lblk ?L = lblk L" by (rule lblk_cong [THEN conjunct1]) simp
  show ?thesis
    unfolding end_op_def runs_bnd
  proof (rule upd_log_step [OF L(1)], goal_cases)
    case (1 t)
    have "runs (wakeup ChLog) t (\<lambda>_. in_tx d pid D T st k ws)"
      by (rule wakeup_step [OF 1], unfold in_tx_def, rule exI [of _ ?L]) (use L lb in \<open>simp add: log_static_def tx_blocks_def\<close>)
    then show ?case unfolding log_simps(1) [OF 1] using L k by simp
  qed
qed

lemma end_op_full:
  assumes tx: "in_tx d pid D T st 1 ws s" and c: "card (fst ` set ws) = NBUF" and out: "fst ` set ws \<inter> lblks (log s) = {}"
  shows "end_op s = Panic ''bget: no buffers''"
proof -
  let ?R = "\<lambda>b. if b \<in> fst ` set ws then 1 else (0::nat)"
  obtain L where L: "lst d pid Map.empty (dapply D ws) ?R D T L s" "log_static d L" "lh_n L = int (card (fst ` set ws))"
    "l_outstanding L = 1" "\<not> l_committing L"
    using tx by (auto simp: in_tx_def)
  have Ls: "log s = L" using L(1) by (simp add: lst_def)
  let ?L = "L\<lparr>l_outstanding := 0, l_committing := True\<rparr>"
  have R: "{b. ?R b \<noteq> 0} = fst ` set ws" by auto
  have n: "0 < lh_n ?L" "nat (lh_n ?L) = Suc (NBUF - 1)" using L(3) c by (simp_all add: NBUF_def MAXOPBLOCKS_def)
  have "lblk L 1 \<in> lblks L" by (simp add: lblks_def LOGBLOCKS_def MAXOPBLOCKS_def)
  then have R1: "?R (of_int (l_start ?L + int (0 + 1))) = 0" using out Ls by (auto simp: lblk_def)
  have com: "commit t = Panic ''bget: no buffers''" if t: "lst d pid Map.empty (dapply D ws) ?R D T ?L t" for t
  proof -
    have b: "bread d (of_int (l_start ?L + int (0 + 1))) t = Panic ''bget: no buffers''"
      by (rule bread_full [OF t _ R1]) (use R c in simp)
    have e: "get_log lh_n t = Ok (lh_n ?L) t" "get_log l_dev t = Ok (l_dev ?L) t" "get_log l_start t = Ok (l_start ?L) t"
      using t by (simp_all add: get_log_def gets_def lst_def)
    have "[0..<nat (lh_n ?L)] = 0 # [1..<nat (lh_n ?L)]" using n(2) by (simp add: upt_rec)
    then have "write_log t = Panic ''bget: no buffers''"
      using e b L(2) by (simp add: write_log_def bnd_def log_count_def log_blockno_def ret_def log_static_def)
    then show ?thesis using e n(1) by (simp add: commit_def bnd_def whenM_def)
  qed
  show ?thesis
    unfolding end_op_def
  proof (rule runs_bnd_eq [OF upd_log_step [OF L(1)]], assumption)
    fix x t
    assume t: "lst d pid Map.empty (dapply D ws) ?R D T (L\<lparr>l_outstanding := l_outstanding L - 1\<rparr>) t"
    have e: "get_log (\<lambda>l. l) t = Ok (L\<lparr>l_outstanding := l_outstanding L - 1\<rparr>) t" using t by (simp add: get_log_def gets_def lst_def)
    have "bnd (upd_log (\<lambda>l. l\<lparr>l_committing := True\<rparr>)) (\<lambda>_. bnd commit (\<lambda>_.
       bnd (upd_log (\<lambda>l. l\<lparr>l_committing := False, l_ncommit := l_ncommit l + 1\<rparr>)) (\<lambda>_.
       wakeup ChLog))) t = Panic ''bget: no buffers''"
      by (rule runs_bnd_eq [OF upd_log_step [OF t]], assumption) (simp add: bnd_Panic com L(4))
    then show "bnd (get_log (\<lambda>l. l)) (\<lambda>l.
     if l_committing l then panic ''log.committing''
     else if l_outstanding l = 0 then
       bnd (upd_log (\<lambda>l. l\<lparr>l_committing := True\<rparr>)) (\<lambda>_.
       bnd commit (\<lambda>_.
       bnd (upd_log (\<lambda>l. l\<lparr>l_committing := False, l_ncommit := l_ncommit l + 1\<rparr>)) (\<lambda>_.
       wakeup ChLog)))
     else wakeup ChLog) t = Panic ''bget: no buffers''"
      using e L(4,5) by (simp add: bnd_def)
  qed
qed

text \<open>C21 Three operations may be in progress at once, because \<^verbatim>\<open>begin_op\<close> admits them when each writes at most
  \<open>MAXOPBLOCKS\<close> blocks.  If together they write \<open>LOGBLOCKS\<close> distinct blocks, every write is accepted
  by \<^verbatim>\<open>log_write\<close>, but the last \<^verbatim>\<open>end_op\<close> panics with \<^verbatim>\<open>bget: no buffers\<close>:
  all \<open>NBUF = LOGBLOCKS\<close> buffers are pinned by the log, and none is left for the log block that the commit has to write.\<close>

theorem full_log_panics:
  assumes "fs_idle d pid s" and "distinct (map fst ws)" and "length ws = LOGBLOCKS" and "fst ` set ws \<inter> lblks (log s) = {}"
  shows "bnd begin_op (\<lambda>_. bnd begin_op (\<lambda>_. bnd begin_op (\<lambda>_. bnd (forM ws (tx_write d)) (\<lambda>_.
    bnd end_op (\<lambda>_. bnd end_op (\<lambda>_. end_op)))))) s = Panic ''bget: no buffers''"
proof -
  let ?D = "disk s" and ?T = "dtrace s" and ?st = "l_start (log s)"
  have "card (fst ` set ws) = length (map fst ws)" using distinct_card [OF assms(2)] by simp
  then have c: "card (fst ` set ws) = NBUF" using assms(3) by (simp add: NBUF_def LOGBLOCKS_def)
  have small: "card (fst ` set ys) < NBUF" if "ws = ys @ x # zs" for ys x zs
    using card_length [of "map fst ys"] that assms(3) by (auto simp: NBUF_def LOGBLOCKS_def)
  show ?thesis
  proof (rule runs_bnd_eq [OF begin_op_step [OF idle_in_tx [OF assms(1)]]], simp, simp,
      rule runs_bnd_eq [OF begin_op_step], assumption, simp, simp, rule runs_bnd_eq [OF begin_op_step], assumption, simp, simp,
      rule runs_bnd_eq [OF tx_writes_step], assumption, simp, rule small, assumption, goal_cases)
    case (1 x1 t1 x2 t2 x3 t3 x t)
    then have t: "in_tx d pid ?D ?T ?st (2 + 1) ws t" by simp
    show ?case
    proof (rule runs_bnd_eq [OF end_op_more [OF t]], simp, rule runs_bnd_eq [OF end_op_more [of d pid ?D ?T ?st 1 ws]], simp, simp, goal_cases)
      case (1 x1 t1 x2 t2)
      then have "l_start (log t2) = ?st" by (auto simp: in_tx_def lst_def)
      then have "lblks (log t2) = lblks (log s)" using lblk_cong by blast
      then show ?case using end_op_full [OF 1(2) c] assms(4) by simp
    qed
  qed
qed

theorem full_log_panics_witness:
  "bnd begin_op (\<lambda>_. bnd begin_op (\<lambda>_. bnd begin_op (\<lambda>_. bnd (forM (map (\<lambda>i. (of_nat (50 + i), [])) [0..<LOGBLOCKS]) (tx_write 1)) (\<lambda>_.
    bnd end_op (\<lambda>_. bnd end_op (\<lambda>_. end_op)))))) fs_demo = Panic ''bget: no buffers''"
proof (rule full_log_panics [OF fs_demo_idle])
  have u: "unat (of_nat (50 + i) :: u32) = 50 + i" if "i < LOGBLOCKS" for i
    using that by (simp only: unat_of_nat) (simp add: take_bit_nat_eq_self LOGBLOCKS_def MAXOPBLOCKS_def)
  then show "distinct (map fst (map (\<lambda>i. (of_nat (50 + i) :: u32, [] :: block)) [0..<LOGBLOCKS]))"
    by (simp add: distinct_map comp_def del: of_nat_add) (intro inj_onI, metis add_left_cancel atLeastLessThan_iff)
  have v: "unat (lblk (log fs_demo) i) = 2 + i" if "i \<le> LOGBLOCKS" for i
    using unat_lblk [of "log fs_demo" i] that by (simp add: fs_demo_cold(3) fs_demo0_def LOGBLOCKS_def MAXOPBLOCKS_def)
  have "of_nat (50 + i) \<noteq> lblk (log fs_demo) j" if "i < LOGBLOCKS" "j \<le> LOGBLOCKS" for i j
    using u [OF that(1)] v [OF that(2)] that(2) by (auto simp: LOGBLOCKS_def MAXOPBLOCKS_def)
  then show "fst ` set (map (\<lambda>i. (of_nat (50 + i) :: u32, [] :: block)) [0..<LOGBLOCKS]) \<inter> lblks (log fs_demo) = {}"
    by (auto simp: lblks_def simp del: of_nat_add)
qed simp

end
