(* ===== verification/Fs.thy ===== *)
theory Fs
  imports Log
begin

text \<open>
  The file system, \<^verbatim>\<open>kernel/fs.c\<close> and \<^verbatim>\<open>kernel/fs.h\<close>: the block allocator, inodes, the contents of
  files, directories and path names.  An in-memory inode is its index in the inode table and a
  null pointer is \<open>None\<close>.  A C string or a name that the code keeps in a kernel variable is a byte
  list; a byte list used as a string ends at its first NUL or at its end.
\<close>

record superblock =
  sb_magic :: u32
  sb_size :: u32
  sb_nblocks :: u32
  sb_ninodes :: u32
  sb_nlog :: u32
  sb_logstart :: u32
  sb_inodestart :: u32
  sb_bmapstart :: u32

definition FSMAGIC :: u32 where "FSMAGIC = 0x10203040"
definition ROOTINO :: u32 where "ROOTINO = 1"
definition NDIRECT :: nat where "NDIRECT = 12"
definition NINDIRECT :: nat where "NINDIRECT = BSIZE div 4"
definition MAXFILE :: nat where "MAXFILE = NDIRECT + NINDIRECT"
definition DINODE_SIZE :: nat where "DINODE_SIZE = 64"
definition IPB :: nat where "IPB = BSIZE div DINODE_SIZE"
definition BPB :: nat where "BPB = BSIZE * 8"
definition DIRSIZ :: nat where "DIRSIZ = 14"
definition DIRENT_SIZE :: nat where "DIRENT_SIZE = 16"
definition T_DIR :: u16 where "T_DIR = 1"
definition T_FILE :: u16 where "T_FILE = 2"
definition T_DEVICE :: u16 where "T_DEVICE = 3"

record inode =
  i_dev :: u32
  i_inum :: u32
  i_ref :: int
  i_lock :: sleeplock
  i_valid :: bool
  i_type :: u16
  i_major :: u16
  i_minor :: u16
  i_nlink :: u16
  i_size :: u32
  i_addrs :: "u32 list"

record stat =
  st_dev :: u32
  st_ino :: u32
  st_type :: u16
  st_nlink :: u16
  st_size :: u64

record fkernel = lkernel +
  sb :: superblock
  itable :: "nat \<Rightarrow> inode"

definition IBLOCK :: "u32 \<Rightarrow> superblock \<Rightarrow> u32" where
  "IBLOCK i s = of_nat (unat i div IPB) + sb_inodestart s"

definition BBLOCK :: "u32 \<Rightarrow> superblock \<Rightarrow> u32" where
  "BBLOCK b s = of_nat (unat b div BPB) + sb_bmapstart s"

definition get_inode :: "nat \<Rightarrow> (inode \<Rightarrow> 'a) \<Rightarrow> ('z fkernel_scheme, 'a) kM" where
  "get_inode i f = gets (\<lambda>s. f (itable s i))"

definition upd_inode :: "nat \<Rightarrow> (inode \<Rightarrow> inode) \<Rightarrow> ('z fkernel_scheme, unit) kM" where
  "upd_inode i f = upd (\<lambda>s. s\<lparr>itable := (itable s)(i := f (itable s i))\<rparr>)"

definition inode_lock :: "nat \<Rightarrow> 'z fkernel_scheme \<Rightarrow> sleeplock" where
  "inode_lock i s = i_lock (itable s i)"

definition set_inode_lock :: "nat \<Rightarrow> (sleeplock \<Rightarrow> sleeplock) \<Rightarrow> 'z fkernel_scheme \<Rightarrow> 'z fkernel_scheme" where
  "set_inode_lock i f s = s\<lparr>itable := (itable s)(i := (itable s i)\<lparr>i_lock := f (i_lock (itable s i))\<rparr>)\<rparr>"

text \<open>The use of a pointer that may be null; a null pointer is a trap in the kernel.\<close>

definition deref :: "'a option \<Rightarrow> ('s, 'a) kM" where
  "deref p = (case p of None \<Rightarrow> panic ''kerneltrap'' | Some x \<Rightarrow> ret x)"

subsection \<open>Super block and block allocator\<close>

definition decode_superblock :: "block \<Rightarrow> superblock" where
  "decode_superblock d = \<lparr>sb_magic = rd32 d 0, sb_size = rd32 d 4, sb_nblocks = rd32 d 8, sb_ninodes = rd32 d 12,
     sb_nlog = rd32 d 16, sb_logstart = rd32 d 20, sb_inodestart = rd32 d 24, sb_bmapstart = rd32 d 28\<rparr>"

definition readsb :: "u32 \<Rightarrow> ('z fkernel_scheme, unit) kM" where
  "readsb dev =
     bnd (bread dev 1) (\<lambda>bp.
     bnd (get_buf bp b_data) (\<lambda>d.
     bnd (upd (\<lambda>s. s\<lparr>sb := decode_superblock d\<rparr>)) (\<lambda>_.
     brelse bp)))"

definition bzero :: "u32 \<Rightarrow> u32 \<Rightarrow> ('z fkernel_scheme, unit) kM" where
  "bzero dev bno =
     bnd (bread dev bno) (\<lambda>bp.
     bnd (upd_buf bp (\<lambda>b. b\<lparr>b_data := replicate BSIZE 0\<rparr>)) (\<lambda>_.
     bnd (log_write bp) (\<lambda>_.
     brelse bp)))"

text \<open>The mask \<^verbatim>\<open>1 << (bi % 8)\<close> and the test, the setting and the clearing of bit \<open>bi\<close> of a bitmap
  block.\<close>

definition bit_mask :: "nat \<Rightarrow> u8" where
  "bit_mask bi = push_bit (bi mod 8) 1"

definition bit_free :: "block \<Rightarrow> nat \<Rightarrow> bool" where
  "bit_free d bi \<longleftrightarrow> d ! (bi div 8) AND bit_mask bi = 0"

definition bit_set :: "block \<Rightarrow> nat \<Rightarrow> block" where
  "bit_set d bi = d[bi div 8 := d ! (bi div 8) OR bit_mask bi]"

definition bit_clear :: "block \<Rightarrow> nat \<Rightarrow> block" where
  "bit_clear d bi = d[bi div 8 := d ! (bi div 8) AND NOT (bit_mask bi)]"

text \<open>\<^verbatim>\<open>balloc\<close> goes through the bitmap blocks; \<open>bs\<close> lists the values of \<^verbatim>\<open>b\<close>.\<close>

fun balloc_loop :: "u32 \<Rightarrow> nat list \<Rightarrow> ('z fkernel_scheme, u32) kM" where
  "balloc_loop dev [] =
     bnd (printk_msg (''balloc: out of blocks'' @ [CHR 0x0A]) []) (\<lambda>_. ret 0)"
| "balloc_loop dev (b # bs) =
     bnd (gets sb) (\<lambda>s.
     bnd (bread dev (BBLOCK (of_nat b) s)) (\<lambda>bp.
     bnd (get_buf bp b_data) (\<lambda>d.
     case find (bit_free d) [0..<min BPB (unat (sb_size s) - b)] of
       Some bi \<Rightarrow>
         bnd (upd_buf bp (\<lambda>x. x\<lparr>b_data := bit_set d bi\<rparr>)) (\<lambda>_.
         bnd (log_write bp) (\<lambda>_.
         bnd (brelse bp) (\<lambda>_.
         bnd (bzero dev (of_nat (b + bi))) (\<lambda>_.
         ret (of_nat (b + bi))))))
     | None \<Rightarrow> bnd (brelse bp) (\<lambda>_. balloc_loop dev bs))))"

definition balloc :: "u32 \<Rightarrow> ('z fkernel_scheme, u32) kM" where
  "balloc dev =
     bnd (gets sb) (\<lambda>s.
     balloc_loop dev (map (\<lambda>k. k * BPB) [0..<(unat (sb_size s) + BPB - 1) div BPB]))"

definition bfree :: "u32 \<Rightarrow> u32 \<Rightarrow> ('z fkernel_scheme, unit) kM" where
  "bfree dev b =
     bnd (gets sb) (\<lambda>s.
     bnd (bread dev (BBLOCK b s)) (\<lambda>bp.
     bnd (get_buf bp b_data) (\<lambda>d.
     let bi = unat b mod BPB in
     if bit_free d bi then panic ''freeing free block''
     else
       bnd (upd_buf bp (\<lambda>x. x\<lparr>b_data := bit_clear d bi\<rparr>)) (\<lambda>_.
       bnd (log_write bp) (\<lambda>_.
       brelse bp)))))"

subsection \<open>Inodes\<close>

definition iinit :: "('z fkernel_scheme, unit) kM" where
  "iinit = forM [0..<NINODE] (\<lambda>i. upd_inode i (\<lambda>ip. ip\<lparr>i_lock := initsleeplock\<rparr>))"

text \<open>The search of \<^verbatim>\<open>iget\<close>: the entry of the inode, and the first free entry before it.\<close>

fun iget_scan :: "(nat \<Rightarrow> inode) \<Rightarrow> u32 \<Rightarrow> u32 \<Rightarrow> nat option \<Rightarrow> nat list \<Rightarrow> nat option \<times> nat option" where
  "iget_scan T dev inum fresh [] = (None, fresh)"
| "iget_scan T dev inum fresh (i # is) =
     (if i_ref (T i) > 0 \<and> i_dev (T i) = dev \<and> i_inum (T i) = inum then (Some i, fresh)
      else iget_scan T dev inum (if fresh = None \<and> i_ref (T i) = 0 then Some i else fresh) is)"

definition iget :: "u32 \<Rightarrow> u32 \<Rightarrow> ('z fkernel_scheme, nat) kM" where
  "iget dev inum =
     bnd (gets (\<lambda>s. iget_scan (itable s) dev inum None [0..<NINODE])) (\<lambda>(hit, fresh).
     case hit of
       Some i \<Rightarrow> bnd (upd_inode i (\<lambda>ip. ip\<lparr>i_ref := i_ref ip + 1\<rparr>)) (\<lambda>_. ret i)
     | None \<Rightarrow>
         (case fresh of
            None \<Rightarrow> panic ''iget: no inodes''
          | Some i \<Rightarrow>
              bnd (upd_inode i (\<lambda>ip. ip\<lparr>i_dev := dev, i_inum := inum, i_ref := 1, i_valid := False\<rparr>)) (\<lambda>_.
              ret i)))"

text \<open>The byte offset of an inode in its block, and the on-disk inode there.\<close>

definition dinode_off :: "u32 \<Rightarrow> nat" where
  "dinode_off inum = (unat inum mod IPB) * DINODE_SIZE"

definition put_dinode :: "inode \<Rightarrow> block \<Rightarrow> nat \<Rightarrow> block" where
  "put_dinode ip d o1 =
     splice (wr32 (wr16 (wr16 (wr16 (wr16 d o1 (i_type ip)) (o1 + 2) (i_major ip)) (o1 + 4) (i_minor ip))
       (o1 + 6) (i_nlink ip)) (o1 + 8) (i_size ip)) (o1 + 12) (concat (map le32 (i_addrs ip)))"

definition get_dinode :: "inode \<Rightarrow> block \<Rightarrow> nat \<Rightarrow> inode" where
  "get_dinode ip d o1 = ip\<lparr>i_type := rd16 d o1, i_major := rd16 d (o1 + 2), i_minor := rd16 d (o1 + 4),
     i_nlink := rd16 d (o1 + 6), i_size := rd32 d (o1 + 8),
     i_addrs := map (\<lambda>k. rd32 d (o1 + 12 + 4 * k)) [0..<NDIRECT + 1]\<rparr>"

fun ialloc_loop :: "u32 \<Rightarrow> u16 \<Rightarrow> nat list \<Rightarrow> ('z fkernel_scheme, nat option) kM" where
  "ialloc_loop dev ty [] =
     bnd (printk_msg (''ialloc: no inodes'' @ [CHR 0x0A]) []) (\<lambda>_. ret None)"
| "ialloc_loop dev ty (n # ns) =
     (let inum = of_nat n in
      bnd (gets sb) (\<lambda>s.
      bnd (bread dev (IBLOCK inum s)) (\<lambda>bp.
      bnd (get_buf bp b_data) (\<lambda>d.
      if rd16 d (dinode_off inum) = 0 then
        bnd (upd_buf bp (\<lambda>x. x\<lparr>b_data :=
          wr16 (splice d (dinode_off inum) (replicate DINODE_SIZE 0)) (dinode_off inum) ty\<rparr>)) (\<lambda>_.
        bnd (log_write bp) (\<lambda>_.
        bnd (brelse bp) (\<lambda>_.
        bnd (iget dev inum) (\<lambda>i. ret (Some i)))))
      else bnd (brelse bp) (\<lambda>_. ialloc_loop dev ty ns)))))"

definition ialloc :: "u32 \<Rightarrow> u16 \<Rightarrow> ('z fkernel_scheme, nat option) kM" where
  "ialloc dev ty = bnd (gets sb) (\<lambda>s. ialloc_loop dev ty [1..<unat (sb_ninodes s)])"

definition iupdate :: "nat \<Rightarrow> ('z fkernel_scheme, unit) kM" where
  "iupdate i =
     bnd (get_inode i (\<lambda>x. x)) (\<lambda>ip.
     bnd (gets sb) (\<lambda>s.
     bnd (bread (i_dev ip) (IBLOCK (i_inum ip) s)) (\<lambda>bp.
     bnd (upd_buf bp (\<lambda>x. x\<lparr>b_data := put_dinode ip (b_data x) (dinode_off (i_inum ip))\<rparr>)) (\<lambda>_.
     bnd (log_write bp) (\<lambda>_.
     brelse bp)))))"

definition idup :: "nat \<Rightarrow> ('z fkernel_scheme, nat) kM" where
  "idup i = bnd (upd_inode i (\<lambda>ip. ip\<lparr>i_ref := i_ref ip + 1\<rparr>)) (\<lambda>_. ret i)"

definition ilock :: "nat option \<Rightarrow> ('z fkernel_scheme, unit) kM" where
  "ilock ipo =
     (case ipo of
        None \<Rightarrow> panic ''ilock''
      | Some i \<Rightarrow>
          bnd (get_inode i i_ref) (\<lambda>r.
          if r < 1 then panic ''ilock''
          else
            bnd (acquiresleep (inode_lock i) (set_inode_lock i) (ChInodeLock i)) (\<lambda>_.
            bnd (get_inode i (\<lambda>x. x)) (\<lambda>ip.
            whenM (\<not> i_valid ip)
              (bnd (gets sb) (\<lambda>s.
               bnd (bread (i_dev ip) (IBLOCK (i_inum ip) s)) (\<lambda>bp.
               bnd (get_buf bp b_data) (\<lambda>d.
               bnd (upd_inode i (\<lambda>ip. get_dinode ip d (dinode_off (i_inum ip)))) (\<lambda>_.
               bnd (brelse bp) (\<lambda>_.
               bnd (upd_inode i (\<lambda>ip. ip\<lparr>i_valid := True\<rparr>)) (\<lambda>_.
               bnd (get_inode i i_type) (\<lambda>ty.
               whenM (ty = 0) (panic ''ilock: no type'')))))))))))))"

definition iunlock :: "nat option \<Rightarrow> ('z fkernel_scheme, unit) kM" where
  "iunlock ipo =
     (case ipo of
        None \<Rightarrow> panic ''iunlock''
      | Some i \<Rightarrow>
          bnd (holdingsleep (inode_lock i)) (\<lambda>h.
          bnd (get_inode i i_ref) (\<lambda>r.
          if \<not> h \<or> r < 1 then panic ''iunlock''
          else releasesleep (set_inode_lock i) (ChInodeLock i))))"

definition ifree :: "u32 \<Rightarrow> u32 \<Rightarrow> ('z fkernel_scheme, unit) kM" where
  "ifree dev inum =
     bnd (gets sb) (\<lambda>s.
     bnd (bread dev (IBLOCK inum s)) (\<lambda>bp.
     bnd (upd_buf bp (\<lambda>x. x\<lparr>b_data := wr16 (b_data x) (dinode_off inum) 0\<rparr>)) (\<lambda>_.
     bnd (log_write bp) (\<lambda>_.
     brelse bp))))"

subsection \<open>The contents of an inode\<close>

definition bmap :: "nat \<Rightarrow> u32 \<Rightarrow> ('z fkernel_scheme, u32) kM" where
  "bmap i bn =
     bnd (get_inode i i_dev) (\<lambda>dev.
     bnd (get_inode i i_addrs) (\<lambda>addrs.
     if unat bn < NDIRECT then
       if addrs ! unat bn = 0 then
         bnd (balloc dev) (\<lambda>addr.
         if addr = 0 then ret 0
         else bnd (upd_inode i (\<lambda>ip. ip\<lparr>i_addrs := (i_addrs ip)[unat bn := addr]\<rparr>)) (\<lambda>_. ret addr))
       else ret (addrs ! unat bn)
     else
       let k = unat bn - NDIRECT in
       if k < NINDIRECT then
         bnd (if addrs ! NDIRECT = 0 then
                bnd (balloc dev) (\<lambda>addr.
                if addr = 0 then ret 0
                else bnd (upd_inode i (\<lambda>ip. ip\<lparr>i_addrs := (i_addrs ip)[NDIRECT := addr]\<rparr>)) (\<lambda>_. ret addr))
              else ret (addrs ! NDIRECT)) (\<lambda>ind.
         if ind = 0 then ret 0
         else
           bnd (bread dev ind) (\<lambda>bp.
           bnd (get_buf bp b_data) (\<lambda>d.
           bnd (if rd32 d (4 * k) = 0 then
                  bnd (balloc dev) (\<lambda>addr.
                  bnd (whenM (addr \<noteq> 0)
                    (bnd (upd_buf bp (\<lambda>x. x\<lparr>b_data := wr32 (b_data x) (4 * k) addr\<rparr>)) (\<lambda>_.
                     log_write bp))) (\<lambda>_.
                  ret addr))
                else ret (rd32 d (4 * k))) (\<lambda>addr.
           bnd (brelse bp) (\<lambda>_.
           ret addr)))))
       else panic ''bmap: out of range''))"

definition itrunc :: "nat \<Rightarrow> ('z fkernel_scheme, unit) kM" where
  "itrunc i =
     bnd (get_inode i i_dev) (\<lambda>dev.
     bnd (forM [0..<NDIRECT] (\<lambda>k.
       bnd (get_inode i i_addrs) (\<lambda>addrs.
       whenM (addrs ! k \<noteq> 0)
         (bnd (bfree dev (addrs ! k)) (\<lambda>_.
          upd_inode i (\<lambda>ip. ip\<lparr>i_addrs := (i_addrs ip)[k := 0]\<rparr>)))))) (\<lambda>_.
     bnd (get_inode i i_addrs) (\<lambda>addrs.
     bnd (whenM (addrs ! NDIRECT \<noteq> 0)
       (bnd (bread dev (addrs ! NDIRECT)) (\<lambda>bp.
        bnd (forM [0..<NINDIRECT] (\<lambda>j.
          bnd (get_buf bp b_data) (\<lambda>d.
          whenM (rd32 d (4 * j) \<noteq> 0) (bfree dev (rd32 d (4 * j)))))) (\<lambda>_.
        bnd (brelse bp) (\<lambda>_.
        bnd (bfree dev (addrs ! NDIRECT)) (\<lambda>_.
        upd_inode i (\<lambda>ip. ip\<lparr>i_addrs := (i_addrs ip)[NDIRECT := 0]\<rparr>))))))) (\<lambda>_.
     bnd (upd_inode i (\<lambda>ip. ip\<lparr>i_size := 0\<rparr>)) (\<lambda>_.
     iupdate i)))))"

definition iput :: "nat \<Rightarrow> ('z fkernel_scheme, unit) kM" where
  "iput i =
     bnd (get_inode i (\<lambda>x. x)) (\<lambda>ip.
     let lst = (i_ref ip = 1 \<and> i_valid ip \<and> i_nlink ip = 0) in
     bnd (whenM lst
       (bnd (acquiresleep (inode_lock i) (set_inode_lock i) (ChInodeLock i)) (\<lambda>_.
        bnd (itrunc i) (\<lambda>_.
        bnd (upd_inode i (\<lambda>ip. ip\<lparr>i_valid := False\<rparr>)) (\<lambda>_.
        releasesleep (set_inode_lock i) (ChInodeLock i)))))) (\<lambda>_.
     bnd (upd_inode i (\<lambda>ip. ip\<lparr>i_ref := i_ref ip - 1\<rparr>)) (\<lambda>_.
     whenM lst (ifree (i_dev ip) (i_inum ip)))))"

definition iunlockput :: "nat \<Rightarrow> ('z fkernel_scheme, unit) kM" where
  "iunlockput i = bnd (iunlock (Some i)) (\<lambda>_. iput i)"

definition ireclaim :: "u32 \<Rightarrow> ('z fkernel_scheme, unit) kM" where
  "ireclaim dev =
     bnd (gets sb) (\<lambda>s.
     forM [1..<unat (sb_ninodes s)] (\<lambda>n.
       let inum = of_nat n in
       bnd (gets sb) (\<lambda>s.
       bnd (bread dev (IBLOCK inum s)) (\<lambda>bp.
       bnd (get_buf bp b_data) (\<lambda>d.
       bnd (if rd16 d (dinode_off inum) \<noteq> 0 \<and> rd16 d (dinode_off inum + 6) = 0 then
              bnd (printk_msg (''ireclaim: orphaned inode %d'' @ [CHR 0x0A]) [int n]) (\<lambda>_.
              bnd (iget dev inum) (\<lambda>i. ret (Some i)))
            else ret None) (\<lambda>ipo.
       bnd (brelse bp) (\<lambda>_.
       case ipo of
         None \<Rightarrow> ret ()
       | Some i \<Rightarrow>
           bnd begin_op (\<lambda>_.
           bnd (ilock (Some i)) (\<lambda>_.
           bnd (iunlock (Some i)) (\<lambda>_.
           bnd (iput i) (\<lambda>_.
           end_op)))))))))))"

definition fsinit :: "u32 \<Rightarrow> ('z fkernel_scheme, unit) kM" where
  "fsinit dev =
     bnd (readsb dev) (\<lambda>_.
     bnd (gets sb) (\<lambda>s.
     if sb_magic s \<noteq> FSMAGIC then panic ''invalid file system''
     else
       bnd (initlog dev (sb_logstart s)) (\<lambda>_.
       ireclaim dev)))"

definition stati :: "nat \<Rightarrow> ('z fkernel_scheme, stat) kM" where
  "stati i =
     get_inode i (\<lambda>ip. \<lparr>st_dev = i_dev ip, st_ino = i_inum ip, st_type = i_type ip, st_nlink = i_nlink ip,
       st_size = ucast (i_size ip)\<rparr>)"

text \<open>The loop of \<^verbatim>\<open>readi\<close>.  The result is \<^verbatim>\<open>tot\<close> (\<open>None\<close> for the \<^verbatim>\<open>-1\<close> of a failed copy) and the bytes
  that have been copied, for a destination in a kernel object.\<close>

function readi_loop :: "nat \<Rightarrow> copy_dst \<Rightarrow> nat \<Rightarrow> nat \<Rightarrow> nat \<Rightarrow> ('z fkernel_scheme, nat option \<times> u8 list) kM" where
  "readi_loop i dst off n tot =
     (if tot < n then
        bnd (bmap i (of_nat (off div BSIZE))) (\<lambda>addr.
        if addr = 0 then ret (Some tot, [])
        else
          bnd (get_inode i i_dev) (\<lambda>dev.
          bnd (bread dev addr) (\<lambda>bp.
          bnd (get_buf bp b_data) (\<lambda>d.
          let m = min (n - tot) (BSIZE - off mod BSIZE); bs = slice d (off mod BSIZE) m in
          bnd (either_copyout dst bs) (\<lambda>r.
          if r = - 1 then bnd (brelse bp) (\<lambda>_. ret (None, []))
          else
            bnd (brelse bp) (\<lambda>_.
            bnd (readi_loop i (copy_dst_plus dst m) (off + m) n (tot + m)) (\<lambda>(res, rest).
            ret (res, bs @ rest))))))))
      else ret (Some tot, []))"
  by pat_completeness auto
termination
  by (relation "measure (\<lambda>(i, dst, off, n, tot). n - tot)") (auto simp: BSIZE_def)

definition readi :: "nat \<Rightarrow> copy_dst \<Rightarrow> u32 \<Rightarrow> u32 \<Rightarrow> ('z fkernel_scheme, int \<times> u8 list) kM" where
  "readi i dst off n =
     bnd (get_inode i i_size) (\<lambda>sz.
     if off > sz \<or> off + n < off then ret (0, [])
     else
       bnd (readi_loop i dst (unat off) (unat (if off + n > sz then sz - off else n)) 0) (\<lambda>(res, bs).
       ret (case res of None \<Rightarrow> - 1 | Some tot \<Rightarrow> sint (of_nat tot :: u32), bs)))"

text \<open>The loop of \<^verbatim>\<open>writei\<close>; the result is the final \<^verbatim>\<open>tot\<close> and \<^verbatim>\<open>off\<close>.\<close>

function writei_loop :: "nat \<Rightarrow> copy_src \<Rightarrow> nat \<Rightarrow> nat \<Rightarrow> nat \<Rightarrow> ('z fkernel_scheme, nat \<times> nat) kM" where
  "writei_loop i src off n tot =
     (if tot < n then
        bnd (bmap i (of_nat (off div BSIZE))) (\<lambda>addr.
        if addr = 0 then ret (tot, off)
        else
          bnd (get_inode i i_dev) (\<lambda>dev.
          bnd (bread dev addr) (\<lambda>bp.
          let m = min (n - tot) (BSIZE - off mod BSIZE) in
          bnd (either_copyin src m) (\<lambda>(r, bs).
          bnd (upd_buf bp (\<lambda>x. x\<lparr>b_data := splice (b_data x) (off mod BSIZE) bs\<rparr>)) (\<lambda>_.
          if r = - 1 then
            bnd (log_write bp) (\<lambda>_.
            bnd (brelse bp) (\<lambda>_. ret (tot, off)))
          else
            bnd (log_write bp) (\<lambda>_.
            bnd (brelse bp) (\<lambda>_.
            writei_loop i (copy_src_plus src m) (off + m) n (tot + m))))))))
      else ret (tot, off))"
  by pat_completeness auto
termination
  by (relation "measure (\<lambda>(i, src, off, n, tot). n - tot)") (auto simp: BSIZE_def)

declare readi_loop.simps [simp del]
declare writei_loop.simps [simp del]

definition writei :: "nat \<Rightarrow> copy_src \<Rightarrow> u32 \<Rightarrow> u32 \<Rightarrow> ('z fkernel_scheme, int) kM" where
  "writei i src off n =
     bnd (get_inode i i_size) (\<lambda>sz.
     if off > sz \<or> off + n < off then ret (- 1)
     else if unat (off + n) > MAXFILE * BSIZE then ret (- 1)
     else
       bnd (writei_loop i src (unat off) (unat n) 0) (\<lambda>(tot, off').
       bnd (get_inode i i_size) (\<lambda>sz.
       bnd (whenM (off' > unat sz) (upd_inode i (\<lambda>ip. ip\<lparr>i_size := of_nat off'\<rparr>))) (\<lambda>_.
       bnd (iupdate i) (\<lambda>_.
       ret (int tot))))))"

subsection \<open>Directories\<close>

text \<open>\<^verbatim>\<open>strncmp\<close> and \<^verbatim>\<open>strncpy\<close> on strings in kernel variables.\<close>

fun first_byte :: "u8 list \<Rightarrow> u8" where
  "first_byte [] = 0"
| "first_byte (x # xs) = x"

fun strncmp_bytes :: "nat \<Rightarrow> u8 list \<Rightarrow> u8 list \<Rightarrow> int" where
  "strncmp_bytes 0 p q = 0"
| "strncmp_bytes (Suc n) p q =
     (if first_byte p \<noteq> 0 \<and> first_byte p = first_byte q then strncmp_bytes n (tl p) (tl q)
      else uint (first_byte p) - uint (first_byte q))"

fun strncpy_bytes :: "nat \<Rightarrow> u8 list \<Rightarrow> u8 list" where
  "strncpy_bytes 0 t = []"
| "strncpy_bytes (Suc n) t =
     (if first_byte t = 0 then replicate (Suc n) 0 else first_byte t # strncpy_bytes n (tl t))"

definition namecmp :: "u8 list \<Rightarrow> u8 list \<Rightarrow> int" where
  "namecmp s t = strncmp_bytes DIRSIZ s t"

text \<open>The offsets \<^verbatim>\<open>0, sizeof(de), 2 * sizeof(de), ...\<close> below the size of the directory.\<close>

definition dir_offsets :: "u32 \<Rightarrow> nat list" where
  "dir_offsets sz = map (\<lambda>k. k * DIRENT_SIZE) [0..<(unat sz + DIRENT_SIZE - 1) div DIRENT_SIZE]"

fun dirlookup_loop :: "nat \<Rightarrow> u8 list \<Rightarrow> nat list \<Rightarrow> ('z fkernel_scheme, (nat \<times> u32) option) kM" where
  "dirlookup_loop dp name [] = ret None"
| "dirlookup_loop dp name (off # offs) =
     bnd (readi dp ObjDst (of_nat off) (of_nat DIRENT_SIZE)) (\<lambda>(r, de).
     if r \<noteq> int DIRENT_SIZE then panic ''dirlookup read''
     else if rd16 de 0 = 0 then dirlookup_loop dp name offs
     else if namecmp name (slice de 2 DIRSIZ) = 0 then
       bnd (get_inode dp i_dev) (\<lambda>dev.
       bnd (iget dev (ucast (rd16 de 0))) (\<lambda>i.
       ret (Some (i, of_nat off))))
     else dirlookup_loop dp name offs)"

text \<open>The inode and the value that is stored through \<^verbatim>\<open>poff\<close>.\<close>

definition dirlookup :: "nat \<Rightarrow> u8 list \<Rightarrow> ('z fkernel_scheme, (nat \<times> u32) option) kM" where
  "dirlookup dp name =
     bnd (get_inode dp i_type) (\<lambda>ty.
     if ty \<noteq> T_DIR then panic ''dirlookup not DIR''
     else bnd (get_inode dp i_size) (\<lambda>sz. dirlookup_loop dp name (dir_offsets sz)))"

text \<open>The first free entry, else the offset at which the search stops.\<close>

fun dirlink_slot :: "nat \<Rightarrow> nat \<Rightarrow> nat list \<Rightarrow> ('z fkernel_scheme, nat) kM" where
  "dirlink_slot dp end [] = ret end"
| "dirlink_slot dp end (off # offs) =
     bnd (readi dp ObjDst (of_nat off) (of_nat DIRENT_SIZE)) (\<lambda>(r, de).
     if r \<noteq> int DIRENT_SIZE then panic ''dirlink read''
     else if rd16 de 0 = 0 then ret off
     else dirlink_slot dp end offs)"

definition dirlink :: "nat \<Rightarrow> u8 list \<Rightarrow> u32 \<Rightarrow> ('z fkernel_scheme, int) kM" where
  "dirlink dp name inum =
     bnd (dirlookup dp name) (\<lambda>hit.
     case hit of
       Some (i, _) \<Rightarrow> bnd (iput i) (\<lambda>_. ret (- 1))
     | None \<Rightarrow>
         bnd (get_inode dp i_size) (\<lambda>sz.
         bnd (dirlink_slot dp (length (dir_offsets sz) * DIRENT_SIZE) (dir_offsets sz)) (\<lambda>off.
         bnd (writei dp (ObjSrc (le16 (ucast inum) @ strncpy_bytes DIRSIZ name)) (of_nat off) (of_nat DIRENT_SIZE)) (\<lambda>r.
         ret (if r \<noteq> int DIRENT_SIZE then - 1 else 0)))))"

subsection \<open>Paths\<close>

text \<open>A path is the list of its characters without the final NUL; \<open>name\<close> is the buffer that
  receives the element.  The result is the rest of the path and the buffer.\<close>

definition slash :: u8 where "slash = 0x2F"

definition skipelem :: "u8 list \<Rightarrow> u8 list \<Rightarrow> (u8 list \<times> u8 list) option" where
  "skipelem path name =
     (let s = dropWhile (\<lambda>c. c = slash) path in
      if s = [] then None
      else
        let elem = takeWhile (\<lambda>c. c \<noteq> slash) s;
            rest = dropWhile (\<lambda>c. c \<noteq> slash) s;
            name' = (if length elem \<ge> DIRSIZ then splice name 0 (take DIRSIZ elem)
                     else splice (splice name 0 elem) (length elem) [0])
        in Some (dropWhile (\<lambda>c. c = slash) rest, name'))"

lemma skipelem_shorter: "skipelem path name = Some (path', name') \<Longrightarrow> length path' < length path"
proof -
  assume *: "skipelem path name = Some (path', name')"
  let ?s = "dropWhile (\<lambda>c. c = slash) path"
  have ne: "?s \<noteq> []" and p': "path' = dropWhile (\<lambda>c. c = slash) (dropWhile (\<lambda>c. c \<noteq> slash) ?s)"
    using * by (auto simp: skipelem_def Let_def split: if_splits)
  obtain c cs where s: "?s = c # cs" using ne by (cases ?s) auto
  then have "c \<noteq> slash" by (metis (mono_tags) dropWhile_eq_Cons_conv)
  then have "length path' \<le> length cs"
    unfolding p' s by (simp add: order.trans [OF length_dropWhile_le length_dropWhile_le])
  also have "length cs < length path"
    using s length_dropWhile_le [of "\<lambda>c. c = slash" path] by simp
  finally show ?thesis .
qed

function namex_loop :: "u8 list \<Rightarrow> bool \<Rightarrow> u8 list \<Rightarrow> nat \<Rightarrow> ('z fkernel_scheme, nat option \<times> u8 list) kM" where
  "namex_loop path parent name i =
     (case skipelem path name of
        None \<Rightarrow> if parent then bnd (iput i) (\<lambda>_. ret (None, name)) else ret (Some i, name)
      | Some (path', name') \<Rightarrow>
          bnd (ilock (Some i)) (\<lambda>_.
          bnd (get_inode i i_type) (\<lambda>ty.
          if ty \<noteq> T_DIR then bnd (iunlockput i) (\<lambda>_. ret (None, name'))
          else
            bnd (get_inode i i_nlink) (\<lambda>nl.
            if nl = 0 then bnd (iunlockput i) (\<lambda>_. ret (None, name'))
            else if parent \<and> path' = [] then bnd (iunlock (Some i)) (\<lambda>_. ret (Some i, name'))
            else
              bnd (dirlookup i name') (\<lambda>next.
              case next of
                None \<Rightarrow> bnd (iunlockput i) (\<lambda>_. ret (None, name'))
              | Some (j, _) \<Rightarrow> bnd (iunlockput i) (\<lambda>_. namex_loop path' parent name' j))))))"
  by pat_completeness auto
termination
  by (relation "measure (\<lambda>(path, parent, name, i). length path)") (auto dest: skipelem_shorter)

declare namex_loop.simps [simp del]

text \<open>The inode, and the buffer \<open>name\<close> afterwards.\<close>

definition namex :: "u8 list \<Rightarrow> bool \<Rightarrow> u8 list \<Rightarrow> ('z fkernel_scheme, nat option \<times> u8 list) kM" where
  "namex path parent name =
     bnd (if first_byte path = slash then iget (ROOTDEV) ROOTINO
          else bnd the_proc (\<lambda>p. bnd (get_proc p p_cwd) (\<lambda>c. bnd (deref c) idup))) (\<lambda>i.
     namex_loop path parent name i)"

definition namei :: "u8 list \<Rightarrow> ('z fkernel_scheme, nat option) kM" where
  "namei path = bnd (namex path False (replicate DIRSIZ 0)) (\<lambda>(ipo, _). ret ipo)"

definition nameiparent :: "u8 list \<Rightarrow> u8 list \<Rightarrow> ('z fkernel_scheme, nat option \<times> u8 list) kM" where
  "nameiparent path name = namex path True name"

end
