(* ===== verification/Console.thy ===== *)
theory Console
  imports Fs
begin

text \<open>
  The UART driver (\<^verbatim>\<open>kernel/uart.c\<close>) and the console (\<^verbatim>\<open>kernel/console.c\<close>).

  The device is the environment: \<open>uart_rx\<close> holds the characters that have arrived, \<open>uart_idle\<close> what
  the transmitter answers to the successive reads of its line status register, and \<open>uart_tx\<close> what
  has been sent.  A transmitter whose answers are used up stays busy, and a loop that spins on it
  never ends.
\<close>

definition INPUT_BUF_SIZE :: nat where "INPUT_BUF_SIZE = 128"
definition BACKSPACE :: int where "BACKSPACE = 0x100"
definition CONSOLE :: nat where "CONSOLE = 1"

record cons_state =
  cons_buf :: "u8 list"
  cons_r :: u32
  cons_w :: u32
  cons_e :: u32

text \<open>What a function pointer of \<^verbatim>\<open>devsw\<close> refers to.\<close>

datatype devfn = Consoleread | Consolewrite

record ckernel = fkernel +
  uart_rx :: "u8 list"
  uart_idle :: "bool list"
  uart_tx :: "u8 list"
  uart_regs :: "(nat \<times> u8) list"
  tx_lock :: sleeplock
  cons :: cons_state
  devsw_read :: "devfn option list"
  devsw_write :: "devfn option list"

definition get_tx_lock :: "'z ckernel_scheme \<Rightarrow> sleeplock" where
  "get_tx_lock s = tx_lock s"

definition set_tx_lock :: "(sleeplock \<Rightarrow> sleeplock) \<Rightarrow> 'z ckernel_scheme \<Rightarrow> 'z ckernel_scheme" where
  "set_tx_lock f s = s\<lparr>tx_lock := f (tx_lock s)\<rparr>"

subsection \<open>UART\<close>

text \<open>A write to a control register of the device.\<close>

definition WriteReg :: "nat \<Rightarrow> u8 \<Rightarrow> ('z ckernel_scheme, unit) kM" where
  "WriteReg r v = upd (\<lambda>s. s\<lparr>uart_regs := uart_regs s @ [(r, v)]\<rparr>)"

definition uartinit :: "('z ckernel_scheme, unit) kM" where
  "uartinit =
     bnd (WriteReg 1 0) (\<lambda>_.
     bnd (WriteReg 3 0x80) (\<lambda>_.
     bnd (WriteReg 0 3) (\<lambda>_.
     bnd (WriteReg 1 0) (\<lambda>_.
     bnd (WriteReg 3 3) (\<lambda>_.
     bnd (WriteReg 2 7) (\<lambda>_.
     bnd (WriteReg 1 3) (\<lambda>_.
     upd (set_tx_lock (\<lambda>_. initsleeplock)))))))))"

text \<open>\<^verbatim>\<open>ReadReg(LSR) & LSR_TX_IDLE\<close>.\<close>

definition lsr_tx_idle :: "('z ckernel_scheme, bool) kM" where
  "lsr_tx_idle = (\<lambda>s. case uart_idle s of [] \<Rightarrow> Ok False s | b # bs \<Rightarrow> Ok b (s\<lparr>uart_idle := bs\<rparr>))"

definition put_thr :: "u8 \<Rightarrow> ('z ckernel_scheme, unit) kM" where
  "put_thr c = upd (\<lambda>s. s\<lparr>uart_tx := uart_tx s @ [c]\<rparr>)"

function uartwrite_loop :: "u8 list \<Rightarrow> ('z ckernel_scheme, unit) kM" where
  "uartwrite_loop [] = ret ()"
| "uartwrite_loop (c # cs) =
     bnd (sleep_prepare ChUart) (\<lambda>_.
     bnd lsr_tx_idle (\<lambda>idle.
     if idle then bnd (put_thr c) (\<lambda>_. uartwrite_loop cs)
     else bnd sleep (\<lambda>_. hang)))"
  by pat_completeness auto
termination by (relation "measure length") auto

definition uartwrite :: "u8 list \<Rightarrow> ('z ckernel_scheme, unit) kM" where
  "uartwrite bs =
     bnd (acquiresleep get_tx_lock set_tx_lock ChUartLock) (\<lambda>_.
     bnd (uartwrite_loop bs) (\<lambda>_.
     releasesleep set_tx_lock ChUartLock))"

text \<open>\<^verbatim>\<open>while ((ReadReg(LSR) & LSR_TX_IDLE) == 0);\<close>: the answers that remain, if it ends.\<close>

fun spin_idle :: "bool list \<Rightarrow> bool list option" where
  "spin_idle [] = None"
| "spin_idle (b # bs) = (if b then Some bs else spin_idle bs)"

definition uartputc_sync :: "u8 \<Rightarrow> ('z ckernel_scheme, unit) kM" where
  "uartputc_sync c =
     bnd (gets uart_idle) (\<lambda>q.
     case spin_idle q of
       None \<Rightarrow> hang
     | Some q' \<Rightarrow> bnd (upd (\<lambda>s. s\<lparr>uart_idle := q'\<rparr>)) (\<lambda>_. put_thr c))"

definition uartgetc :: "('z ckernel_scheme, int) kM" where
  "uartgetc =
     bnd (gets uart_rx) (\<lambda>rx.
     case rx of
       [] \<Rightarrow> ret (- 1)
     | c # cs \<Rightarrow> bnd (upd (\<lambda>s. s\<lparr>uart_rx := cs\<rparr>)) (\<lambda>_. ret (uint c)))"

subsection \<open>Console\<close>

definition consputc :: "int \<Rightarrow> ('z ckernel_scheme, unit) kM" where
  "consputc c =
     (if c = BACKSPACE then
        bnd (uartputc_sync 0x08) (\<lambda>_.
        bnd (uartputc_sync 0x20) (\<lambda>_.
        uartputc_sync 0x08))
      else uartputc_sync (of_int c))"

function consolewrite :: "copy_src \<Rightarrow> int \<Rightarrow> int \<Rightarrow> ('z ckernel_scheme, int) kM" where
  "consolewrite src i n =
     (if i < n then
        let nn = min 32 (n - i) in
        bnd (either_copyin src (nat nn)) (\<lambda>(r, bs).
        if r = - 1 then ret i
        else
          bnd (uartwrite bs) (\<lambda>_.
          consolewrite (copy_src_plus src (nat nn)) (i + nn) n))
      else ret i)"
  by pat_completeness auto
termination
  by (relation "measure (\<lambda>(src, i, n). nat (n - i))") auto

declare consolewrite.simps [simp del]

definition get_cons :: "(cons_state \<Rightarrow> 'a) \<Rightarrow> ('z ckernel_scheme, 'a) kM" where
  "get_cons f = gets (\<lambda>s. f (cons s))"

definition upd_cons :: "(cons_state \<Rightarrow> cons_state) \<Rightarrow> ('z ckernel_scheme, unit) kM" where
  "upd_cons f = upd (\<lambda>s. s\<lparr>cons := f (cons s)\<rparr>)"

text \<open>The slot of the circular buffer that an index refers to.\<close>

definition cons_at :: "cons_state \<Rightarrow> u32 \<Rightarrow> u8" where
  "cons_at c i = cons_buf c ! (unat i mod INPUT_BUF_SIZE)"

text \<open>\<^verbatim>\<open>cons.buf[cons.e++ % INPUT_BUF_SIZE] = c\<close>.\<close>

definition cons_put :: "u8 \<Rightarrow> cons_state \<Rightarrow> cons_state" where
  "cons_put c x = x\<lparr>cons_buf := (cons_buf x)[unat (cons_e x) mod INPUT_BUF_SIZE := c], cons_e := cons_e x + 1\<rparr>"

text \<open>The loop of \<^verbatim>\<open>consoleread\<close>; \<open>got\<close> is \<^verbatim>\<open>target - n\<close> and the fuel is the number of bytes still
  wanted.\<close>

fun consoleread_loop :: "copy_dst \<Rightarrow> nat \<Rightarrow> nat \<Rightarrow> ('z ckernel_scheme, int) kM" where
  "consoleread_loop dst got 0 = ret (int got)"
| "consoleread_loop dst got (Suc n) =
     bnd (get_cons (\<lambda>c. c)) (\<lambda>cs.
     if cons_r cs = cons_w cs then
       bnd the_proc (\<lambda>p.
       bnd (killed p) (\<lambda>k.
       if k then ret (- 1) else sleep_retry ChConsole))
     else
       let c = cons_at cs (cons_r cs) in
       bnd (upd_cons (\<lambda>x. x\<lparr>cons_r := cons_r x + 1\<rparr>)) (\<lambda>_.
       if c = 0x04 then
         bnd (whenM (got > 0) (upd_cons (\<lambda>x. x\<lparr>cons_r := cons_r x - 1\<rparr>))) (\<lambda>_. ret (int got))
       else
         bnd (either_copyout dst [c]) (\<lambda>r.
         if r = - 1 then ret (int got)
         else if c = 0x0A then ret (int (Suc got))
         else consoleread_loop (copy_dst_plus dst 1) (Suc got) n)))"

definition consoleread :: "copy_dst \<Rightarrow> int \<Rightarrow> ('z ckernel_scheme, int) kM" where
  "consoleread dst n = consoleread_loop dst 0 (nat n)"

text \<open>The loop that erases a line; each round moves \<^verbatim>\<open>e\<close> one step towards \<^verbatim>\<open>w\<close>.\<close>

fun kill_line :: "nat \<Rightarrow> ('z ckernel_scheme, unit) kM" where
  "kill_line 0 = hang"
| "kill_line (Suc k) =
     bnd (get_cons (\<lambda>c. c)) (\<lambda>cs.
     if cons_e cs \<noteq> cons_w cs \<and> cons_at cs (cons_e cs - 1) \<noteq> 0x0A then
       bnd (upd_cons (\<lambda>x. x\<lparr>cons_e := cons_e x - 1\<rparr>)) (\<lambda>_.
       bnd (consputc BACKSPACE) (\<lambda>_.
       kill_line k))
     else ret ())"

definition consoleintr :: "int \<Rightarrow> ('z ckernel_scheme, unit) kM" where
  "consoleintr c =
     (if c = 0x10 then procdump
      else if c = 0x15 then bnd (get_cons (\<lambda>x. unat (cons_e x - cons_w x))) (\<lambda>k. kill_line (Suc k))
      else if c = 0x08 \<or> c = 0x7F then
        bnd (get_cons (\<lambda>x. cons_e x \<noteq> cons_w x)) (\<lambda>b.
        whenM b
          (bnd (upd_cons (\<lambda>x. x\<lparr>cons_e := cons_e x - 1\<rparr>)) (\<lambda>_.
           consputc BACKSPACE)))
      else
        bnd (get_cons (\<lambda>x. unat (cons_e x - cons_r x) < INPUT_BUF_SIZE)) (\<lambda>room.
        whenM (c \<noteq> 0 \<and> room)
          (let c = (if c = 0x0D then 0x0A else c) in
           bnd (consputc c) (\<lambda>_.
           bnd (upd_cons (cons_put (of_int c))) (\<lambda>_.
           bnd (get_cons (\<lambda>x. x)) (\<lambda>x.
           whenM (c = 0x0A \<or> c = 0x04 \<or> unat (cons_e x - cons_r x) = INPUT_BUF_SIZE)
             (bnd (upd_cons (\<lambda>x. x\<lparr>cons_w := cons_e x\<rparr>)) (\<lambda>_.
              wakeup ChConsole))))))))"

fun uartintr_loop :: "nat \<Rightarrow> ('z ckernel_scheme, unit) kM" where
  "uartintr_loop 0 = hang"
| "uartintr_loop (Suc k) =
     bnd uartgetc (\<lambda>c.
     if c = - 1 then ret ()
     else bnd (consoleintr c) (\<lambda>_. uartintr_loop k))"

definition uartintr :: "('z ckernel_scheme, unit) kM" where
  "uartintr =
     bnd lsr_tx_idle (\<lambda>idle.
     bnd (whenM idle (wakeup ChUart)) (\<lambda>_.
     bnd (gets (\<lambda>s. length (uart_rx s))) (\<lambda>k.
     uartintr_loop (Suc k))))"

definition consoleinit :: "('z ckernel_scheme, unit) kM" where
  "consoleinit =
     bnd uartinit (\<lambda>_.
     upd (\<lambda>s. s\<lparr>devsw_read := (devsw_read s)[CONSOLE := Some Consoleread],
       devsw_write := (devsw_write s)[CONSOLE := Some Consolewrite]\<rparr>))"

end
