(* ===== verification/File.thy ===== *)
theory File
  imports Console
begin

text \<open>
  Open files (\<^verbatim>\<open>kernel/file.c\<close>) and pipes (\<^verbatim>\<open>kernel/pipe.c\<close>).  An open file is its index in the file
  table.  A pipe is an object in a page that \<^verbatim>\<open>kalloc\<close> has handed out; it is identified by the
  address of that page, and \<open>pipes\<close> gives its contents.
\<close>

datatype fdtype = FD_NONE | FD_PIPE | FD_INODE | FD_DEVICE

record kfile =
  f_type :: fdtype
  f_ref :: int
  f_readable :: bool
  f_writable :: bool
  f_pipe :: addr
  f_ip :: "nat option"
  f_off :: u32
  f_major :: u16

definition PIPESIZE :: nat where "PIPESIZE = 512"

record pipe =
  pi_data :: "u8 list"
  pi_nread :: u32
  pi_nwrite :: u32
  pi_readopen :: bool
  pi_writeopen :: bool

record ikernel = ckernel +
  ftable :: "nat \<Rightarrow> kfile"
  pipes :: "addr \<Rightarrow> pipe"

definition get_file :: "nat \<Rightarrow> (kfile \<Rightarrow> 'a) \<Rightarrow> ('z ikernel_scheme, 'a) kM" where
  "get_file f g = gets (\<lambda>s. g (ftable s f))"

definition upd_file :: "nat \<Rightarrow> (kfile \<Rightarrow> kfile) \<Rightarrow> ('z ikernel_scheme, unit) kM" where
  "upd_file f g = upd (\<lambda>s. s\<lparr>ftable := (ftable s)(f := g (ftable s f))\<rparr>)"

definition get_pipe :: "addr \<Rightarrow> (pipe \<Rightarrow> 'a) \<Rightarrow> ('z ikernel_scheme, 'a) kM" where
  "get_pipe p g = gets (\<lambda>s. g (pipes s p))"

definition upd_pipe :: "addr \<Rightarrow> (pipe \<Rightarrow> pipe) \<Rightarrow> ('z ikernel_scheme, unit) kM" where
  "upd_pipe p g = upd (\<lambda>s. s\<lparr>pipes := (pipes s)(p := g (pipes s p))\<rparr>)"

subsection \<open>Pipes\<close>

definition pipeclose :: "addr \<Rightarrow> bool \<Rightarrow> ('z ikernel_scheme, unit) kM" where
  "pipeclose pi writable =
     bnd (if writable then
            bnd (upd_pipe pi (\<lambda>p. p\<lparr>pi_writeopen := False\<rparr>)) (\<lambda>_. wakeup (ChPipeRead (unat pi)))
          else
            bnd (upd_pipe pi (\<lambda>p. p\<lparr>pi_readopen := False\<rparr>)) (\<lambda>_. wakeup (ChPipeWrite (unat pi)))) (\<lambda>_.
     bnd (get_pipe pi (\<lambda>p. \<not> pi_readopen p \<and> \<not> pi_writeopen p)) (\<lambda>dead.
     whenM dead (kfree pi)))"

text \<open>The ring buffer of a pipe.\<close>

definition pipe_full :: "pipe \<Rightarrow> bool" where
  "pipe_full p \<longleftrightarrow> pi_nwrite p = pi_nread p + of_nat PIPESIZE"

definition pipe_empty :: "pipe \<Rightarrow> bool" where
  "pipe_empty p \<longleftrightarrow> pi_nread p = pi_nwrite p"

definition pipe_put :: "u8 \<Rightarrow> pipe \<Rightarrow> pipe" where
  "pipe_put ch p = p\<lparr>pi_data := (pi_data p)[unat (pi_nwrite p) mod PIPESIZE := ch], pi_nwrite := pi_nwrite p + 1\<rparr>"

definition pipe_get :: "pipe \<Rightarrow> u8" where
  "pipe_get p = pi_data p ! (unat (pi_nread p) mod PIPESIZE)"

definition pipe_drop :: "pipe \<Rightarrow> pipe" where
  "pipe_drop p = p\<lparr>pi_nread := pi_nread p + 1\<rparr>"

text \<open>The loop of \<^verbatim>\<open>pipewrite\<close>; the last argument is \<^verbatim>\<open>n - i\<close>.  Inner \<open>None\<close> is the early return \<^verbatim>\<open>-1\<close>.\<close>

fun pipewrite_loop :: "addr \<Rightarrow> u64 \<Rightarrow> nat \<Rightarrow> nat \<Rightarrow> ('z ikernel_scheme, int option) kM" where
  "pipewrite_loop pi addr i 0 = ret (Some (int i))"
| "pipewrite_loop pi addr i (Suc k) =
     bnd the_proc (\<lambda>pr.
     bnd (killed pr) (\<lambda>kl.
     bnd (get_pipe pi (\<lambda>p. p)) (\<lambda>p.
     if \<not> pi_readopen p \<or> kl then ret None
     else if pipe_full p then
       bnd (wakeup (ChPipeRead (unat pi))) (\<lambda>_.
       sleep_retry (ChPipeWrite (unat pi)))
     else
       bnd (get_proc pr p_pagetable) (\<lambda>pt.
       bnd (get_proc pr p_sz) (\<lambda>sz.
       bnd (copyin pt sz (addr + of_nat i) 1) (\<lambda>(r, bs).
       if r = - 1 then ret (Some (if i = 0 then - 1 else int i))
       else
         bnd (upd_pipe pi (pipe_put (first_byte bs))) (\<lambda>_.
         pipewrite_loop pi addr (Suc i) k)))))))"

definition pipewrite :: "addr \<Rightarrow> u64 \<Rightarrow> int \<Rightarrow> ('z ikernel_scheme, int) kM" where
  "pipewrite pi addr n =
     bnd (pipewrite_loop pi addr 0 (nat n)) (\<lambda>res.
     case res of
       None \<Rightarrow> ret (- 1)
     | Some i \<Rightarrow> bnd (wakeup (ChPipeRead (unat pi))) (\<lambda>_. ret i))"

fun piperead_loop :: "addr \<Rightarrow> u64 \<Rightarrow> nat \<Rightarrow> nat \<Rightarrow> ('z ikernel_scheme, int) kM" where
  "piperead_loop pi addr i 0 = ret (int i)"
| "piperead_loop pi addr i (Suc k) =
     bnd (get_pipe pi (\<lambda>p. p)) (\<lambda>p.
     if pipe_empty p then ret (int i)
     else
       bnd the_proc (\<lambda>pr.
       bnd (get_proc pr p_pagetable) (\<lambda>pt.
       bnd (get_proc pr p_sz) (\<lambda>sz.
       bnd (copyout pt sz (addr + of_nat i) [pipe_get p]) (\<lambda>r.
       if r = - 1 then ret (if i = 0 then - 1 else int i)
       else
         bnd (upd_pipe pi pipe_drop) (\<lambda>_.
         piperead_loop pi addr (Suc i) k))))))"

definition piperead :: "addr \<Rightarrow> u64 \<Rightarrow> int \<Rightarrow> ('z ikernel_scheme, int) kM" where
  "piperead pi addr n =
     bnd (get_pipe pi (\<lambda>p. p)) (\<lambda>p.
     if pipe_empty p \<and> pi_writeopen p then
       bnd the_proc (\<lambda>pr.
       bnd (killed pr) (\<lambda>kl.
       if kl then ret (- 1) else sleep_retry (ChPipeRead (unat pi))))
     else
       bnd (piperead_loop pi addr 0 (nat n)) (\<lambda>i.
       bnd (wakeup (ChPipeWrite (unat pi))) (\<lambda>_.
       ret i)))"

subsection \<open>Files\<close>

fun filealloc_scan :: "(nat \<Rightarrow> kfile) \<Rightarrow> nat list \<Rightarrow> nat option" where
  "filealloc_scan T [] = None"
| "filealloc_scan T (f # fs) = (if f_ref (T f) = 0 then Some f else filealloc_scan T fs)"

definition filealloc :: "('z ikernel_scheme, nat option) kM" where
  "filealloc =
     bnd (gets (\<lambda>s. filealloc_scan (ftable s) [0..<NFILE])) (\<lambda>r.
     case r of
       None \<Rightarrow> ret None
     | Some f \<Rightarrow> bnd (upd_file f (\<lambda>x. x\<lparr>f_ref := 1\<rparr>)) (\<lambda>_. ret (Some f)))"

definition filedup :: "nat \<Rightarrow> ('z ikernel_scheme, nat) kM" where
  "filedup f =
     bnd (get_file f f_ref) (\<lambda>r.
     if r < 1 then panic ''filedup''
     else bnd (upd_file f (\<lambda>x. x\<lparr>f_ref := f_ref x + 1\<rparr>)) (\<lambda>_. ret f))"

definition fileclose :: "nat \<Rightarrow> ('z ikernel_scheme, unit) kM" where
  "fileclose f =
     bnd (get_file f f_ref) (\<lambda>r.
     if r < 1 then panic ''fileclose''
     else
       bnd (upd_file f (\<lambda>x. x\<lparr>f_ref := f_ref x - 1\<rparr>)) (\<lambda>_.
       if r - 1 > 0 then ret ()
       else
         bnd (get_file f (\<lambda>x. x)) (\<lambda>ff.
         bnd (upd_file f (\<lambda>x. x\<lparr>f_ref := 0, f_type := FD_NONE\<rparr>)) (\<lambda>_.
         if f_type ff = FD_PIPE then pipeclose (f_pipe ff) (f_writable ff)
         else
           whenM (f_type ff = FD_INODE \<or> f_type ff = FD_DEVICE)
             (bnd begin_op (\<lambda>_.
              bnd (deref (f_ip ff)) (\<lambda>i.
              bnd (iput i) (\<lambda>_.
              end_op))))))))"

definition pipealloc :: "('z ikernel_scheme, (nat \<times> nat) option) kM" where
  "pipealloc =
     bnd filealloc (\<lambda>f0.
     case f0 of
       None \<Rightarrow> ret None
     | Some a \<Rightarrow>
         bnd filealloc (\<lambda>f1.
         case f1 of
           None \<Rightarrow> bnd (fileclose a) (\<lambda>_. ret None)
         | Some b \<Rightarrow>
             bnd kalloc (\<lambda>pi.
             if pi = 0 then
               bnd (fileclose a) (\<lambda>_.
               bnd (fileclose b) (\<lambda>_. ret None))
             else
               bnd (upd_pipe pi (\<lambda>p. p\<lparr>pi_readopen := True, pi_writeopen := True, pi_nwrite := 0, pi_nread := 0\<rparr>)) (\<lambda>_.
               bnd (upd_file a (\<lambda>f. f\<lparr>f_type := FD_PIPE, f_readable := True, f_writable := False, f_pipe := pi\<rparr>)) (\<lambda>_.
               bnd (upd_file b (\<lambda>f. f\<lparr>f_type := FD_PIPE, f_readable := False, f_writable := True, f_pipe := pi\<rparr>)) (\<lambda>_.
               ret (Some (a, b))))))))"

text \<open>The bytes of \<^verbatim>\<open>struct stat\<close>; \<open>pad\<close> are the four bytes of padding, which the compiler leaves
  unspecified.\<close>

definition stat_bytes :: "u8 list \<Rightarrow> stat \<Rightarrow> u8 list" where
  "stat_bytes pad st = le32 (st_dev st) @ le32 (st_ino st) @ le16 (st_type st) @ le16 (st_nlink st) @ pad @ le64 (st_size st)"

definition filestat :: "u8 list \<Rightarrow> nat \<Rightarrow> u64 \<Rightarrow> ('z ikernel_scheme, int) kM" where
  "filestat pad f addr =
     bnd (get_file f (\<lambda>x. x)) (\<lambda>ff.
     if f_type ff = FD_INODE \<or> f_type ff = FD_DEVICE then
       bnd (ilock (f_ip ff)) (\<lambda>_.
       bnd (deref (f_ip ff)) (\<lambda>i.
       bnd (stati i) (\<lambda>st.
       bnd (iunlock (f_ip ff)) (\<lambda>_.
       bnd the_proc (\<lambda>p.
       bnd (get_proc p p_pagetable) (\<lambda>pt.
       bnd (get_proc p p_sz) (\<lambda>sz.
       bnd (copyout pt sz addr (stat_bytes pad st)) (\<lambda>r.
       ret (if r < 0 then - 1 else 0)))))))))
     else ret (- 1))"

text \<open>The entry of \<^verbatim>\<open>devsw\<close> for a major number, when there is one.\<close>

definition dev_fn :: "devfn option list \<Rightarrow> u16 \<Rightarrow> devfn option" where
  "dev_fn tab maj =
     (if sint maj < 0 \<or> sint maj \<ge> int NDEV then None
      else if nat (sint maj) < length tab then tab ! nat (sint maj) else None)"

definition fileread :: "nat \<Rightarrow> u64 \<Rightarrow> int \<Rightarrow> ('z ikernel_scheme, int) kM" where
  "fileread f addr n =
     bnd (get_file f (\<lambda>x. x)) (\<lambda>ff.
     if \<not> f_readable ff then ret (- 1)
     else
       case f_type ff of
         FD_PIPE \<Rightarrow> piperead (f_pipe ff) addr n
       | FD_DEVICE \<Rightarrow>
           bnd (gets devsw_read) (\<lambda>tab.
           case dev_fn tab (f_major ff) of
             Some Consoleread \<Rightarrow> consoleread (UserDst addr) n
           | Some Consolewrite \<Rightarrow> ub
           | None \<Rightarrow> ret (- 1))
       | FD_INODE \<Rightarrow>
           bnd (ilock (f_ip ff)) (\<lambda>_.
           bnd (deref (f_ip ff)) (\<lambda>i.
           bnd (readi i (UserDst addr) (f_off ff) (of_int n)) (\<lambda>(r, _).
           bnd (whenM (r > 0) (upd_file f (\<lambda>x. x\<lparr>f_off := f_off x + of_int r\<rparr>))) (\<lambda>_.
           bnd (iunlock (f_ip ff)) (\<lambda>_.
           ret r)))))
       | FD_NONE \<Rightarrow> panic ''fileread'')"

definition WRITE_MAX :: int where
  "WRITE_MAX = ((int MAXOPBLOCKS - 1 - 1 - 2) div 2) * int BSIZE"

text \<open>The loop over transactions of \<^verbatim>\<open>filewrite\<close>; the result is the final \<^verbatim>\<open>i\<close>.\<close>

function filewrite_loop :: "nat \<Rightarrow> u64 \<Rightarrow> int \<Rightarrow> int \<Rightarrow> ('z ikernel_scheme, int) kM" where
  "filewrite_loop f addr n i =
     (if i < n then
        let n1 = (if n - i > WRITE_MAX then WRITE_MAX else n - i) in
        bnd begin_op (\<lambda>_.
        bnd (get_file f (\<lambda>x. x)) (\<lambda>ff.
        bnd (ilock (f_ip ff)) (\<lambda>_.
        bnd (deref (f_ip ff)) (\<lambda>ip.
        bnd (writei ip (UserSrc (addr + of_int i)) (f_off ff) (of_int n1)) (\<lambda>r.
        bnd (whenM (r > 0) (upd_file f (\<lambda>x. x\<lparr>f_off := f_off x + of_int r\<rparr>))) (\<lambda>_.
        bnd (iunlock (f_ip ff)) (\<lambda>_.
        bnd end_op (\<lambda>_.
        if r \<noteq> n1 then ret i else filewrite_loop f addr n (i + n1)))))))))
      else ret i)"
  by pat_completeness auto
termination
  by (relation "measure (\<lambda>(f, addr, n, i). nat (n - i))") (auto simp: WRITE_MAX_def BSIZE_def MAXOPBLOCKS_def)

declare filewrite_loop.simps [simp del]

definition filewrite :: "nat \<Rightarrow> u64 \<Rightarrow> int \<Rightarrow> ('z ikernel_scheme, int) kM" where
  "filewrite f addr n =
     bnd (get_file f (\<lambda>x. x)) (\<lambda>ff.
     if \<not> f_writable ff then ret (- 1)
     else
       case f_type ff of
         FD_PIPE \<Rightarrow> pipewrite (f_pipe ff) addr n
       | FD_DEVICE \<Rightarrow>
           bnd (gets devsw_write) (\<lambda>tab.
           case dev_fn tab (f_major ff) of
             Some Consolewrite \<Rightarrow> consolewrite (UserSrc addr) 0 n
           | Some Consoleread \<Rightarrow> ub
           | None \<Rightarrow> ret (- 1))
       | FD_INODE \<Rightarrow>
           bnd (filewrite_loop f addr n 0) (\<lambda>i.
           ret (if i = n then n else - 1))
       | FD_NONE \<Rightarrow> panic ''filewrite'')"

end
