(* ===== verification/Ring_Buffer.thy ===== *)
theory Ring_Buffer
  imports Xv6_Prelude
begin

text \<open>
  Circular buffers with free-running 32-bit indices, as in \<^verbatim>\<open>kernel/pipe.c\<close> and
  \<^verbatim>\<open>kernel/console.c\<close>: an index is reduced modulo the size of the buffer when it is used, and the
  indices themselves wrap around at \<open>2 ^ 32\<close>.  \<open>ring_contents\<close> is the queue that such a buffer
  represents.  The contract of a queue of bytes is the locale \<open>byte_queue\<close>; the locale \<open>byte_ring\<close>
  is the layout of a circular buffer, and it provides a queue.
\<close>

definition ring_contents :: "nat \<Rightarrow> u8 list \<Rightarrow> u32 \<Rightarrow> u32 \<Rightarrow> u8 list" where
  "ring_contents sz buf r w = map (\<lambda>k. buf ! (unat (r + of_nat k) mod sz)) [0..<unat (w - r)]"

lemma length_ring_contents [simp]: "length (ring_contents sz buf r w) = unat (w - r)"
  by (simp add: ring_contents_def)

lemma ring_contents_empty [simp]: "ring_contents sz buf r r = []"
  by (simp add: ring_contents_def)

lemma ring_contents_Nil_iff: "ring_contents sz buf r w = [] \<longleftrightarrow> r = w"
  by (metis length_0_conv length_ring_contents right_minus_eq unat_eq_zero)

lemma unat_add_mod:
  assumes "sz dvd (2 ^ 32 :: nat)"
  shows "unat (r + of_nat k :: u32) mod sz = (unat r + k) mod sz"
proof -
  have "unat (r + of_nat k :: u32) = (unat r + k) mod 2 ^ 32"
    by (simp add: unat_word_ariths unat_of_nat take_bit_eq_mod mod_simps)
  then show ?thesis using assms by (simp add: mod_mod_cancel)
qed

lemma ring_slots_distinct:
  assumes "sz dvd (2 ^ 32 :: nat)" "k < n" "n < sz"
  shows "unat (r + of_nat k :: u32) mod sz \<noteq> unat (r + of_nat n :: u32) mod sz"
proof
  assume "unat (r + of_nat k :: u32) mod sz = unat (r + of_nat n :: u32) mod sz"
  then have "(unat r + n) mod sz = (unat r + k) mod sz" by (simp add: unat_add_mod [OF assms(1)])
  then have "sz dvd (unat r + n) - (unat r + k)" using assms(2) by (subst (asm) mod_eq_dvd_iff_nat) auto
  then show False using assms by (auto dest: dvd_imp_le)
qed

lemma word_diff_upto: "(r :: u32) + of_nat (unat (w - r)) = w"
  by simp

lemma unat_Suc_diff: "unat (w - r :: u32) < n \<Longrightarrow> n < 2 ^ 32 \<Longrightarrow> unat (w + 1 - r) = Suc (unat (w - r))"
proof -
  assume "unat (w - r) < n" "n < 2 ^ 32"
  then have "unat (w - r + of_nat 1) = unat (w - r) + 1" by (intro unat_add_small) simp
  then show ?thesis by (simp add: add_diff_eq diff_add_eq)
qed

lemma ring_put:
  assumes d: "sz dvd (2 ^ 32 :: nat)" "sz < 2 ^ 32" and l: "length buf = sz" "unat (w - r) < sz"
  shows "ring_contents sz (buf[unat w mod sz := c]) r (w + 1) = ring_contents sz buf r w @ [c]"
proof -
  let ?n = "unat (w - r)"
  have n: "unat (w + 1 - r) = Suc ?n" using unat_Suc_diff [OF l(2) d(2)] .
  have at: "unat (r + of_nat ?n) mod sz = unat w mod sz" by (simp only: word_diff_upto)
  have "buf[unat w mod sz := c] ! (unat (r + of_nat k) mod sz) = buf ! (unat (r + of_nat k) mod sz)" if "k < ?n" for k
    using ring_slots_distinct [OF d(1) that l(2), of r] by (simp only: at) (simp add: nth_list_update_neq)
  moreover have "buf[unat w mod sz := c] ! (unat (r + of_nat ?n) mod sz) = c"
    unfolding at using l by (intro nth_list_update_eq) (metis less_nat_zero_code mod_less_divisor not_gr_zero)
  ultimately show ?thesis unfolding ring_contents_def n by simp
qed

lemma unat_minus_diff: "r \<noteq> (w :: u32) \<Longrightarrow> Suc (unat (w - r - 1)) = unat (w - r)"
  using unat_minus_one [of "w - r"] unat_gt_0 [of "w - r"] by simp

lemma ring_get:
  assumes "r \<noteq> w"
  shows "ring_contents sz buf r w = buf ! (unat r mod sz) # ring_contents sz buf (r + 1) w"
proof -
  have "unat (w - r) = Suc (unat (w - (r + 1)))" using unat_minus_diff [OF assms] by (simp add: algebra_simps)
  then show ?thesis
    unfolding ring_contents_def by (simp only: upt_conv_Cons zero_less_Suc list.map) (simp add: map_Suc_upt [symmetric] comp_def algebra_simps del: upt_Suc)
qed

lemma ring_unput:
  assumes "r \<noteq> w"
  shows "ring_contents sz buf r (w - 1) = butlast (ring_contents sz buf r w)"
    and "last (ring_contents sz buf r w) = buf ! (unat (w - 1) mod sz)"
proof -
  have n: "unat (w - r) = Suc (unat (w - 1 - r))" using unat_minus_diff [OF assms] by (simp add: algebra_simps)
  show "ring_contents sz buf r (w - 1) = butlast (ring_contents sz buf r w)"
    unfolding ring_contents_def n by simp
  have "r + of_nat (unat (w - 1 - r)) = w - 1" by (rule word_diff_upto)
  then show "last (ring_contents sz buf r w) = buf ! (unat (w - 1) mod sz)"
    unfolding ring_contents_def n by simp
qed

lemma ring_split:
  assumes "unat (w - r) + unat (e - w) = unat (e - r)"
  shows "ring_contents sz buf r e = ring_contents sz buf r w @ ring_contents sz buf w e"
proof (rule nth_equalityI)
  fix i
  assume "i < length (ring_contents sz buf r e)"
  then have i: "i < unat (e - r)" by simp
  show "ring_contents sz buf r e ! i = (ring_contents sz buf r w @ ring_contents sz buf w e) ! i"
  proof (cases "i < unat (w - r)")
    case True
    then show ?thesis using i by (simp add: ring_contents_def nth_append)
  next
    case False
    have "r + of_nat i = w + of_nat (i - unat (w - r))"
    proof -
      have "r + of_nat i = r + of_nat (unat (w - r)) + of_nat (i - unat (w - r))"
        using False by (simp only: add.assoc of_nat_add [symmetric]) simp
      then show ?thesis by (simp only: word_diff_upto)
    qed
    moreover have "i - unat (w - r) < unat (e - w)" using i False assms by simp
    ultimately show ?thesis using i False by (simp add: ring_contents_def nth_append add.commute)
  qed
qed (use assms in simp)

subsection \<open>The contract of a queue\<close>

locale byte_queue =
  fixes ok :: "'q \<Rightarrow> bool"
    and contents :: "'q \<Rightarrow> u8 list"
    and put :: "u8 \<Rightarrow> 'q \<Rightarrow> 'q"
    and get :: "'q \<Rightarrow> u8"
    and del :: "'q \<Rightarrow> 'q"
    and cap :: nat
  assumes put_contents: "ok q \<Longrightarrow> length (contents q) < cap \<Longrightarrow> contents (put c q) = contents q @ [c]"
    and put_inv: "ok q \<Longrightarrow> length (contents q) < cap \<Longrightarrow> ok (put c q)"
    and get_contents: "ok q \<Longrightarrow> contents q \<noteq> [] \<Longrightarrow> contents q = get q # contents (del q)"
    and del_inv: "ok q \<Longrightarrow> contents q \<noteq> [] \<Longrightarrow> ok (del q)"
begin

lemma put_all:
  "ok q \<Longrightarrow> length (contents q) + length cs \<le> cap \<Longrightarrow>
   contents (fold put cs q) = contents q @ cs \<and> ok (fold put cs q)"
proof (induction cs arbitrary: q)
  case (Cons c cs)
  then have "length (contents q) < cap" by simp
  with Cons show ?case using put_contents [of q c] put_inv [of q c] by simp
qed simp

lemma del_all:
  "ok q \<Longrightarrow> n \<le> length (contents q) \<Longrightarrow> contents ((del ^^ n) q) = drop n (contents q) \<and> ok ((del ^^ n) q)"
proof (induction n)
  case (Suc n)
  then have IH: "contents ((del ^^ n) q) = drop n (contents q)" "ok ((del ^^ n) q)" by auto
  have ne: "contents ((del ^^ n) q) \<noteq> []" using IH Suc.prems by simp
  have "contents ((del ^^ Suc n) q) = tl (contents ((del ^^ n) q))" using get_contents [OF IH(2) ne] by (metis funpow.simps(2) comp_apply list.sel(3))
  then show ?case using IH del_inv [OF IH(2) ne] by (simp add: drop_Suc tl_drop)
qed simp

lemma fifo:
  assumes "ok q" "contents q = []" "length cs \<le> cap" "n < length cs"
  shows "get ((del ^^ n) (fold put cs q)) = cs ! n"
proof -
  have p: "contents (fold put cs q) = cs" "ok (fold put cs q)" using put_all [OF assms(1)] assms by auto
  then have d: "contents ((del ^^ n) (fold put cs q)) = drop n cs" "ok ((del ^^ n) (fold put cs q))"
    using del_all [of "fold put cs q" n] assms(4) by auto
  moreover have "drop n cs = cs ! n # drop (Suc n) cs" using assms(4) by (simp add: Cons_nth_drop_Suc)
  ultimately show ?thesis using get_contents [OF d(2)] by simp
qed

end

subsection \<open>A circular buffer is a queue\<close>

locale byte_ring =
  fixes sz :: nat
    and slots :: "'q \<Rightarrow> u8 list"
    and rd :: "'q \<Rightarrow> u32"
    and wr :: "'q \<Rightarrow> u32"
    and put :: "u8 \<Rightarrow> 'q \<Rightarrow> 'q"
    and get :: "'q \<Rightarrow> u8"
    and del :: "'q \<Rightarrow> 'q"
  assumes sz_dvd: "sz dvd (2 ^ 32 :: nat)" and sz_less: "sz < 2 ^ 32"
    and put_layout: "slots (put c q) = (slots q)[unat (wr q) mod sz := c]" "wr (put c q) = wr q + 1" "rd (put c q) = rd q"
    and get_layout: "get q = slots q ! (unat (rd q) mod sz)"
    and del_layout: "slots (del q) = slots q" "wr (del q) = wr q" "rd (del q) = rd q + 1"
begin

sublocale byte_queue "\<lambda>q. length (slots q) = sz \<and> unat (wr q - rd q) \<le> sz"
  "\<lambda>q. ring_contents sz (slots q) (rd q) (wr q)" put get del sz
proof
  fix q c
  assume q: "length (slots q) = sz \<and> unat (wr q - rd q) \<le> sz"
    and l: "length (ring_contents sz (slots q) (rd q) (wr q)) < sz"
  then have l': "unat (wr q - rd q) < sz" by simp
  show "ring_contents sz (slots (put c q)) (rd (put c q)) (wr (put c q)) = ring_contents sz (slots q) (rd q) (wr q) @ [c]"
    unfolding put_layout using ring_put [OF sz_dvd sz_less] q l' by simp
  show "length (slots (put c q)) = sz \<and> unat (wr (put c q) - rd (put c q)) \<le> sz"
    unfolding put_layout using q l' unat_Suc_diff [OF l' sz_less] by simp
next
  fix q
  assume q: "length (slots q) = sz \<and> unat (wr q - rd q) \<le> sz"
    and ne: "ring_contents sz (slots q) (rd q) (wr q) \<noteq> []"
  then have ne': "rd q \<noteq> wr q" by (simp add: ring_contents_Nil_iff)
  show "ring_contents sz (slots q) (rd q) (wr q) = get q # ring_contents sz (slots (del q)) (rd (del q)) (wr (del q))"
    unfolding del_layout get_layout by (rule ring_get [OF ne'])
  show "length (slots (del q)) = sz \<and> unat (wr (del q) - rd (del q)) \<le> sz"
    unfolding del_layout using q unat_minus_diff [OF ne'] by (simp add: algebra_simps)
qed

lemma full_iff:
  assumes "unat (wr q - rd q) \<le> sz"
  shows "wr q = rd q + of_nat sz \<longleftrightarrow> length (ring_contents sz (slots q) (rd q) (wr q)) = sz"
proof -
  have "wr q - rd q = of_nat sz \<longleftrightarrow> unat (wr q - rd q) = sz"
    using sz_less by (auto simp: unat_of_nat take_bit_nat_eq_self)
  then show ?thesis by (simp add: algebra_simps)
qed

end

end
