(* ===== verification/Pipe_Queue.thy ===== *)
theory Pipe_Queue
  imports File Ring_Buffer User_Copy Proc_Sync
begin

text \<open>
  Pipes are queues.  The ring buffer of \<^verbatim>\<open>kernel/pipe.c\<close> provides the contract \<open>byte_queue\<close>, and
  \<^verbatim>\<open>pipewrite\<close> and \<^verbatim>\<open>piperead\<close> append to the queue and take from its front.
\<close>

definition pipe_contents :: "pipe \<Rightarrow> u8 list" where
  "pipe_contents p = ring_contents PIPESIZE (pi_data p) (pi_nread p) (pi_nwrite p)"

definition pipe_ok :: "pipe \<Rightarrow> bool" where
  "pipe_ok p \<longleftrightarrow> length (pi_data p) = PIPESIZE \<and> unat (pi_nwrite p - pi_nread p) \<le> PIPESIZE"

interpretation pipe_ring: byte_ring PIPESIZE pi_data pi_nread pi_nwrite pipe_put pipe_get pipe_drop
  by unfold_locales (simp_all add: PIPESIZE_def pipe_put_def pipe_get_def pipe_drop_def)

lemma pipe_put_queue:
  "pipe_ok p \<Longrightarrow> \<not> pipe_full p \<Longrightarrow> pipe_contents (pipe_put c p) = pipe_contents p @ [c] \<and> pipe_ok (pipe_put c p)"
  using pipe_ring.put_contents [of p c] pipe_ring.put_inv [of p c] pipe_ring.full_iff [of p]
  by (auto simp: pipe_ok_def pipe_contents_def pipe_full_def)

lemma pipe_get_queue:
  "pipe_ok p \<Longrightarrow> \<not> pipe_empty p \<Longrightarrow> pipe_contents p = pipe_get p # pipe_contents (pipe_drop p) \<and> pipe_ok (pipe_drop p)"
  using pipe_ring.get_contents [of p] pipe_ring.del_inv [of p]
  by (auto simp: pipe_ok_def pipe_contents_def pipe_empty_def ring_contents_Nil_iff)

lemma pipe_empty_iff: "pipe_empty p \<longleftrightarrow> pipe_contents p = []"
  by (auto simp: pipe_empty_def pipe_contents_def ring_contents_Nil_iff)

subsection \<open>Writing from user memory\<close>

lemma user_bytes_Suc: "user_bytes m pt va (Suc n) = m (user_phys m pt va) # user_bytes m pt (va + 1) n"
proof -
  have "[0..<Suc n] = 0 # map Suc [0..<n]" by (simp add: map_Suc_upt del: upt_Suc add: upt_conv_Cons)
  then show ?thesis by (simp add: user_bytes_def comp_def add.assoc del: upt_Suc)
qed

lemma vm_inv_more [simp]: "vm_inv (s\<lparr>pipes := P\<rparr>) pt fl = vm_inv s pt fl"
  by (simp add: vm_inv_def kmem_inv_def kpage_def)

lemma the_proc_cur: "cur s = Some p \<Longrightarrow> the_proc s = Ok p s"
  by (simp add: the_proc_def myproc_def monad_defs)

text \<open>Process \<open>p\<close> runs, is not killed and has the given page table.\<close>

definition running :: "nat \<Rightarrow> pagetable \<Rightarrow> 'z pkernel_scheme \<Rightarrow> bool" where
  "running p pt s \<longleftrightarrow> cur s = Some p \<and> \<not> p_killed (procs s p) \<and> p_pagetable (procs s p) = pt"

lemma pipewrite_loop_run:
  assumes "running p pt s" "vm_inv s pt fl" "pi_readopen (pipes s pi)" "pipe_ok (pipes s pi)"
    "length (pipe_contents (pipes s pi)) + k \<le> PIPESIZE" "unat (va + of_nat i) + k \<le> 2 ^ 38"
    "\<And>j. j < k \<Longrightarrow> user_ok (mem s) pt (va + of_nat i + of_nat j)"
  shows "pipewrite_loop pi va i k s = Ok (Some (int (i + k)))
    (s\<lparr>pipes := (pipes s)(pi := fold pipe_put (user_bytes (mem s) pt (va + of_nat i) k) (pipes s pi))\<rparr>)"
  using assms
proof (induction k arbitrary: i s)
  case 0
  then show ?case by (simp add: user_bytes_def ret_def)
next
  case (Suc k)
  let ?a = "va + of_nat i" and ?P = "pipes s pi"
  let ?c = "mem s (user_phys (mem s) pt ?a)"
  let ?s = "s\<lparr>pipes := (pipes s)(pi := pipe_put ?c ?P)\<rparr>"
  have nf: "\<not> pipe_full ?P"
    using Suc.prems(4,5) pipe_ring.full_iff [of ?P] by (auto simp: pipe_full_def pipe_ok_def pipe_contents_def)
  have q: "pipe_contents (pipe_put ?c ?P) = pipe_contents ?P @ [?c]" "pipe_ok (pipe_put ?c ?P)"
    using pipe_put_queue [OF Suc.prems(4) nf] by auto
  have ub: "user_bytes (mem s) pt ?a 1 = [?c]" using user_bytes_Suc [of "mem s" pt ?a 0] by simp
  have "unat ?a + 1 \<le> 2 ^ 38" "\<And>j. j < 1 \<Longrightarrow> user_ok (mem s) pt (?a + of_nat j)"
    using Suc.prems(6,7) by (auto simp: Suc.prems(7) [of 0, simplified])
  from copyin_mapped [OF Suc.prems(2) this]
  have ci: "copyin pt (p_sz (procs s p)) ?a 1 s = Ok (0, [?c]) s" unfolding ub .
  have a': "va + of_nat (Suc i) = ?a + 1" by (simp add: add.commute add.left_commute)
  have un: "unat (?a + 1) = unat ?a + 1" using unat_add_small [of ?a 1] Suc.prems(6) by simp
  have "pipewrite_loop pi va (Suc i) k ?s = Ok (Some (int (Suc i + k)))
      (?s\<lparr>pipes := (pipes ?s)(pi := fold pipe_put (user_bytes (mem ?s) pt (va + of_nat (Suc i)) k) (pipes ?s pi))\<rparr>)"
  proof (rule Suc.IH)
    show "running p pt ?s" "vm_inv ?s pt fl" "pi_readopen (pipes ?s pi)" "pipe_ok (pipes ?s pi)"
      using Suc.prems(1-3) q by (simp_all add: running_def pipe_put_def)
    show "length (pipe_contents (pipes ?s pi)) + k \<le> PIPESIZE" using Suc.prems(5) q by simp
    show "unat (va + of_nat (Suc i)) + k \<le> 2 ^ 38" unfolding a' un using Suc.prems(6) by simp
    show "user_ok (mem ?s) pt (va + of_nat (Suc i) + of_nat j)" if "j < k" for j
      using Suc.prems(7) [of "Suc j"] that by (simp add: a' add.assoc add.left_commute)
  qed
  moreover have "pipewrite_loop pi va i (Suc k) s = pipewrite_loop pi va (Suc i) k ?s"
    using Suc.prems(1,3) nf ci
    by (simp add: bnd_def the_proc_cur running_def killed_def get_proc_def gets_def get_pipe_def upd_pipe_def upd_def)
  moreover have "user_bytes (mem s) pt ?a (Suc k) = ?c # user_bytes (mem s) pt (va + of_nat (Suc i)) k"
    unfolding a' by (rule user_bytes_Suc)
  then have "?s\<lparr>pipes := (pipes ?s)(pi := fold pipe_put (user_bytes (mem ?s) pt (va + of_nat (Suc i)) k) (pipes ?s pi))\<rparr> =
      s\<lparr>pipes := (pipes s)(pi := fold pipe_put (user_bytes (mem s) pt ?a (Suc k)) ?P)\<rparr>" by simp
  ultimately show ?case by (simp only: add_Suc add_Suc_right)
qed

text \<open>C10 \<^verbatim>\<open>pipewrite\<close> appends.  When the buffer has room for \<open>n\<close> bytes, the read end is open, the process
  is not killed and its memory is mapped, \<^verbatim>\<open>pipewrite\<close> returns \<open>n\<close> and appends exactly the \<open>n\<close> bytes of
  user memory to the queue that the ring buffer represents, for every value of the free-running
  indices; the other pipes, and memory, do not change.\<close>

theorem pipewrite_appends:
  assumes "running p pt s" and "vm_inv s pt fl" and "pi_readopen (pipes s pi)" and "pipe_ok (pipes s pi)"
    and "length (pipe_contents (pipes s pi)) + n \<le> PIPESIZE" and "unat va + n \<le> 2 ^ 38"
    and "\<forall>j<n. user_ok (mem s) pt (va + of_nat j)"
  shows "\<exists>t. pipewrite pi va (int n) s = Ok (int n) t \<and> pipe_ok (pipes t pi) \<and> mem t = mem s
    \<and> pipe_contents (pipes t pi) = pipe_contents (pipes s pi) @ user_bytes (mem s) pt va n
    \<and> (\<forall>q. q \<noteq> pi \<longrightarrow> pipes t q = pipes s q)"
proof -
  let ?bs = "user_bytes (mem s) pt va n"
  let ?P = "fold pipe_put ?bs (pipes s pi)"
  have "pipewrite_loop pi va 0 n s = Ok (Some (int n)) (s\<lparr>pipes := (pipes s)(pi := ?P)\<rparr>)"
    using pipewrite_loop_run [OF assms(1-5), of va 0] assms(6,7) by simp
  then have "pipewrite pi va (int n) s = Ok (int n) (s\<lparr>pipes := (pipes s)(pi := ?P), procs := wakeup_tab (ChPipeRead (unat pi)) (procs s)\<rparr>)"
    by (simp add: pipewrite_def bnd_def wakeup_eq ret_def)
  moreover have "length ?bs = n" by (simp add: user_bytes_def)
  then have "pipe_contents ?P = pipe_contents (pipes s pi) @ ?bs \<and> pipe_ok ?P"
    using pipe_ring.put_all [of "pipes s pi" ?bs] assms(4,5) by (simp add: pipe_ok_def pipe_contents_def)
  ultimately show ?thesis by simp
qed

text \<open>A process with one page of memory, and a pipe whose indices are about to wrap around.\<close>

definition pipe_demo :: ikernel where
  "pipe_demo = \<lparr>mem = mem copy_demo, freelist = 0, kend = 0x80001000, klog = [], etext = 0x80008000,
     trampoline = 0x80007000, kernel_pagetable = 0, satp = 0,
     procs = (\<lambda>_. proc0\<lparr>p_pid := 7, p_sz := 4096, p_pagetable := 0x80001000\<rparr>), cur = Some 3,
     nextpid = 8, initproc = Some 1, ticks = 0, sym_forkret = 0, disk = (\<lambda>_. []), dtrace = [],
     bufs = (\<lambda>_. \<lparr>b_valid = False, b_disk = False, b_dev = 0, b_blockno = 0, b_lock = initsleeplock, b_refcnt = 0,
       b_prev = 0, b_next = 0, b_data = []\<rparr>),
     log = \<lparr>l_start = 2, l_outstanding = 0, l_committing = False, l_dev = 1, l_ncommit = 0, lh_n = 0, lh_block = []\<rparr>,
     sb = \<lparr>sb_magic = 0, sb_size = 0, sb_nblocks = 0, sb_ninodes = 0, sb_nlog = 0, sb_logstart = 0, sb_inodestart = 0,
       sb_bmapstart = 0\<rparr>,
     itable = (\<lambda>_. \<lparr>i_dev = 0, i_inum = 0, i_ref = 0, i_lock = initsleeplock, i_valid = False, i_type = 0, i_major = 0,
       i_minor = 0, i_nlink = 0, i_size = 0, i_addrs = []\<rparr>),
     uart_rx = [], uart_idle = [], uart_tx = [], uart_regs = [], tx_lock = initsleeplock,
     cons = \<lparr>cons_buf = replicate INPUT_BUF_SIZE 0, cons_r = 0, cons_w = 0, cons_e = 0\<rparr>,
     devsw_read = [], devsw_write = [],
     ftable = (\<lambda>_. \<lparr>f_type = FD_NONE, f_ref = 0, f_readable = False, f_writable = False, f_pipe = 0, f_ip = None,
       f_off = 0, f_major = 0\<rparr>),
     pipes = (\<lambda>_. \<lparr>pi_data = (replicate PIPESIZE 0)[511 := 0x41], pi_nread = 0xFFFFFFFF, pi_nwrite = 0,
       pi_readopen = True, pi_writeopen = True\<rparr>)\<rparr>"

lemma pipe_demo_props:
  "running 3 0x80001000 pipe_demo" "vm_inv pipe_demo 0x80001000 []" "pipe_ok (pipes pipe_demo q)"
  "pipe_contents (pipes pipe_demo q) = [0x41]" "mem pipe_demo = mem copy_demo" "pi_readopen (pipes pipe_demo q)"
proof -
  show "running 3 0x80001000 pipe_demo" by (simp add: running_def pipe_demo_def proc0_def)
  show "vm_inv pipe_demo 0x80001000 []" using copy_demo_inv(1)
    by (simp add: vm_inv_def kmem_inv_def kpage_def pipe_demo_def) (simp add: copy_demo_def)
  show "pipe_ok (pipes pipe_demo q)" by (simp add: pipe_ok_def pipe_demo_def PIPESIZE_def)
  show "pipe_contents (pipes pipe_demo q) = [0x41]" by (simp add: pipe_contents_def ring_contents_def pipe_demo_def PIPESIZE_def)
qed (simp_all add: pipe_demo_def)

theorem pipewrite_appends_witness:
  "\<exists>t. pipewrite 0x80009000 0x10 2 pipe_demo = Ok 2 t \<and> pipe_contents (pipes t 0x80009000) = [0x41, 0, 0]"
proof -
  have w: "\<forall>j<2. user_ok (mem pipe_demo) 0x80001000 (0x10 + of_nat j)"
    using copy_demo_writable(1) [of "0x10"] copy_demo_writable(1) [of "0x11"]
    by (auto simp: pipe_demo_props user_writable_def Let_def less_2_cases_iff)
  have "user_bytes (mem pipe_demo) 0x80001000 0x10 2 = [0, 0]"
  proof -
    have "user_phys (mem copy_demo) 0x80001000 0x10 = 0x80004010" "user_phys (mem copy_demo) 0x80001000 0x11 = 0x80004011"
      by (subst copy_demo_writable(2); simp)+
    moreover have "mem copy_demo 0x80004010 = 0" "mem copy_demo 0x80004011 = 0"
      by (simp_all add: copy_demo_def sd64_def pte_addr_def)
    ultimately show ?thesis by (simp add: user_bytes_def pipe_demo_props numeral_2_eq_2)
  qed
  moreover have "\<exists>t. pipewrite 0x80009000 0x10 (int 2) pipe_demo = Ok (int 2) t \<and> pipe_ok (pipes t 0x80009000) \<and> mem t = mem pipe_demo
    \<and> pipe_contents (pipes t 0x80009000) = pipe_contents (pipes pipe_demo 0x80009000) @ user_bytes (mem pipe_demo) 0x80001000 0x10 2
    \<and> (\<forall>q. q \<noteq> 0x80009000 \<longrightarrow> pipes t q = pipes pipe_demo q)"
    by (rule pipewrite_appends [OF pipe_demo_props(1,2,6,3)]) (use w in \<open>simp_all add: pipe_demo_props PIPESIZE_def\<close>)
  ultimately show ?thesis by (auto simp: pipe_demo_props(4))
qed

subsection \<open>Reading into user memory\<close>

lemma copyout_mapped:
  assumes "vm_inv s pt fl" "unat va + length src \<le> 2 ^ 38"
    and "\<And>i. i < length src \<Longrightarrow> user_writable s pt fl (va + of_nat i)"
    and "inj_on (\<lambda>i. user_phys (mem s) pt (va + of_nat i)) {..<length src}"
  shows "\<exists>m'. copyout pt psz va src s = Ok 0 (s\<lparr>mem := m'\<rparr>) \<and> wrote (mem s) pt va src m'
    \<and> (\<forall>x. PGROUNDDOWN x \<in> pt_pages (mem s) pt \<union> set fl \<longrightarrow> m' x = mem s x)"
proof -
  have "unat va mod 4096 < 4096" by simp
  then have "unat va mod 4096 + length src + 4096 \<le> 4096 * vm_fuel"
    using assms(2) unfolding vm_fuel_def by simp
  from copyout_loop_mapped [OF assms this] show ?thesis by (simp add: copyout_def)
qed

text \<open>What a read of \<open>bs\<close> into the memory at \<open>va\<close> leaves: the bytes are stored, and neither the page
  table nor a free page is touched.\<close>

definition stored :: "'z kernel_scheme \<Rightarrow> pagetable \<Rightarrow> addr list \<Rightarrow> u64 \<Rightarrow> u8 list \<Rightarrow> memory \<Rightarrow> bool" where
  "stored s pt fl va bs m' \<longleftrightarrow> wrote (mem s) pt va bs m' \<and> (\<forall>x. PGROUNDDOWN x \<in> pt_pages (mem s) pt \<union> set fl \<longrightarrow> m' x = mem s x)"

lemma stored_same:
  assumes "vm_inv s pt fl" "stored s pt fl va bs m"
  shows "vm_inv (s\<lparr>mem := m\<rparr>) pt fl" "\<And>a. pt_lookup m pt a = pt_lookup (mem s) pt a" "pt_pages m pt = pt_pages (mem s) pt"
    "\<And>a. user_phys m pt a = user_phys (mem s) pt a" "\<And>a. user_writable (s\<lparr>mem := m\<rparr>) pt fl a = user_writable s pt fl a"
proof -
  have wf: "pt_wf (mem s) pt" using assms(1) by (simp add: vm_inv_def)
  have m: "m x = mem s x" if "PGROUNDDOWN x \<in> pt_pages (mem s) pt \<union> set fl" for x using assms(2) that unfolding stored_def by blast
  show l: "pt_lookup m pt a = pt_lookup (mem s) pt a" for a by (rule outside_nodes(2) [OF wf], rule m, simp)
  show p: "pt_pages m pt = pt_pages (mem s) pt" by (rule outside_nodes [OF wf], rule m, simp)
  show "vm_inv (s\<lparr>mem := m\<rparr>) pt fl" by (rule outside_inv [OF assms(1)]) (rule m)
  show "user_phys m pt a = user_phys (mem s) pt a" "user_writable (s\<lparr>mem := m\<rparr>) pt fl a = user_writable s pt fl a" for a
    using writable_same [OF l p] by auto
qed

lemma mem_pipes_update: "s\<lparr>mem := m, pipes := P, mem := m', pipes := P'\<rparr> = s\<lparr>mem := m', pipes := P'\<rparr>"
  by (cases s) simp

lemma stored_append:
  assumes inv: "vm_inv s pt fl" and "stored s pt fl va xs m1" "stored (s\<lparr>mem := m1, pipes := P\<rparr>) pt fl (va + of_nat (length xs)) ys m2"
    and inj: "inj_on (\<lambda>i. user_phys (mem s) pt (va + of_nat i)) {..<length xs + length ys}"
  shows "stored s pt fl va (xs @ ys) m2"
proof -
  note same = stored_same [OF inv assms(2)]
  have "wrote (mem s) pt va (xs @ ys) m2"
    by (rule wrote_append [OF _ _ same(4) inj]) (use assms(2,3) in \<open>simp_all add: stored_def\<close>)
  then show ?thesis using assms(2,3) by (auto simp: stored_def same(3))
qed

lemma piperead_loop_run:
  assumes "running p pt s" "vm_inv s pt fl" "pipe_ok (pipes s pi)" "unat (va + of_nat i) + n \<le> 2 ^ 38"
    "n = min k (length (pipe_contents (pipes s pi)))"
    "\<And>j. j < n \<Longrightarrow> user_writable s pt fl (va + of_nat i + of_nat j)"
    "inj_on (\<lambda>j. user_phys (mem s) pt (va + of_nat i + of_nat j)) {..<n}"
  shows "\<exists>m'. piperead_loop pi va i k s = Ok (int (i + n)) (s\<lparr>mem := m', pipes := (pipes s)(pi := (pipe_drop ^^ n) (pipes s pi))\<rparr>)
    \<and> stored s pt fl (va + of_nat i) (take n (pipe_contents (pipes s pi))) m'"
  using assms
proof (induction k arbitrary: i s n)
  case 0
  then show ?case by (intro exI [of _ "mem s"]) (simp add: ret_def stored_def wrote_def)
next
  case (Suc k)
  let ?a = "va + of_nat i" and ?P = "pipes s pi"
  show ?case
  proof (cases "pipe_empty ?P")
    case True
    then have "n = 0" using Suc.prems(5) pipe_empty_iff by simp
    then show ?thesis using True
      by (intro exI [of _ "mem s"]) (simp add: bnd_def get_pipe_def gets_def ret_def stored_def wrote_def)
  next
    case False
    let ?c = "pipe_get ?P"
    have q: "pipe_contents ?P = ?c # pipe_contents (pipe_drop ?P)" "pipe_ok (pipe_drop ?P)"
      using pipe_get_queue [OF Suc.prems(3) False] by auto
    obtain n' where n': "n = Suc n'" "n' = min k (length (pipe_contents (pipe_drop ?P)))"
      using Suc.prems(5) q(1) by simp
    have a': "va + of_nat (Suc i) = ?a + 1" by (simp add: add.commute add.left_commute)
    have un: "unat (?a + 1) = unat ?a + 1" using unat_add_small [of ?a 1] Suc.prems(4) n' by simp
    have w0: "user_writable s pt fl (?a + of_nat j)" if "j < length [?c]" for j
      using Suc.prems(6) [of 0] that n' by simp
    have "\<exists>m'. copyout pt (p_sz (procs s p)) ?a [?c] s = Ok 0 (s\<lparr>mem := m'\<rparr>) \<and> wrote (mem s) pt ?a [?c] m'
        \<and> (\<forall>x. PGROUNDDOWN x \<in> pt_pages (mem s) pt \<union> set fl \<longrightarrow> m' x = mem s x)"
      by (rule copyout_mapped [OF Suc.prems(2) _ w0]) (use Suc.prems(4) n' in \<open>auto simp: inj_on_def\<close>)
    then obtain m1 where m1: "copyout pt (p_sz (procs s p)) ?a [?c] s = Ok 0 (s\<lparr>mem := m1\<rparr>)" and st: "stored s pt fl ?a [?c] m1"
      unfolding stored_def by blast
    note same = stored_same [OF Suc.prems(2) st]
    let ?u = "s\<lparr>mem := m1, pipes := (pipes s)(pi := pipe_drop ?P)\<rparr>"
    have wu: "user_writable ?u pt fl a = user_writable s pt fl a" for a
      using same(5) [of a] by (simp add: user_writable_def)
    have "\<exists>m'. piperead_loop pi va (Suc i) k ?u = Ok (int (Suc i + n')) (?u\<lparr>mem := m', pipes := (pipes ?u)(pi := (pipe_drop ^^ n') (pipes ?u pi))\<rparr>)
      \<and> stored ?u pt fl (va + of_nat (Suc i)) (take n' (pipe_contents (pipes ?u pi))) m'"
    proof (rule Suc.IH)
      show "running p pt ?u" "pipe_ok (pipes ?u pi)" using Suc.prems(1) q(2) by (simp_all add: running_def)
      show "vm_inv ?u pt fl" using same(1) by simp
      show "unat (va + of_nat (Suc i)) + n' \<le> 2 ^ 38" unfolding a' un using Suc.prems(4) n' by simp
      show "n' = min k (length (pipe_contents (pipes ?u pi)))" using n'(2) by simp
      show "user_writable ?u pt fl (va + of_nat (Suc i) + of_nat j)" if "j < n'" for j
        using Suc.prems(6) [of "Suc j"] that n' unfolding wu a' by (simp add: add.assoc add.left_commute)
      have "inj_on ((\<lambda>j. user_phys (mem s) pt (?a + of_nat j)) \<circ> Suc) {..<n'}"
        by (rule comp_inj_on) (use Suc.prems(7) n'(1) in \<open>auto elim: inj_on_subset\<close>)
      then show "inj_on (\<lambda>j. user_phys (mem ?u) pt (va + of_nat (Suc i) + of_nat j)) {..<n'}"
        by (simp add: same(4) a' add.assoc add.left_commute comp_def)
    qed
    then obtain m2 where m2: "piperead_loop pi va (Suc i) k ?u = Ok (int (Suc i + n'))
        (s\<lparr>mem := m2, pipes := (pipes s)(pi := (pipe_drop ^^ n') (pipe_drop ?P))\<rparr>)"
      "stored ?u pt fl (va + of_nat (Suc i)) (take n' (pipe_contents (pipe_drop ?P))) m2"
      by (auto simp: mem_pipes_update)
    have "stored ?u pt fl (?a + of_nat (length [?c])) (take n' (pipe_contents (pipe_drop ?P))) m2"
      using m2(2) unfolding a' by simp
    then have "stored s pt fl ?a ([?c] @ take n' (pipe_contents (pipe_drop ?P))) m2"
      by (rule stored_append [OF Suc.prems(2) st]) (use n' Suc.prems(7) in simp)
    then have "stored s pt fl ?a (take n (pipe_contents ?P)) m2" unfolding q(1) n'(1) by simp
    moreover have "piperead_loop pi va i (Suc k) s = piperead_loop pi va (Suc i) k ?u"
      using Suc.prems(1) False m1
      by (simp add: bnd_def the_proc_cur running_def get_proc_def gets_def get_pipe_def upd_pipe_def upd_def)
    moreover have "s\<lparr>mem := m2, pipes := (pipes s)(pi := (pipe_drop ^^ n') (pipe_drop ?P))\<rparr> =
        s\<lparr>mem := m2, pipes := (pipes s)(pi := (pipe_drop ^^ n) ?P)\<rparr>" unfolding n'(1) by (simp add: funpow_swap1)
    moreover have "Suc i + n' = i + n" using n'(1) by simp
    ultimately show ?thesis using m2(1) by (intro exI [of _ m2] conjI) (simp_all only:)
  qed
qed

text \<open>C11 \<^verbatim>\<open>piperead\<close> takes from the front.  From a pipe with at least one byte (or with its write end closed) it
  returns the smaller of the requested and the available number of bytes, stores exactly the first
  bytes of the queue, in order, at the user's address and removes them from the queue.  On an empty
  pipe whose write end is closed this is the end of file, a return of 0.\<close>

theorem piperead_takes:
  assumes "running p pt s" and "vm_inv s pt fl" and "pipe_ok (pipes s pi)"
    and "pipe_contents (pipes s pi) = [] \<Longrightarrow> \<not> pi_writeopen (pipes s pi)"
    and "n = min k (length (pipe_contents (pipes s pi)))" and "unat va + n \<le> 2 ^ 38"
    and "\<forall>j<n. user_writable s pt fl (va + of_nat j)"
    and "inj_on (\<lambda>j. user_phys (mem s) pt (va + of_nat j)) {..<n}"
  shows "\<exists>t. piperead pi va (int k) s = Ok (int n) t \<and> pipe_ok (pipes t pi)
    \<and> pipe_contents (pipes s pi) = user_bytes (mem t) pt va n @ pipe_contents (pipes t pi)"
proof -
  let ?P = "pipes s pi"
  obtain m' where m': "piperead_loop pi va 0 k s = Ok (int n) (s\<lparr>mem := m', pipes := (pipes s)(pi := (pipe_drop ^^ n) ?P)\<rparr>)"
    "stored s pt fl va (take n (pipe_contents ?P)) m'"
    using piperead_loop_run [OF assms(1-3), of va 0 n k] assms(5-8) by auto
  let ?t = "s\<lparr>mem := m', pipes := (pipes s)(pi := (pipe_drop ^^ n) ?P), procs := wakeup_tab (ChPipeWrite (unat pi)) (procs s)\<rparr>"
  have "piperead pi va (int k) s = Ok (int n) ?t"
    using m'(1) assms(4) by (cases "pipe_contents ?P = []")
      (simp_all add: piperead_def bnd_def get_pipe_def gets_def wakeup_eq ret_def pipe_empty_iff)
  moreover have d: "pipe_contents ((pipe_drop ^^ n) ?P) = drop n (pipe_contents ?P) \<and> pipe_ok ((pipe_drop ^^ n) ?P)"
    using pipe_ring.del_all [of ?P n] assms(3,5) by (simp add: pipe_ok_def pipe_contents_def)
  moreover have "user_bytes m' pt va n = take n (pipe_contents ?P)"
    using m'(2) assms(5) stored_same(4) [OF assms(2) m'(2)]
    by (intro nth_equalityI) (simp_all add: user_bytes_def stored_def wrote_def)
  ultimately show ?thesis by simp
qed

theorem piperead_takes_witness:
  "\<exists>t. piperead 0x80009000 0x10 100 pipe_demo = Ok 1 t \<and> user_bytes (mem t) 0x80001000 0x10 1 = [0x41]
    \<and> pipe_contents (pipes t 0x80009000) = []"
proof -
  have w: "\<forall>j<1. user_writable pipe_demo 0x80001000 [] (0x10 + of_nat j)"
    using copy_demo_writable(1) [of "0x10"] by (simp add: user_writable_def pipe_demo_props)
  obtain t where "piperead 0x80009000 0x10 (int 100) pipe_demo = Ok (int 1) t"
    "pipe_contents (pipes pipe_demo 0x80009000) = user_bytes (mem t) 0x80001000 0x10 1 @ pipe_contents (pipes t 0x80009000)"
    using piperead_takes [OF pipe_demo_props(1-3), of "0x80009000" 1 100 "0x10"] w by (auto simp: pipe_demo_props inj_on_def)
  moreover have "length (user_bytes (mem t) 0x80001000 0x10 1) = 1" by (simp add: user_bytes_def)
  ultimately show ?thesis by (auto simp: pipe_demo_props Cons_eq_append_conv)
qed

end
