(* ===== verification/Console_Edit.thy ===== *)
theory Console_Edit
  imports Pipe_Queue
begin

text \<open>
  The line discipline of \<^verbatim>\<open>kernel/console.c\<close>.  The circular input buffer with its three indices is a
  pair of queues: the characters that a reader may take and the line that is being edited.
  \<^verbatim>\<open>consoleintr\<close> refines the editing of that line.
\<close>

definition cons_ready :: "cons_state \<Rightarrow> u8 list" where
  "cons_ready c = ring_contents INPUT_BUF_SIZE (cons_buf c) (cons_r c) (cons_w c)"

definition cons_pending :: "cons_state \<Rightarrow> u8 list" where
  "cons_pending c = ring_contents INPUT_BUF_SIZE (cons_buf c) (cons_w c) (cons_e c)"

definition cons_ok :: "cons_state \<Rightarrow> bool" where
  "cons_ok c \<longleftrightarrow> length (cons_buf c) = INPUT_BUF_SIZE \<and> unat (cons_e c - cons_r c) \<le> INPUT_BUF_SIZE
     \<and> unat (cons_w c - cons_r c) + unat (cons_e c - cons_w c) = unat (cons_e c - cons_r c)
     \<and> 0x0A \<notin> set (cons_pending c)"

text \<open>The specification: what a character does to the finished input and to the current line.\<close>

definition line_edit :: "u8 \<Rightarrow> u8 list \<times> u8 list \<Rightarrow> u8 list \<times> u8 list" where
  "line_edit c q =
     (case q of (ready, pending) \<Rightarrow>
      if c = 0x10 then (ready, pending)
      else if c = 0x15 then (ready, [])
      else if c = 0x08 \<or> c = 0x7F then (ready, butlast pending)
      else if c = 0 \<or> length ready + length pending \<ge> INPUT_BUF_SIZE then (ready, pending)
      else
        let d = (if c = 0x0D then 0x0A else c) in
        if d = 0x0A \<or> d = 0x04 \<or> length ready + length pending + 1 = INPUT_BUF_SIZE then (ready @ pending @ [d], [])
        else (ready, pending @ [d]))"

interpretation cons_ring: byte_ring INPUT_BUF_SIZE cons_buf cons_r cons_e cons_put
  "\<lambda>c. cons_at c (cons_r c)" "\<lambda>c. c\<lparr>cons_r := cons_r c + 1\<rparr>"
  by unfold_locales (simp_all add: INPUT_BUF_SIZE_def cons_put_def cons_at_def)

lemma cons_split:
  assumes "cons_ok c"
  shows "ring_contents INPUT_BUF_SIZE (cons_buf c) (cons_r c) (cons_e c) = cons_ready c @ cons_pending c"
    "length (cons_ready c) + length (cons_pending c) = unat (cons_e c - cons_r c)"
  using assms ring_split [of "cons_w c" "cons_r c" "cons_e c"]
  by (simp_all add: cons_ok_def cons_ready_def cons_pending_def)

subsection \<open>The three moves\<close>

lemma unat_diff_less: "unat (e - w :: u32) \<le> unat (e - r) \<Longrightarrow> unat (e - w) < n \<or> \<not> unat (e - r) < n"
  by linarith

lemma cons_put_pending:
  assumes ok: "cons_ok c" and room: "unat (cons_e c - cons_r c) < INPUT_BUF_SIZE"
  shows "cons_ready (cons_put d c) = cons_ready c" "cons_pending (cons_put d c) = cons_pending c @ [d]"
    and "d \<noteq> 0x0A \<Longrightarrow> cons_ok (cons_put d c)"
proof -
  have l: "unat (cons_e c - cons_w c) < INPUT_BUF_SIZE" using ok room by (simp add: cons_ok_def)
  note put = ring_put [OF cons_ring.sz_dvd cons_ring.sz_less, of "cons_buf c"]
  show p: "cons_pending (cons_put d c) = cons_pending c @ [d]"
    using put [of "cons_e c" "cons_w c" d] ok l by (simp add: cons_pending_def cons_put_def cons_ok_def)
  have f: "cons_r (cons_put d c) = cons_r c" "cons_w (cons_put d c) = cons_w c" "cons_e (cons_put d c) = cons_e c + 1"
    "length (cons_buf (cons_put d c)) = length (cons_buf c)" by (simp_all add: cons_put_def)
  have s: "unat (cons_e c + 1 - cons_w c) = Suc (unat (cons_e c - cons_w c))" "unat (cons_e c + 1 - cons_r c) = Suc (unat (cons_e c - cons_r c))"
    using unat_Suc_diff [OF l cons_ring.sz_less] unat_Suc_diff [OF room cons_ring.sz_less] by auto
  have "ring_contents INPUT_BUF_SIZE (cons_buf (cons_put d c)) (cons_r c) (cons_e c + 1) = cons_ready c @ cons_pending c @ [d]"
    using put [of "cons_e c" "cons_r c" d] ok room cons_split(1) [OF ok] by (simp add: cons_put_def cons_ok_def)
  moreover have "ring_contents INPUT_BUF_SIZE (cons_buf (cons_put d c)) (cons_r c) (cons_e c + 1) =
      cons_ready (cons_put d c) @ cons_pending (cons_put d c)"
    using ring_split [of "cons_w c" "cons_r c" "cons_e c + 1"] s ok by (simp add: cons_ready_def cons_pending_def f cons_ok_def)
  ultimately show "cons_ready (cons_put d c) = cons_ready c" using p by simp
  then show "d \<noteq> 0x0A \<Longrightarrow> cons_ok (cons_put d c)" using ok room s p by (simp add: cons_ok_def f)
qed

lemma cons_commit:
  assumes "length (cons_buf c) = INPUT_BUF_SIZE" "unat (cons_e c - cons_r c) \<le> INPUT_BUF_SIZE"
    "unat (cons_w c - cons_r c) + unat (cons_e c - cons_w c) = unat (cons_e c - cons_r c)"
  shows "cons_ok (c\<lparr>cons_w := cons_e c\<rparr>)" "cons_ready (c\<lparr>cons_w := cons_e c\<rparr>) = cons_ready c @ cons_pending c"
    "cons_pending (c\<lparr>cons_w := cons_e c\<rparr>) = []"
  using assms ring_split [of "cons_w c" "cons_r c" "cons_e c"] by (simp_all add: cons_ok_def cons_ready_def cons_pending_def)

lemma cons_erase:
  assumes ok: "cons_ok c" and ne: "cons_e c \<noteq> cons_w c"
  shows "cons_ok (c\<lparr>cons_e := cons_e c - 1\<rparr>)" "cons_ready (c\<lparr>cons_e := cons_e c - 1\<rparr>) = cons_ready c"
    "cons_pending (c\<lparr>cons_e := cons_e c - 1\<rparr>) = butlast (cons_pending c)" "cons_at c (cons_e c - 1) = last (cons_pending c)"
proof -
  have n: "Suc (unat (cons_e c - 1 - cons_w c)) = unat (cons_e c - cons_w c)"
    using unat_minus_diff [of "cons_w c" "cons_e c"] ne by (simp add: algebra_simps)
  have "cons_e c \<noteq> cons_r c"
  proof
    assume "cons_e c = cons_r c"
    then have "unat (cons_e c - cons_w c) = 0" using ok by (simp add: cons_ok_def)
    then show False using n by simp
  qed
  then have n': "Suc (unat (cons_e c - 1 - cons_r c)) = unat (cons_e c - cons_r c)"
    using unat_minus_diff [of "cons_r c" "cons_e c"] by (simp add: algebra_simps)
  show p: "cons_pending (c\<lparr>cons_e := cons_e c - 1\<rparr>) = butlast (cons_pending c)" "cons_at c (cons_e c - 1) = last (cons_pending c)"
    using ring_unput [of "cons_w c" "cons_e c" INPUT_BUF_SIZE "cons_buf c"] ne by (simp_all add: cons_pending_def cons_at_def)
  show "cons_ready (c\<lparr>cons_e := cons_e c - 1\<rparr>) = cons_ready c" by (simp add: cons_ready_def)
  show "cons_ok (c\<lparr>cons_e := cons_e c - 1\<rparr>)"
    using ok n n' p(1) by (auto simp: cons_ok_def dest: in_set_butlastD)
qed

lemma cons_pending_Nil: "cons_pending c = [] \<longleftrightarrow> cons_e c = cons_w c"
  by (auto simp: cons_pending_def ring_contents_Nil_iff)

subsection \<open>Output\<close>

text \<open>The transmitter answers at least \<open>n\<close> times that it is idle.\<close>

definition tx_ready :: "nat \<Rightarrow> 'z ckernel_scheme \<Rightarrow> bool" where
  "tx_ready n s \<longleftrightarrow> n \<le> length (filter id (uart_idle s))"

text \<open>A step that leaves the console and the received characters alone and needs at most \<open>k\<close> idle answers.\<close>

definition echoes :: "nat \<Rightarrow> ('z ckernel_scheme, 'a) kM \<Rightarrow> bool" where
  "echoes k m \<longleftrightarrow> (\<forall>n s. tx_ready (n + k) s \<longrightarrow>
     runs m s (\<lambda>_ t. cons t = cons s \<and> uart_rx t = uart_rx s \<and> tx_ready n t))"

lemma echoes_runs:
  assumes "echoes k m" "tx_ready (n + k) s"
    "\<And>x t. cons t = cons s \<Longrightarrow> uart_rx t = uart_rx s \<Longrightarrow> tx_ready n t \<Longrightarrow> P x t"
  shows "runs m s P"
  by (rule runs_mono [of m s "\<lambda>_ t. cons t = cons s \<and> uart_rx t = uart_rx s \<and> tx_ready n t"])
    (use assms in \<open>auto simp: echoes_def\<close>)

lemma echoes_bnd:
  assumes "echoes j m" "\<And>x. echoes k (f x)" shows "echoes (j + k) (bnd m f)"
  unfolding echoes_def
proof (intro allI impI)
  fix n and s :: "'a ckernel_scheme" assume "tx_ready (n + (j + k)) s"
  then have r: "tx_ready ((n + k) + j) s" by (simp add: add_ac)
  show "runs (bnd m f) s (\<lambda>_ t. cons t = cons s \<and> uart_rx t = uart_rx s \<and> tx_ready n t)"
    unfolding runs_bnd
    by (rule echoes_runs [OF assms(1) r], rule echoes_runs [OF assms(2)], assumption) simp_all
qed

lemma spin_idle_ready:
  "Suc n \<le> length (filter id q) \<Longrightarrow> \<exists>q'. spin_idle q = Some q' \<and> n \<le> length (filter id q')"
  by (induction q) auto

lemma echoes_uartputc: "echoes 1 (uartputc_sync c)"
  unfolding echoes_def tx_ready_def
proof (intro allI impI)
  fix n and s :: "'a ckernel_scheme" assume "n + 1 \<le> length (filter id (uart_idle s))"
  then obtain q where "spin_idle (uart_idle s) = Some q" "n \<le> length (filter id q)"
    using spin_idle_ready [of n] by auto
  then show "runs (uartputc_sync c) s (\<lambda>_ t. cons t = cons s \<and> uart_rx t = uart_rx s \<and> n \<le> length (filter id (uart_idle t)))"
    by (simp add: uartputc_sync_def put_thr_def)
qed

lemma echoes_weaken: "echoes j m \<Longrightarrow> j \<le> k \<Longrightarrow> echoes k m"
  unfolding echoes_def tx_ready_def by (auto elim!: runs_mono dest!: spec intro: order_trans)

lemma echoes_consputc: "echoes 3 (consputc c)"
proof (cases "c = BACKSPACE")
  case True
  have "echoes (1 + (1 + 1)) (consputc c :: ('a ckernel_scheme, unit) kM)"
    unfolding consputc_def if_P [OF True] by (intro echoes_bnd echoes_uartputc)
  then show ?thesis by (simp add: numeral_3_eq_3)
next
  case False
  then show ?thesis using echoes_weaken [OF echoes_uartputc, of 3] by (simp add: consputc_def)
qed

lemma echoes_procdump: "echoes 0 procdump"
  unfolding echoes_def procdump_def
  by (auto simp: printk_msg_def tx_ready_def get_proc_def
      intro!: runs_forM [where I = "\<lambda>_ t. cons t = cons _ \<and> uart_rx t = uart_rx _ \<and> _ \<le> length (filter id (uart_idle t))"])

lemma echoes_wakeup: "echoes 0 (wakeup chan)"
  by (simp add: echoes_def tx_ready_def runs_def wakeup_eq)

subsection \<open>The interrupt handler\<close>

abbreviation cons_lines :: "cons_state \<Rightarrow> u8 list \<times> u8 list" where
  "cons_lines c \<equiv> (cons_ready c, cons_pending c)"

text \<open>What handling a character promises: the invariant, and the edit of the specification.\<close>

definition edited :: "nat \<Rightarrow> u8 list \<times> u8 list \<Rightarrow> u8 list \<Rightarrow> 'z ckernel_scheme \<Rightarrow> bool" where
  "edited n q rx t \<longleftrightarrow> cons_ok (cons t) \<and> cons_lines (cons t) = q \<and> uart_rx t = rx \<and> tx_ready n t"

lemma kill_line_runs:
  fixes s :: "'z ckernel_scheme"
  assumes "cons_ok (cons s)" "unat (cons_e (cons s) - cons_w (cons s)) < k" "tx_ready (n + 3 * k) s"
  shows "runs (kill_line k) s (\<lambda>_. edited n (cons_ready (cons s), []) (uart_rx s))"
  using assms
proof (induction k arbitrary: s)
  case (Suc k)
  let ?c = "cons s"
  show ?case
  proof (cases "cons_e ?c = cons_w ?c")
    case True
    then show ?thesis using Suc.prems cons_pending_Nil [of ?c]
      by (simp add: get_cons_def edited_def tx_ready_def)
  next
    case False
    note er = cons_erase [OF Suc.prems(1) False]
    have "cons_pending ?c \<noteq> []" using False by (simp add: cons_pending_Nil)
    then have nl: "cons_at ?c (cons_e ?c - 1) \<noteq> 0x0A"
      using Suc.prems(1) er(4) last_in_set by (metis cons_ok_def)
    let ?s = "s\<lparr>cons := ?c\<lparr>cons_e := cons_e ?c - 1\<rparr>\<rparr>"
    have "unat (cons_e ?c - 1 - cons_w ?c) < k"
      using Suc.prems(2) unat_minus_diff [of "cons_w ?c" "cons_e ?c"] False by (simp add: algebra_simps)
    then have st: "runs (kill_line k) t (\<lambda>_. edited n (cons_ready ?c, []) (uart_rx s))"
      if "cons t = cons ?s" "uart_rx t = uart_rx ?s" "tx_ready (n + 3 * k) t" for t :: "'z ckernel_scheme"
      using Suc.IH [of t] that er by simp
    have "tx_ready ((n + 3 * k) + 3) ?s" using Suc.prems(3) by (simp add: tx_ready_def add_ac)
    from echoes_runs [OF echoes_consputc [of BACKSPACE] this, of "\<lambda>_ t. runs (kill_line k) t (\<lambda>_. edited n (cons_ready ?c, []) (uart_rx s))"] st
    show ?thesis using False nl by (simp add: get_cons_def upd_cons_def)
  qed
qed simp

lemma consoleintr_store:
  fixes s :: "'z ckernel_scheme"
  assumes ok: "cons_ok (cons s)" and room: "unat (cons_e (cons s) - cons_r (cons s)) < INPUT_BUF_SIZE"
    and tx: "tx_ready (n + 3) s" and d: "d = (if c = 0x0D then 0x0A else c)"
    and c: "c \<noteq> 0x10" "c \<noteq> 0x15" "c \<noteq> 0x08" "c \<noteq> 0x7F" "c \<noteq> 0"
  shows "runs (consoleintr (uint c)) s (\<lambda>_. edited n (line_edit c (cons_lines (cons s))) (uart_rx s))"
proof -
  let ?c = "cons s" and ?fin = "d = 0x0A \<or> d = 0x04 \<or> Suc (unat (cons_e (cons s) - cons_r (cons s))) = INPUT_BUF_SIZE"
  have u: "uint c = k \<longleftrightarrow> c = of_int k" if "0 \<le> k" "k < 256" for k
    using that by (auto simp: word_of_int_uint uint_word_of_int)
  have i: "(if uint c = 0x0D then 0x0A else uint c) = uint d" by (simp add: d u)
  have ud: "uint d = k \<longleftrightarrow> d = of_int k" if "0 \<le> k" "k < 256" for k
    using that by (auto simp: word_of_int_uint uint_word_of_int)
  have le: "line_edit c (cons_lines ?c) =
      (if ?fin then (cons_ready ?c @ cons_pending ?c @ [d], []) else (cons_ready ?c, cons_pending ?c @ [d]))"
    using c room cons_split(2) [OF ok] by (simp add: line_edit_def d [symmetric] Let_def)
  note put = cons_put_pending [OF ok room, of d]
  have len: "unat (cons_e (cons_put d ?c) - cons_r (cons_put d ?c)) = Suc (unat (cons_e ?c - cons_r ?c))"
    "unat (cons_e (cons_put d ?c) - cons_w (cons_put d ?c)) = Suc (unat (cons_e ?c - cons_w ?c))"
    "cons_w (cons_put d ?c) = cons_w ?c" "cons_r (cons_put d ?c) = cons_r ?c"
    "length (cons_buf (cons_put d ?c)) = length (cons_buf ?c)"
    using unat_Suc_diff [OF room cons_ring.sz_less] unat_Suc_diff [OF _ cons_ring.sz_less, of "cons_e ?c" "cons_w ?c"] room ok
    by (simp_all add: cons_put_def cons_ok_def)
  have com: "cons_ok (cons_put d ?c\<lparr>cons_w := cons_e (cons_put d ?c)\<rparr>)"
    "cons_ready (cons_put d ?c\<lparr>cons_w := cons_e (cons_put d ?c)\<rparr>) = cons_ready ?c @ cons_pending ?c @ [d]"
    "cons_pending (cons_put d ?c\<lparr>cons_w := cons_e (cons_put d ?c)\<rparr>) = []"
    using cons_commit [of "cons_put d ?c"] len ok room put by (simp_all add: cons_ok_def)
  have "runs (bnd (upd_cons (cons_put (of_int (uint d)))) (\<lambda>_.
           bnd (get_cons (\<lambda>x. x)) (\<lambda>x.
           whenM (uint d = 0x0A \<or> uint d = 0x04 \<or> unat (cons_e x - cons_r x) = INPUT_BUF_SIZE)
             (bnd (upd_cons (\<lambda>x. x\<lparr>cons_w := cons_e x\<rparr>)) (\<lambda>_.
              wakeup ChConsole))))) t (\<lambda>_. edited n (line_edit c (cons_lines ?c)) (uart_rx s))"
    if "cons t = ?c" "uart_rx t = uart_rx s" "tx_ready n t" for t :: "'z ckernel_scheme"
  proof (cases ?fin)
    case True
    then show ?thesis using that com
      by (simp add: upd_cons_def get_cons_def ud len(1) le) (simp add: runs_def wakeup_eq edited_def tx_ready_def)
  next
    case False
    then show ?thesis using that put
      by (simp add: upd_cons_def get_cons_def ud len(1) le edited_def tx_ready_def)
  qed
  from echoes_runs [OF echoes_consputc [of "uint d"] tx, of "\<lambda>_ t. runs (_ t) t (_ t)", OF this]
  show ?thesis using c room unfolding consoleintr_def Let_def i by (simp add: u get_cons_def)
qed

lemma tx_ready_mono: "tx_ready m s \<Longrightarrow> n \<le> m \<Longrightarrow> tx_ready n s"
  by (simp add: tx_ready_def)

lemma edited_mono: "edited m q rx t \<Longrightarrow> n \<le> m \<Longrightarrow> edited n q rx t"
  by (auto simp: edited_def intro: tx_ready_mono)

text \<open>A character costs the echo of at most a whole line of erasures.\<close>

definition echo_max :: nat where "echo_max = 3 * (INPUT_BUF_SIZE + 1)"

lemma consoleintr_kill:
  assumes ok: "cons_ok (cons s)" and tx: "tx_ready (n + echo_max) s"
  shows "runs (consoleintr 0x15) s (\<lambda>_. edited n (cons_ready (cons s), []) (uart_rx s))"
proof -
  let ?k = "unat (cons_e (cons s) - cons_w (cons s))"
  have "?k \<le> INPUT_BUF_SIZE" using ok by (simp add: cons_ok_def)
  then have "tx_ready (n + 3 * Suc ?k) s" by (intro tx_ready_mono [OF tx]) (simp add: echo_max_def)
  then show ?thesis using kill_line_runs [OF ok, of "Suc ?k" n] unfolding consoleintr_def
    by (simp add: get_cons_def del: kill_line.simps)
qed

lemma consoleintr_erase:
  fixes s :: "'z ckernel_scheme"
  assumes ok: "cons_ok (cons s)" and tx: "tx_ready (n + 3) s" and c: "c = 0x08 \<or> c = 0x7F"
  shows "runs (consoleintr c) s (\<lambda>_. edited n (cons_ready (cons s), butlast (cons_pending (cons s))) (uart_rx s))"
proof (cases "cons_e (cons s) = cons_w (cons s)")
  case True
  then have "cons_pending (cons s) = []" by (simp add: cons_pending_Nil)
  then show ?thesis using True ok c tx_ready_mono [OF tx, of n]
    by (auto simp: consoleintr_def get_cons_def edited_def)
next
  case False
  note er = cons_erase [OF ok False]
  let ?s = "s\<lparr>cons := cons s\<lparr>cons_e := cons_e (cons s) - 1\<rparr>\<rparr>"
  have "tx_ready (n + 3) ?s" using tx by (simp add: tx_ready_def)
  from echoes_runs [OF echoes_consputc [of BACKSPACE] this,
      of "\<lambda>_. edited n (cons_ready (cons s), butlast (cons_pending (cons s))) (uart_rx s)"]
  have "runs (consputc BACKSPACE) ?s (\<lambda>_. edited n (cons_ready (cons s), butlast (cons_pending (cons s))) (uart_rx s))"
    using er by (simp add: edited_def)
  then show ?thesis using False c by (auto simp: consoleintr_def get_cons_def upd_cons_def)
qed

lemma consoleintr_runs:
  fixes s :: "'z ckernel_scheme"
  assumes ok: "cons_ok (cons s)" and tx: "tx_ready (n + echo_max) s"
  shows "runs (consoleintr (uint c)) s (\<lambda>_. edited n (line_edit c (cons_lines (cons s))) (uart_rx s))"
proof -
  have tx3: "tx_ready (n + 3) s" by (rule tx_ready_mono [OF tx]) (simp add: echo_max_def)
  have tx0: "tx_ready n s" by (rule tx_ready_mono [OF tx]) simp
  have u: "uint c = k \<longleftrightarrow> c = of_int k" if "0 \<le> k" "k < 256" for k
    using that by (auto simp: word_of_int_uint uint_word_of_int)
  consider "c = 0x10" | "c = 0x15" | "c = 0x08 \<or> c = 0x7F"
    | "c \<noteq> 0x10" "c \<noteq> 0x15" "c \<noteq> 0x08" "c \<noteq> 0x7F" "c = 0 \<or> \<not> unat (cons_e (cons s) - cons_r (cons s)) < INPUT_BUF_SIZE"
    | "c \<noteq> 0x10" "c \<noteq> 0x15" "c \<noteq> 0x08" "c \<noteq> 0x7F" "c \<noteq> 0" "unat (cons_e (cons s) - cons_r (cons s)) < INPUT_BUF_SIZE"
    by blast
  then show ?thesis
  proof cases
    case 1
    have "tx_ready (n + 0) s" using tx0 by simp
    from echoes_runs [OF echoes_procdump this, of "\<lambda>_. edited n (cons_lines (cons s)) (uart_rx s)"] 1 ok
    show ?thesis by (simp add: consoleintr_def line_edit_def edited_def)
  next
    case 2
    then show ?thesis using consoleintr_kill [OF ok tx] by (simp add: line_edit_def)
  next
    case 3
    then show ?thesis using consoleintr_erase [OF ok tx3, of "uint c"] by (auto simp: line_edit_def)
  next
    case 4
    then show ?thesis using ok tx0 cons_split(2) [OF ok] unfolding consoleintr_def Let_def
      by (auto simp: u get_cons_def line_edit_def edited_def)
  next
    case 5
    then show ?thesis by (intro consoleintr_store [OF ok _ tx3 refl])
  qed
qed

lemma uartintr_loop_runs:
  fixes s :: "'z ckernel_scheme"
  assumes "cons_ok (cons s)" "tx_ready (n + echo_max * length (uart_rx s)) s" "length (uart_rx s) < k"
  shows "runs (uartintr_loop k) s (\<lambda>_. edited n (fold line_edit (uart_rx s) (cons_lines (cons s))) [])"
  using assms
proof (induction k arbitrary: s)
  case (Suc k)
  show ?case
  proof (cases "uart_rx s")
    case Nil
    then show ?thesis using Suc.prems by (simp add: uartgetc_def edited_def)
  next
    case (Cons c cs)
    let ?s = "s\<lparr>uart_rx := cs\<rparr>" and ?n = "n + echo_max * length cs"
    have "tx_ready (?n + echo_max) ?s" using Suc.prems(2) Cons by (simp add: tx_ready_def algebra_simps)
    with Suc.prems(1) have "runs (consoleintr (uint c)) ?s (\<lambda>_. edited ?n (line_edit c (cons_lines (cons s))) cs)"
      using consoleintr_runs [of ?s ?n c] by simp
    then have "runs (consoleintr (uint c)) ?s (\<lambda>_ t. runs (uartintr_loop k) t
        (\<lambda>_. edited n (fold line_edit (uart_rx s) (cons_lines (cons s))) []))"
    proof (rule runs_mono)
      fix t :: "'z ckernel_scheme" assume "edited ?n (line_edit c (cons_lines (cons s))) cs t"
      then have t: "cons_ok (cons t)" "cons_lines (cons t) = line_edit c (cons_lines (cons s))" "uart_rx t = cs" "tx_ready ?n t"
        by (simp_all add: edited_def)
      show "runs (uartintr_loop k) t (\<lambda>_. edited n (fold line_edit (uart_rx s) (cons_lines (cons s))) [])"
        using Suc.IH [of t] Suc.prems(3) t Cons by simp
    qed
    moreover have "uint c \<noteq> - 1" using uint_nonnegative [of c] by linarith
    ultimately show ?thesis using Cons by (simp add: uartgetc_def)
  qed
qed simp

text \<open>C9 The console line discipline refines line editing and keeps its buffer invariant (length of the buffer, the order
  of the indices \<^verbatim>\<open>r\<close>, \<^verbatim>\<open>w\<close> and \<^verbatim>\<open>e\<close>, at most 128 characters in it, no newline in the line being edited).
  \<^verbatim>\<open>uartintr\<close> takes every character that has arrived, returns, and has edited the queue of finished input and the
  current line as the specification does: control-U empties the line, backspace removes its last character, carriage
  return is newline, and newline, control-D or a full buffer hands the line to the readers.  The indices may have wrapped
  around.  The transmitter is assumed to become idle often enough for the echo, which \<^verbatim>\<open>uartputc_sync\<close> spins on.\<close>

theorem uartintr_refines_line_editing:
  assumes "cons_ok (cons s)" "tx_ready (1 + echo_max * length (uart_rx s)) s"
  shows "\<exists>t. uartintr s = Ok () t \<and> uart_rx t = [] \<and> cons_ok (cons t)
    \<and> (cons_ready (cons t), cons_pending (cons t)) = fold line_edit (uart_rx s) (cons_ready (cons s), cons_pending (cons s))"
proof -
  let ?n = "echo_max * length (uart_rx s)"
  have "runs uartintr s (\<lambda>_. edited 0 (fold line_edit (uart_rx s) (cons_lines (cons s))) [])"
  proof (cases "uart_idle s")
    case Nil
    then show ?thesis using assms(2) by (simp add: tx_ready_def)
  next
    case (Cons b bs)
    let ?s = "s\<lparr>uart_idle := bs, procs := if b then wakeup_tab ChUart (procs s) else procs s\<rparr>"
    have "tx_ready (0 + ?n) ?s" using assms(2) Cons by (simp add: tx_ready_def split: if_splits)
    with uartintr_loop_runs [of ?s 0 "Suc (length (uart_rx s))"] assms(1)
    have "runs (uartintr_loop (Suc (length (uart_rx s)))) ?s (\<lambda>_. edited 0 (fold line_edit (uart_rx s) (cons_lines (cons s))) [])"
      by simp
    moreover have "uartintr s = uartintr_loop (Suc (length (uart_rx s))) ?s"
      using Cons by (cases b)
        (simp_all add: uartintr_def lsr_tx_idle_def bnd_def whenM_def wakeup_eq gets_def ret_def del: uartintr_loop.simps)
    ultimately show ?thesis by (simp add: runs_def del: uartintr_loop.simps)
  qed
  then show ?thesis unfolding runs_Ok_iff edited_def by auto
qed

text \<open>Three characters arrive while two are in the line: a backspace, a letter and a carriage return.\<close>

definition cons_demo :: ikernel where
  "cons_demo = pipe_demo\<lparr>uart_rx := [0x7F, 0x63, 0x0D], uart_idle := replicate 1200 True,
     cons := \<lparr>cons_buf = (replicate INPUT_BUF_SIZE 0)[127 := 0x61, 0 := 0x62], cons_r = 0xFFFFFFFF, cons_w = 0xFFFFFFFF, cons_e = 1\<rparr>\<rparr>"

theorem uartintr_refines_line_editing_witness:
  "\<exists>t. uartintr cons_demo = Ok () t \<and> cons_ready (cons t) = [0x61, 0x63, 0x0A] \<and> cons_pending (cons t) = []"
proof -
  have u: "[0..<2] = [0, 1]" by (simp add: upt_rec)
  have p: "cons_ready (cons cons_demo) = []" "cons_pending (cons cons_demo) = [0x61, 0x62]"
    by (simp_all add: cons_demo_def cons_ready_def cons_pending_def ring_contents_def INPUT_BUF_SIZE_def u)
  have "cons_ok (cons cons_demo)"
    using p(2) by (simp add: cons_ok_def) (simp add: cons_demo_def INPUT_BUF_SIZE_def)
  moreover have "tx_ready (1 + echo_max * length (uart_rx cons_demo)) cons_demo"
    by (simp add: tx_ready_def cons_demo_def echo_max_def INPUT_BUF_SIZE_def)
  ultimately obtain t where t: "uartintr cons_demo = Ok () t"
    "(cons_ready (cons t), cons_pending (cons t)) = fold line_edit (uart_rx cons_demo) ([], [0x61, 0x62])"
    using uartintr_refines_line_editing [of cons_demo] p by auto
  have "fold line_edit (uart_rx cons_demo) ([], [0x61, 0x62]) = ([0x61, 0x63, 0x0A], [])"
    by (simp add: cons_demo_def line_edit_def INPUT_BUF_SIZE_def)
  with t show ?thesis by simp
qed

end
