(* ===== verification/Spinlock.thy ===== *)
theory Spinlock
  imports Xv6_Prelude
begin

text \<open>
  The spin locks of \<^verbatim>\<open>kernel/spinlock.c\<close>, interleaved instruction by instruction on any number of CPUs.

  \<open>acquire_step c\<close> and \<open>release_step c\<close> execute the next memory access of \<^verbatim>\<open>acquire\<close> or \<^verbatim>\<open>release\<close> on CPU \<open>c\<close>; the
  program counter \<open>pc\<close> says which one it is.  \<open>crit\<close> records, for the statements only, which locks a CPU has acquired
  and not begun to give back, and \<open>extra\<close> how many calls of \<^verbatim>\<open>push_off\<close> of its own the code has to match.
\<close>

record spinlock =
  locked :: u32
  lk_cpu :: "nat option"

record cpu =
  noff :: int
  intena :: bool

datatype spc =
    Run
  | AcqPush nat | AcqLocked nat | AcqCpu nat | AcqSwap nat | AcqOwn nat
  | RelLocked nat | RelCpu nat | RelClear nat | RelStore nat | RelPop
  | Stopped string

record spin =
  locks :: "nat \<Rightarrow> spinlock"
  cpus :: "nat \<Rightarrow> cpu"
  sie :: "nat \<Rightarrow> bool"
  pc :: "nat \<Rightarrow> spc"
  crit :: "nat \<Rightarrow> nat set"
  extra :: "nat \<Rightarrow> nat"

definition initlock :: spinlock where
  "initlock = \<lparr>locked = 0, lk_cpu = None\<rparr>"

definition push_off :: "nat \<Rightarrow> spin \<Rightarrow> spin" where
  "push_off c s =
     (let old = sie s c; k = cpus s c;
          k' = (if noff k = 0 then k\<lparr>intena := old\<rparr> else k)
      in s\<lparr>sie := (sie s)(c := False), cpus := (cpus s)(c := k'\<lparr>noff := noff k' + 1\<rparr>)\<rparr>)"

definition pop_off :: "nat \<Rightarrow> spin \<Rightarrow> string + spin" where
  "pop_off c s =
     (let k = cpus s c in
      if sie s c then Inl ''pop_off - interruptible''
      else if noff k < 1 then Inl ''pop_off''
      else
        let k' = k\<lparr>noff := noff k - 1\<rparr> in
        Inr (s\<lparr>cpus := (cpus s)(c := k'), sie := (sie s)(c := noff k' = 0 \<and> intena k')\<rparr>))"

definition holding :: "nat \<Rightarrow> spinlock \<Rightarrow> bool" where
  "holding c lk \<longleftrightarrow> locked lk \<noteq> 0 \<and> lk_cpu lk = Some c"

definition go :: "nat \<Rightarrow> spc \<Rightarrow> spin \<Rightarrow> spin" where
  "go c p s = s\<lparr>pc := (pc s)(c := p)\<rparr>"

definition set_lock :: "nat \<Rightarrow> (spinlock \<Rightarrow> spinlock) \<Rightarrow> spin \<Rightarrow> spin" where
  "set_lock l f s = s\<lparr>locks := (locks s)(l := f (locks s l))\<rparr>"

text \<open>\<^verbatim>\<open>acquire\<close>: switch interrupts off, read the two fields that \<^verbatim>\<open>holding\<close> reads, exchange the lock word until the
  old value is 0, record the CPU.\<close>

definition acquire_step :: "nat \<Rightarrow> spin \<Rightarrow> spin" where
  "acquire_step c s =
     (case pc s c of
        AcqPush l \<Rightarrow> go c (AcqLocked l) (push_off c s)
      | AcqLocked l \<Rightarrow> go c (if locked (locks s l) \<noteq> 0 then AcqCpu l else AcqSwap l) s
      | AcqCpu l \<Rightarrow> go c (if lk_cpu (locks s l) = Some c then Stopped ''acquire'' else AcqSwap l) s
      | AcqSwap l \<Rightarrow>
          go c (if locked (locks s l) \<noteq> 0 then AcqSwap l else AcqOwn l) (set_lock l (\<lambda>k. k\<lparr>locked := 1\<rparr>) s)
      | AcqOwn l \<Rightarrow>
          go c Run (set_lock l (\<lambda>k. k\<lparr>lk_cpu := Some c\<rparr>) (s\<lparr>crit := (crit s)(c := insert l (crit s c))\<rparr>))
      | _ \<Rightarrow> s)"

text \<open>\<^verbatim>\<open>release\<close>: check \<^verbatim>\<open>holding\<close>, forget the CPU, clear the lock word, match the \<^verbatim>\<open>push_off\<close> of \<^verbatim>\<open>acquire\<close>.\<close>

definition release_step :: "nat \<Rightarrow> spin \<Rightarrow> spin" where
  "release_step c s =
     (case pc s c of
        RelLocked l \<Rightarrow> go c (if locked (locks s l) \<noteq> 0 then RelCpu l else Stopped ''release'') s
      | RelCpu l \<Rightarrow> go c (if lk_cpu (locks s l) = Some c then RelClear l else Stopped ''release'') s
      | RelClear l \<Rightarrow>
          go c (RelStore l) (set_lock l (\<lambda>k. k\<lparr>lk_cpu := None\<rparr>) (s\<lparr>crit := (crit s)(c := crit s c - {l})\<rparr>))
      | RelStore l \<Rightarrow> go c RelPop (set_lock l (\<lambda>k. k\<lparr>locked := 0\<rparr>) s)
      | RelPop \<Rightarrow> (case pop_off c s of Inl e \<Rightarrow> go c (Stopped e) s | Inr t \<Rightarrow> go c Run t)
      | _ \<Rightarrow> s)"

text \<open>The steps of all CPUs: a CPU continues its routine, or code outside it calls one, switches interrupts on or off
  or uses \<^verbatim>\<open>push_off\<close> and \<^verbatim>\<open>pop_off\<close> itself.  The kernel switches interrupts on only where no \<^verbatim>\<open>push_off\<close> is open.\<close>

inductive spin_step :: "spin \<Rightarrow> spin \<Rightarrow> bool" where
  acq: "spin_step s (acquire_step c s)"
| rel: "spin_step s (release_step c s)"
| call_acquire: "pc s c = Run \<Longrightarrow> spin_step s (go c (AcqPush l) s)"
| call_release: "pc s c = Run \<Longrightarrow> spin_step s (go c (RelLocked l) s)"
| client_push: "pc s c = Run \<Longrightarrow> spin_step s ((push_off c s)\<lparr>extra := (extra s)(c := Suc (extra s c))\<rparr>)"
| client_pop: "pc s c = Run \<Longrightarrow> extra s c = Suc n \<Longrightarrow> pop_off c s = Inr t \<Longrightarrow>
    spin_step s (t\<lparr>extra := (extra t)(c := n)\<rparr>)"
| intr_off: "pc s c = Run \<Longrightarrow> spin_step s (s\<lparr>sie := (sie s)(c := False)\<rparr>)"
| intr_on: "pc s c = Run \<Longrightarrow> noff (cpus s c) = 0 \<Longrightarrow> spin_step s (s\<lparr>sie := (sie s)(c := True)\<rparr>)"

text \<open>At the start no lock is held and no CPU is inside a routine.\<close>

definition spin_init :: "spin \<Rightarrow> bool" where
  "spin_init s \<longleftrightarrow> (\<forall>l. locks s l = initlock)
     \<and> (\<forall>c. noff (cpus s c) = 0 \<and> pc s c = Run \<and> crit s c = {} \<and> extra s c = 0)"

inductive spin_reach :: "spin \<Rightarrow> bool" where
  init: "spin_init s \<Longrightarrow> spin_reach s"
| step: "spin_reach s \<Longrightarrow> spin_step s t \<Longrightarrow> spin_reach t"

subsection \<open>The invariant\<close>

text \<open>The CPU has won the exchange and has not yet cleared the word.\<close>

definition owns :: "spin \<Rightarrow> nat \<Rightarrow> nat \<Rightarrow> bool" where
  "owns s c l \<longleftrightarrow> l \<in> crit s c \<or> pc s c = AcqOwn l \<or> pc s c = RelStore l"

text \<open>The \<^verbatim>\<open>push_off\<close> that a routine in progress has open besides those of the held locks.\<close>

fun open_push :: "spc \<Rightarrow> nat" where
  "open_push (AcqLocked l) = 1"
| "open_push (AcqCpu l) = 1"
| "open_push (AcqSwap l) = 1"
| "open_push (AcqOwn l) = 1"
| "open_push (RelStore l) = 1"
| "open_push RelPop = 1"
| "open_push (Stopped e) = (if e = ''release'' then 0 else 1)"
| "open_push _ = 0"

definition lock_inv :: "spin \<Rightarrow> bool" where
  "lock_inv s \<longleftrightarrow>
     (\<forall>c d l. owns s c l \<longrightarrow> owns s d l \<longrightarrow> c = d)
   \<and> (\<forall>l. locked (locks s l) \<noteq> 0 \<longleftrightarrow> (\<exists>c. owns s c l))
   \<and> (\<forall>c l. lk_cpu (locks s l) = Some c \<longleftrightarrow> l \<in> crit s c)
   \<and> (\<forall>c l. pc s c = AcqOwn l \<or> pc s c = RelStore l \<longrightarrow> l \<notin> crit s c)
   \<and> (\<forall>c l. pc s c = AcqSwap l \<longrightarrow> l \<notin> crit s c)
   \<and> (\<forall>c l. pc s c = RelClear l \<longrightarrow> l \<in> crit s c)"

lemma lock_invD:
  assumes "lock_inv s"
  shows "owns s c l \<Longrightarrow> owns s d l \<Longrightarrow> c = d" "locked (locks s l) \<noteq> 0 \<longleftrightarrow> (\<exists>c. owns s c l)"
    "lk_cpu (locks s l) = Some c \<longleftrightarrow> l \<in> crit s c" "pc s c = AcqOwn l \<Longrightarrow> l \<notin> crit s c"
    "pc s c = RelStore l \<Longrightarrow> l \<notin> crit s c"
    "pc s c = AcqSwap l \<Longrightarrow> l \<notin> crit s c" "pc s c = RelClear l \<Longrightarrow> l \<in> crit s c"
  using assms unfolding lock_inv_def by blast+

text \<open>A step that changes no lock and does not move ownership.\<close>

lemma lock_inv_move:
  assumes inv: "lock_inv s" and eq: "locks t = locks s" "crit t = crit s" "pc t = (pc s)(c := p)"
    and "\<And>l. (p = AcqOwn l \<or> p = RelStore l) = (pc s c = AcqOwn l \<or> pc s c = RelStore l)"
    and "\<And>l. p = AcqSwap l \<Longrightarrow> l \<notin> crit s c" "\<And>l. p = RelClear l \<Longrightarrow> l \<in> crit s c"
  shows "lock_inv t"
proof -
  have o: "owns t = owns s" using assms(5) by (intro ext) (auto simp: owns_def eq)
  have m: "pc t d = AcqOwn l \<or> pc t d = RelStore l \<longleftrightarrow> pc s d = AcqOwn l \<or> pc s d = RelStore l" for d l
    using assms(5) by (simp add: eq)
  show ?thesis unfolding lock_inv_def o m eq(1,2) using inv assms(6,7) unfolding lock_inv_def
    by (auto simp: eq(3))
qed

lemma acquire_lock_inv: 
  assumes inv: "lock_inv s" shows "lock_inv (acquire_step c s)"
proof (cases "pc s c")
  case (AcqPush l)
  then show ?thesis by (intro lock_inv_move [OF inv, of _ c "AcqLocked l"]) (auto simp: acquire_step_def go_def push_off_def Let_def)
next
  case (AcqLocked l)
  have "locked (locks s l) = 0 \<Longrightarrow> l \<notin> crit s c" using lock_invD(2) [OF inv, of l] by (auto simp: owns_def)
  with AcqLocked show ?thesis
    by (intro lock_inv_move [OF inv, of _ c "if locked (locks s l) \<noteq> 0 then AcqCpu l else AcqSwap l"])
      (auto simp: acquire_step_def go_def split: if_splits)
next
  case (AcqCpu l)
  then show ?thesis using lock_invD(3) [OF inv, of l c]
    by (intro lock_inv_move [OF inv, of _ c "if lk_cpu (locks s l) = Some c then Stopped ''acquire'' else AcqSwap l"])
      (auto simp: acquire_step_def go_def split: if_splits)
next
  case (AcqSwap l)
  show ?thesis
  proof (cases "locked (locks s l) = 0")
    case True
    let ?t = "acquire_step c s"
    have t: "crit ?t = crit s" "pc ?t = (pc s)(c := AcqOwn l)" "locks ?t = (locks s)(l := (locks s l)\<lparr>locked := 1\<rparr>)"
      using AcqSwap True by (simp_all add: acquire_step_def go_def set_lock_def)
    have n: "\<not> owns s d l" for d using True lock_invD(2) [OF inv, of l] by auto
    have o: "owns ?t d k \<longleftrightarrow> owns s d k \<or> d = c \<and> k = l" for d k using AcqSwap by (auto simp: owns_def t)
    show ?thesis unfolding lock_inv_def
      using n lock_invD [OF inv] AcqSwap by (auto simp: o t)
  next
    case False
    let ?t = "acquire_step c s"
    have t: "crit ?t = crit s" "pc ?t = pc s" "locks ?t = (locks s)(l := (locks s l)\<lparr>locked := 1\<rparr>)"
      using AcqSwap False by (auto simp: acquire_step_def go_def set_lock_def fun_eq_iff)
    have o: "owns ?t = owns s" by (intro ext) (simp add: owns_def t)
    show ?thesis unfolding lock_inv_def o t using lock_invD [OF inv] False by (auto simp: o)
  qed
next
  case (AcqOwn l)
  let ?t = "acquire_step c s"
  have t: "crit ?t = (crit s)(c := insert l (crit s c))" "pc ?t = (pc s)(c := Run)"
    "locks ?t = (locks s)(l := (locks s l)\<lparr>lk_cpu := Some c\<rparr>)"
    using AcqOwn by (simp_all add: acquire_step_def go_def set_lock_def)
  have o: "owns ?t = owns s" using AcqOwn by (intro ext) (auto simp: owns_def t)
  have "owns s c l" using AcqOwn by (simp add: owns_def)
  then have n: "owns s d l \<Longrightarrow> d = c" for d using lock_invD(1) [OF inv] by blast
  then have "l \<in> crit s d \<Longrightarrow> d = c" for d by (simp add: owns_def)
  moreover have "pc s d = AcqOwn l \<or> pc s d = RelStore l \<Longrightarrow> d = c" for d using n by (auto simp: owns_def)
  moreover have "pc s d = AcqSwap k \<Longrightarrow> d \<noteq> c" for d k using AcqOwn by auto
  ultimately show ?thesis unfolding lock_inv_def o
    using lock_invD [OF inv] AcqOwn by (auto simp: t)
qed (simp_all add: acquire_step_def inv)

lemma release_lock_inv: 
  assumes inv: "lock_inv s" shows "lock_inv (release_step c s)"
proof (cases "pc s c")
  case (RelLocked l)
  then show ?thesis
    by (intro lock_inv_move [OF inv, of _ c "if locked (locks s l) \<noteq> 0 then RelCpu l else Stopped ''release''"])
      (auto simp: release_step_def go_def split: if_splits)
next
  case (RelCpu l)
  then show ?thesis using lock_invD(3) [OF inv, of l c]
    by (intro lock_inv_move [OF inv, of _ c "if lk_cpu (locks s l) = Some c then RelClear l else Stopped ''release''"])
      (auto simp: release_step_def go_def split: if_splits)
next
  case (RelClear l)
  let ?t = "release_step c s"
  have t: "crit ?t = (crit s)(c := crit s c - {l})" "pc ?t = (pc s)(c := RelStore l)"
    "locks ?t = (locks s)(l := (locks s l)\<lparr>lk_cpu := None\<rparr>)"
    using RelClear by (simp_all add: release_step_def go_def set_lock_def)
  have l: "l \<in> crit s c" by (rule lock_invD(7) [OF inv RelClear])
  then have o: "owns ?t = owns s" using RelClear by (intro ext) (auto simp: owns_def t)
  have n: "l \<in> crit s d \<Longrightarrow> d = c" for d using lock_invD(1) [OF inv, of d l c] l by (simp add: owns_def)
  then show ?thesis unfolding lock_inv_def o
    using lock_invD [OF inv] RelClear by (auto simp: t)
next
  case (RelStore l)
  let ?t = "release_step c s"
  have t: "crit ?t = crit s" "pc ?t = (pc s)(c := RelPop)" "locks ?t = (locks s)(l := (locks s l)\<lparr>locked := 0\<rparr>)"
    using RelStore by (simp_all add: release_step_def go_def set_lock_def)
  have "owns s c l" using RelStore by (simp add: owns_def)
  then have n: "owns s d l \<longleftrightarrow> d = c" for d using lock_invD(1) [OF inv] by blast
  have o: "owns ?t d k \<longleftrightarrow> owns s d k \<and> k \<noteq> l" for d k
    using n [of d] RelStore lock_invD(5) [OF inv RelStore] by (auto simp: owns_def t)
  show ?thesis unfolding lock_inv_def
    using lock_invD [OF inv] by (auto simp: o t)
next
  case RelPop
  then show ?thesis
    by (intro lock_inv_move [OF inv, of _ c "case pop_off c s of Inl e \<Rightarrow> Stopped e | Inr t \<Rightarrow> Run"])
      (auto simp: release_step_def go_def pop_off_def Let_def split: if_splits)
qed (simp_all add: release_step_def inv)

lemma step_lock_inv:
  assumes "spin_step s t" and inv: "lock_inv s" shows "lock_inv t"
  using assms(1)
proof cases
  case (client_pop c n u)
  then show ?thesis by (intro lock_inv_move [OF inv, of _ c Run]) (auto simp: pop_off_def Let_def split: if_splits)
next
  case (call_acquire c l)
  then show ?thesis by (intro lock_inv_move [OF inv, of _ c "AcqPush l"]) (auto simp: go_def)
next
  case (call_release c l)
  then show ?thesis by (intro lock_inv_move [OF inv, of _ c "RelLocked l"]) (auto simp: go_def)
next
  case (client_push c)
  then show ?thesis by (intro lock_inv_move [OF inv, of _ c Run]) (auto simp: push_off_def Let_def)
next
  case (intr_off c)
  then show ?thesis by (intro lock_inv_move [OF inv, of _ c Run]) auto
next
  case (intr_on c)
  then show ?thesis by (intro lock_inv_move [OF inv, of _ c Run]) auto
qed (simp_all add: acquire_lock_inv release_lock_inv inv)

text \<open>The count of open \<^verbatim>\<open>push_off\<close> calls, and interrupts, on one CPU.\<close>

definition off_ok :: "cpu \<Rightarrow> bool \<Rightarrow> nat set \<Rightarrow> nat \<Rightarrow> spc \<Rightarrow> bool" where
  "off_ok k i cs n p \<longleftrightarrow> finite cs \<and> noff k = int (card cs + n + open_push p) \<and> (noff k > 0 \<longrightarrow> \<not> i)"

definition off_inv :: "spin \<Rightarrow> bool" where
  "off_inv s \<longleftrightarrow> (\<forall>c. off_ok (cpus s c) (sie s c) (crit s c) (extra s c) (pc s c))"

lemma off_inv_cong:
  assumes "off_inv s" "\<And>d. d \<noteq> c \<Longrightarrow> cpus t d = cpus s d \<and> sie t d = sie s d \<and> crit t d = crit s d \<and> extra t d = extra s d \<and> pc t d = pc s d"
    "off_ok (cpus t c) (sie t c) (crit t c) (extra t c) (pc t c)"
  shows "off_inv t"
  unfolding off_inv_def
proof
  fix d show "off_ok (cpus t d) (sie t d) (crit t d) (extra t d) (pc t d)"
    using assms by (cases "d = c") (simp_all add: off_inv_def)
qed

lemma step_off_inv:
  assumes "spin_step s t" and inv: "off_inv s" and l: "lock_inv s" shows "off_inv t"
  using assms(1)
proof cases
  case (acq c)
  have "off_ok (cpus s c) (sie s c) (crit s c) (extra s c) (pc s c)" using inv by (simp add: off_inv_def)
  moreover have "pc s c = AcqOwn k \<Longrightarrow> k \<notin> crit s c" for k by (rule lock_invD(4) [OF l])
  ultimately show ?thesis unfolding acq
    by (intro off_inv_cong [OF inv, of c])
      (cases "pc s c"; auto simp: acquire_step_def go_def set_lock_def push_off_def Let_def off_ok_def)+
next
  case (rel c)
  have o: "off_ok (cpus s c) (sie s c) (crit s c) (extra s c) (pc s c)" using inv by (simp add: off_inv_def)
  moreover have "pc s c = RelClear k \<Longrightarrow> card (crit s c) = Suc (card (crit s c - {k}))" for k
    using lock_invD(7) [OF l] o by (metis card_Suc_Diff1 off_ok_def)
  ultimately show ?thesis unfolding rel
    by (intro off_inv_cong [OF inv, of c])
      (cases "pc s c"; auto simp: release_step_def go_def set_lock_def pop_off_def Let_def off_ok_def)+
next
  case (call_acquire c l)
  then show ?thesis using inv by (intro off_inv_cong [OF inv, of c]) (auto simp: go_def off_ok_def off_inv_def)
next
  case (call_release c l)
  then show ?thesis using inv by (intro off_inv_cong [OF inv, of c]) (auto simp: go_def off_ok_def off_inv_def)
next
  case (client_push c)
  then show ?thesis using inv by (intro off_inv_cong [OF inv, of c]) (auto simp: push_off_def Let_def off_ok_def off_inv_def)
next
  case (client_pop c n u)
  then show ?thesis using inv
    by (intro off_inv_cong [OF inv, of c]) (auto simp: pop_off_def Let_def off_ok_def off_inv_def split: if_splits)
next
  case (intr_off c)
  then show ?thesis using inv by (intro off_inv_cong [OF inv, of c]) (auto simp: off_ok_def off_inv_def)
next
  case (intr_on c)
  then show ?thesis using inv by (intro off_inv_cong [OF inv, of c]) (auto simp: off_ok_def off_inv_def)
qed

lemma spin_reach_inv: "spin_reach s \<Longrightarrow> lock_inv s \<and> off_inv s"
proof (induction rule: spin_reach.induct)
  case (init s)
  then show ?case by (simp add: spin_init_def lock_inv_def off_inv_def off_ok_def owns_def initlock_def)
next
  case (step s t)
  then show ?case using step_lock_inv step_off_inv by blast
qed

subsection \<open>What the locks guarantee\<close>

text \<open>C12 Mutual exclusion, in every interleaving of the memory accesses of \<^verbatim>\<open>acquire\<close> and \<^verbatim>\<open>release\<close> on any number of
  CPUs and locks: a lock is between acquire and release on one CPU at most; that CPU has interrupts off,
  \<^verbatim>\<open>holding\<close> answers yes for it and no for every other CPU; and a lock word that nobody owns is free, so that the next exchange
  of a spinning CPU gets the lock.\<close>

theorem spin_mutual_exclusion:
  assumes "spin_reach s"
  shows "(l \<in> crit s c \<longrightarrow> l \<in> crit s d \<longrightarrow> c = d)
    \<and> (l \<in> crit s c \<longrightarrow> \<not> sie s c)
    \<and> (holding c (locks s l) \<longleftrightarrow> l \<in> crit s c)
    \<and> (pc s c = AcqSwap l \<longrightarrow> (\<forall>e. \<not> owns s e l) \<longrightarrow> pc (acquire_step c s) c = AcqOwn l)"
proof -
  have inv: "lock_inv s" and off: "off_ok (cpus s c) (sie s c) (crit s c) (extra s c) (pc s c)"
    using spin_reach_inv [OF assms] by (auto simp: off_inv_def)
  have h: "l \<in> crit s c \<Longrightarrow> locked (locks s l) \<noteq> 0" using lock_invD(2) [OF inv, of l] by (auto simp: owns_def)
  have "l \<in> crit s c \<Longrightarrow> 0 < card (crit s c)" using off by (auto simp: off_ok_def card_gt_0_iff)
  then have "l \<in> crit s c \<longrightarrow> \<not> sie s c" using off by (auto simp: off_ok_def)
  moreover have "l \<in> crit s c \<longrightarrow> l \<in> crit s d \<longrightarrow> c = d" using lock_invD(1) [OF inv, of c l d] by (simp add: owns_def)
  moreover have "holding c (locks s l) \<longleftrightarrow> l \<in> crit s c" using h lock_invD(3) [OF inv, of l c] by (auto simp: holding_def)
  moreover have "pc s c = AcqSwap l \<longrightarrow> (\<forall>e. \<not> owns s e l) \<longrightarrow> pc (acquire_step c s) c = AcqOwn l"
    using lock_invD(2) [OF inv, of l] by (auto simp: acquire_step_def go_def set_lock_def)
  ultimately show ?thesis by blast
qed

text \<open>C18 The checks of the locks are exact, although other CPUs write the fields that \<^verbatim>\<open>holding\<close> reads: \<^verbatim>\<open>acquire\<close> panics if
  and only if the calling CPU already holds the lock, \<^verbatim>\<open>release\<close> if and only if it does not hold it, and neither check
  of \<^verbatim>\<open>pop_off\<close> ever fails in \<^verbatim>\<open>release\<close>.\<close>

theorem spin_checks_exact:
  assumes "spin_reach s"
  shows "(pc s c = AcqLocked l \<longrightarrow> l \<in> crit s c \<longrightarrow> pc (acquire_step c s) c = AcqCpu l)
    \<and> (pc s c = AcqCpu l \<longrightarrow> pc (acquire_step c s) c = (if l \<in> crit s c then Stopped ''acquire'' else AcqSwap l))
    \<and> (pc s c = RelLocked l \<longrightarrow> l \<in> crit s c \<longrightarrow> pc (release_step c s) c = RelCpu l)
    \<and> (pc s c = RelCpu l \<longrightarrow> pc (release_step c s) c = (if l \<in> crit s c then RelClear l else Stopped ''release''))
    \<and> (pc s c = RelPop \<longrightarrow> pc (release_step c s) c = Run)"
proof -
  have inv: "lock_inv s" and off: "off_ok (cpus s c) (sie s c) (crit s c) (extra s c) (pc s c)"
    using spin_reach_inv [OF assms] by (auto simp: off_inv_def)
  have h: "l \<in> crit s c \<Longrightarrow> locked (locks s l) \<noteq> 0" using lock_invD(2) [OF inv, of l] by (auto simp: owns_def)
  show ?thesis using h lock_invD(3) [OF inv, of l c] off
    by (auto simp: acquire_step_def release_step_def go_def pop_off_def Let_def off_ok_def)
qed

text \<open>Two CPUs: the first has acquired lock 5, the second is about to exchange its word.\<close>

definition spin0 :: spin where
  "spin0 = \<lparr>locks = \<lambda>_. initlock, cpus = \<lambda>_. \<lparr>noff = 0, intena = False\<rparr>, sie = \<lambda>_. True, pc = \<lambda>_. Run,
     crit = \<lambda>_. {}, extra = \<lambda>_. 0\<rparr>"

definition spin_held :: spin where
  "spin_held = (acquire_step 0 ^^ 4) (go 0 (AcqPush 5) spin0)"

definition spin_waits :: spin where
  "spin_waits = (acquire_step 1 ^^ 2) (go 1 (AcqPush 5) spin_held)"

lemma spin_reach_acquires: "spin_reach s \<Longrightarrow> spin_reach ((acquire_step c ^^ n) s)"
  by (induction n) (auto intro: spin_reach.step spin_step.acq)

lemmas spin_sim = acquire_step_def go_def set_lock_def push_off_def Let_def initlock_def spin0_def eval_nat_numeral

lemma spin_held_eq:
  "spin_held = spin0\<lparr>locks := (locks spin0)(5 := \<lparr>locked = 1, lk_cpu = Some 0\<rparr>),
     cpus := (cpus spin0)(0 := \<lparr>noff = 1, intena = True\<rparr>), sie := (sie spin0)(0 := False), crit := (crit spin0)(0 := {5})\<rparr>"
  unfolding spin_held_def by (simp add: spin_sim fun_eq_iff)

lemma spin_demo_reach: "spin_reach spin_held" "spin_reach spin_waits"
proof -
  have "spin_reach spin0" by (intro spin_reach.init) (simp add: spin_init_def spin0_def)
  then have "spin_reach (go 0 (AcqPush 5) spin0)" by (rule spin_reach.step) (intro call_acquire, simp add: spin0_def)
  then show h: "spin_reach spin_held" unfolding spin_held_def by (rule spin_reach_acquires)
  have "spin_reach (go 1 (AcqPush 5) spin_held)"
    by (rule spin_reach.step [OF h]) (intro call_acquire, simp add: spin_held_eq spin0_def)
  then show "spin_reach spin_waits" unfolding spin_waits_def by (rule spin_reach_acquires)
qed

theorem spin_mutual_exclusion_witness:
  "5 \<in> crit spin_held 0 \<and> \<not> sie spin_held 0 \<and> \<not> holding 1 (locks spin_held 5)"
proof -
  have "5 \<in> crit spin_held 0" "5 \<notin> crit spin_held 1" by (simp_all add: spin_held_eq spin0_def)
  then show ?thesis using spin_mutual_exclusion [OF spin_demo_reach(1), of 5 0 0]
    spin_mutual_exclusion [OF spin_demo_reach(1), of 5 1 1] by blast
qed

theorem spin_checks_exact_witness:
  "pc spin_waits 1 = AcqCpu 5 \<and> pc (acquire_step 1 spin_waits) 1 = AcqSwap 5"
proof -
  have "pc spin_waits 1 = AcqCpu 5" "5 \<notin> crit spin_waits 1"
    by (simp_all add: spin_waits_def spin_held_eq spin_sim)
  then show ?thesis using spin_checks_exact [OF spin_demo_reach(2), of 1 5] by simp
qed

subsection \<open>Nesting\<close>

fun pop_offs :: "nat \<Rightarrow> nat \<Rightarrow> spin \<Rightarrow> string + spin" where
  "pop_offs c 0 s = Inr s"
| "pop_offs c (Suc n) s = (case pop_off c s of Inl e \<Rightarrow> Inl e | Inr t \<Rightarrow> pop_offs c n t)"

lemma push_offs:
  "0 < n \<Longrightarrow> noff (cpus s c) = 0 \<Longrightarrow> cpus ((push_off c ^^ n) s) c = (cpus s c)\<lparr>noff := int n, intena := sie s c\<rparr>
     \<and> \<not> sie ((push_off c ^^ n) s) c"
proof (induction n)
  case (Suc n)
  then show ?case by (cases n) (auto simp: push_off_def Let_def)
qed simp

lemma pop_offs_runs:
  "noff (cpus s c) = int (Suc n) \<Longrightarrow> \<not> sie s c \<Longrightarrow>
     \<exists>t. pop_offs c (Suc n) s = Inr t \<and> noff (cpus t c) = 0 \<and> sie t c = intena (cpus s c)"
proof (induction n arbitrary: s)
  case (Suc n)
  let ?t = "s\<lparr>cpus := (cpus s)(c := (cpus s c)\<lparr>noff := noff (cpus s c) - 1\<rparr>), sie := (sie s)(c := False)\<rparr>"
  have "pop_off c s = Inr ?t" using Suc.prems by (simp add: pop_off_def)
  then show ?case using Suc.IH [of ?t] Suc.prems by simp
qed (simp add: pop_off_def Let_def)



end
