(* ===== verification/Exec.thy ===== *)
theory Exec
  imports File
begin

text \<open>
  The exec system call, \<^verbatim>\<open>kernel/exec.c\<close> with the ELF structures of \<^verbatim>\<open>kernel/elf.h\<close>.  The headers are
  decoded from the bytes that \<^verbatim>\<open>readi\<close> delivers.  The arguments are passed as the list of their
  strings, without the final NUL.
\<close>

record elfhdr =
  e_magic :: u32
  e_entry :: u64
  e_phoff :: u64
  e_phnum :: u16

record proghdr =
  ph_type :: u32
  ph_flags :: u32
  ph_off :: u64
  ph_vaddr :: u64
  ph_filesz :: u64
  ph_memsz :: u64

definition ELF_MAGIC :: u32 where "ELF_MAGIC = 0x464C457F"
definition ELF_PROG_LOAD :: u32 where "ELF_PROG_LOAD = 1"
definition ELFHDR_SIZE :: nat where "ELFHDR_SIZE = 64"
definition PROGHDR_SIZE :: nat where "PROGHDR_SIZE = 56"

definition decode_elfhdr :: "u8 list \<Rightarrow> elfhdr" where
  "decode_elfhdr d = \<lparr>e_magic = rd32 d 0, e_entry = rd64 d 24, e_phoff = rd64 d 32, e_phnum = rd16 d 56\<rparr>"

definition decode_proghdr :: "u8 list \<Rightarrow> proghdr" where
  "decode_proghdr d = \<lparr>ph_type = rd32 d 0, ph_flags = rd32 d 4, ph_off = rd64 d 8, ph_vaddr = rd64 d 16,
     ph_filesz = rd64 d 32, ph_memsz = rd64 d 40\<rparr>"

definition flags2perm :: "u32 \<Rightarrow> u64" where
  "flags2perm flags =
     (let perm = (if flags AND 1 \<noteq> 0 then PTE_X else 0)
      in if flags AND 2 \<noteq> 0 then perm OR PTE_W else perm)"

text \<open>\<open>is\<close> lists the values of \<^verbatim>\<open>i\<close>, the multiples of the page size below \<^verbatim>\<open>sz\<close>.\<close>

fun loadseg_loop :: "pagetable \<Rightarrow> u64 \<Rightarrow> nat \<Rightarrow> u32 \<Rightarrow> u32 \<Rightarrow> nat list \<Rightarrow> ('z ikernel_scheme, int) kM" where
  "loadseg_loop pt va ip offset sz [] = ret 0"
| "loadseg_loop pt va ip offset sz (i # is) =
     bnd (walkaddr pt (va + of_nat i)) (\<lambda>pa.
     if pa = 0 then panic ''loadseg: address should exist''
     else
       let n = (if unat sz - i < unat PGSIZE then unat sz - i else unat PGSIZE) in
       bnd (readi ip (KernDst pa) (offset + of_nat i) (of_nat n)) (\<lambda>(r, _).
       if r \<noteq> int n then ret (- 1) else loadseg_loop pt va ip offset sz is))"

definition loadseg :: "pagetable \<Rightarrow> u64 \<Rightarrow> nat \<Rightarrow> u32 \<Rightarrow> u32 \<Rightarrow> ('z ikernel_scheme, int) kM" where
  "loadseg pt va ip offset sz =
     loadseg_loop pt va ip offset sz
       (map (\<lambda>k. k * unat PGSIZE) [0..<(unat sz + unat PGSIZE - 1) div unat PGSIZE])"

text \<open>The loop over the program headers; the result says whether it got through, with the size
  reached so far.\<close>

fun kexec_load :: "nat \<Rightarrow> pagetable \<Rightarrow> nat \<Rightarrow> u32 \<Rightarrow> u64 \<Rightarrow> ('z ikernel_scheme, bool \<times> u64) kM" where
  "kexec_load ip pt 0 off sz = ret (True, sz)"
| "kexec_load ip pt (Suc k) off sz =
     bnd (readi ip ObjDst off (of_nat PROGHDR_SIZE)) (\<lambda>(r, bs).
     if r \<noteq> int PROGHDR_SIZE then ret (False, sz)
     else
       let ph = decode_proghdr bs in
       if ph_type ph \<noteq> ELF_PROG_LOAD then kexec_load ip pt k (off + of_nat PROGHDR_SIZE) sz
       else if ph_memsz ph < ph_filesz ph then ret (False, sz)
       else if ph_vaddr ph + ph_memsz ph < ph_vaddr ph then ret (False, sz)
       else if ph_vaddr ph mod PGSIZE \<noteq> 0 then ret (False, sz)
       else
         bnd (uvmalloc pt sz (ph_vaddr ph + ph_memsz ph) (flags2perm (ph_flags ph))) (\<lambda>sz1.
         if sz1 = 0 then ret (False, sz)
         else
           bnd (loadseg pt (ph_vaddr ph) ip (ucast (ph_off ph)) (ucast (ph_filesz ph))) (\<lambda>l.
           if l < 0 then ret (False, sz1)
           else kexec_load ip pt k (off + of_nat PROGHDR_SIZE) sz1)))"

text \<open>The loop that pushes the argument strings; \<open>us\<close> are the entries of \<^verbatim>\<open>ustack\<close>.\<close>

fun kexec_args :: "pagetable \<Rightarrow> u64 \<Rightarrow> u64 \<Rightarrow> u64 \<Rightarrow> u8 list list \<Rightarrow> u64 list \<Rightarrow>
    ('z ikernel_scheme, (u64 \<times> u64 list) option) kM" where
  "kexec_args pt sz stackbase sp [] us = ret (Some (sp, us))"
| "kexec_args pt sz stackbase sp (arg # args) us =
     (let sp1 = sp - (of_nat (length arg) + 1); sp2 = sp1 - sp1 mod 16 in
      if sp2 < stackbase then ret None
      else
        bnd (copyout pt sz sp2 (arg @ [0])) (\<lambda>r.
        if r < 0 then ret None
        else kexec_args pt sz stackbase sp2 args (us @ [sp2])))"

definition kexec_bad :: "pagetable \<Rightarrow> u64 \<Rightarrow> nat option \<Rightarrow> ('z ikernel_scheme, int) kM" where
  "kexec_bad pt sz ipo =
     bnd (whenM (pt \<noteq> 0) (proc_freepagetable pt sz)) (\<lambda>_.
     bnd (case ipo of None \<Rightarrow> ret () | Some i \<Rightarrow> bnd (iunlockput i) (\<lambda>_. end_op)) (\<lambda>_.
     ret (- 1)))"

text \<open>The scan for the last element of the path.\<close>

fun last_elem :: "u8 list \<Rightarrow> u8 list \<Rightarrow> u8 list" where
  "last_elem lst [] = lst"
| "last_elem lst (c # cs) = last_elem (if c = slash then cs else lst) cs"

text \<open>\<^verbatim>\<open>safestrcpy\<close> into a character array of the process.\<close>

definition safestrcpy_bytes :: "u8 list \<Rightarrow> u8 list \<Rightarrow> nat \<Rightarrow> u8 list" where
  "safestrcpy_bytes s t n =
     (if n = 0 then s else splice s 0 (take (n - 1) (takeWhile (\<lambda>c. c \<noteq> 0) t) @ [0]))"

definition kexec_image :: "nat \<Rightarrow> u8 list \<Rightarrow> u8 list list \<Rightarrow> elfhdr \<Rightarrow> pagetable \<Rightarrow> u64 \<Rightarrow> ('z ikernel_scheme, int) kM" where
  "kexec_image p path argv elf pt sz =
     bnd (get_proc p p_sz) (\<lambda>oldsz.
     let sz = PGROUNDUP sz; room = (USERSTACK + 1) * PGSIZE in
     bnd (uvmalloc pt sz (sz + room) PTE_W) (\<lambda>sz1.
     if sz1 = 0 then kexec_bad pt sz None
     else
       bnd (uvmclear pt (sz1 - room)) (\<lambda>_.
       let stackbase = sz1 - USERSTACK * PGSIZE in
       bnd (kexec_args pt sz1 stackbase sz1 argv []) (\<lambda>res.
       case res of
         None \<Rightarrow> kexec_bad pt sz1 None
       | Some (sp, us) \<Rightarrow>
           let sp1 = sp - (of_nat (length us) + 1) * 8; sp2 = sp1 - sp1 mod 16 in
           if sp2 < stackbase then kexec_bad pt sz1 None
           else
             bnd (copyout pt sz1 sp2 (concat (map le64 (us @ [0])))) (\<lambda>r.
             if r < 0 then kexec_bad pt sz1 None
             else
               bnd (tf_set p TF_a1 sp2) (\<lambda>_.
               bnd (upd_proc p (\<lambda>q. q\<lparr>p_name := safestrcpy_bytes (p_name q) (last_elem path path) 16\<rparr>)) (\<lambda>_.
               bnd (get_proc p p_pagetable) (\<lambda>oldpt.
               bnd (upd_proc p (\<lambda>q. q\<lparr>p_pagetable := pt, p_sz := sz1\<rparr>)) (\<lambda>_.
               bnd (tf_set p TF_epc (e_entry elf)) (\<lambda>_.
               bnd (tf_set p TF_sp sp2) (\<lambda>_.
               bnd (proc_freepagetable oldpt oldsz) (\<lambda>_.
               ret (int (length us))))))))))))))"

definition kexec :: "u8 list \<Rightarrow> u8 list list \<Rightarrow> ('z ikernel_scheme, int) kM" where
  "kexec path argv =
     bnd the_proc (\<lambda>p.
     bnd begin_op (\<lambda>_.
     bnd (namei path) (\<lambda>ipo.
     case ipo of
       None \<Rightarrow> bnd end_op (\<lambda>_. ret (- 1))
     | Some ip \<Rightarrow>
         bnd (ilock (Some ip)) (\<lambda>_.
         bnd (readi ip ObjDst 0 (of_nat ELFHDR_SIZE)) (\<lambda>(r, bs).
         if r \<noteq> int ELFHDR_SIZE then kexec_bad 0 0 (Some ip)
         else
           let elf = decode_elfhdr bs in
           if e_magic elf \<noteq> ELF_MAGIC then kexec_bad 0 0 (Some ip)
           else
             bnd (proc_pagetable p) (\<lambda>pt.
             if pt = 0 then kexec_bad 0 0 (Some ip)
             else
               bnd (kexec_load ip pt (unat (e_phnum elf)) (ucast (e_phoff elf)) 0) (\<lambda>(ok, sz).
               if \<not> ok then kexec_bad pt sz (Some ip)
               else
                 bnd (iunlockput ip) (\<lambda>_.
                 bnd end_op (\<lambda>_.
                 kexec_image p path argv elf pt sz)))))))))"

end
