(* ===== verification/Proc.thy ===== *)
theory Proc
  imports Exec
begin

text \<open>
  The part of \<^verbatim>\<open>kernel/proc.c\<close> that needs files: the first process, fork, exit, wait and the first
  return of a process to user space, with \<^verbatim>\<open>prepare_return\<close> of \<^verbatim>\<open>kernel/trap.c\<close>.  The state has the
  supervisor registers of the hart, the interrupt controller and the addresses of the assembly
  routines that the code refers to.
\<close>

record csrs =
  c_sstatus :: u64
  c_stvec :: u64
  c_sepc :: u64
  c_scause :: u64
  c_stval :: u64
  c_tp :: u64
  c_time :: u64
  c_stimecmp :: u64

record tkernel = ikernel +
  csr :: csrs
  plic_pending :: "u32 list"
  plic_writes :: "(addr \<times> u32) list"
  forkret_first :: bool
  sym_kernelvec :: addr
  sym_uservec :: addr
  sym_userret :: addr
  sym_usertrap :: addr

definition SSTATUS_SPP :: u64 where "SSTATUS_SPP = push_bit 8 1"
definition SSTATUS_SPIE :: u64 where "SSTATUS_SPIE = push_bit 5 1"
definition SSTATUS_SIE :: u64 where "SSTATUS_SIE = push_bit 1 1"

definition get_csr :: "(csrs \<Rightarrow> 'a) \<Rightarrow> ('z tkernel_scheme, 'a) kM" where
  "get_csr f = gets (\<lambda>s. f (csr s))"

definition upd_csr :: "(csrs \<Rightarrow> csrs) \<Rightarrow> ('z tkernel_scheme, unit) kM" where
  "upd_csr f = upd (\<lambda>s. s\<lparr>csr := f (csr s)\<rparr>)"

definition intr_on :: "('z tkernel_scheme, unit) kM" where
  "intr_on = upd_csr (\<lambda>c. c\<lparr>c_sstatus := c_sstatus c OR SSTATUS_SIE\<rparr>)"

definition intr_off :: "('z tkernel_scheme, unit) kM" where
  "intr_off = upd_csr (\<lambda>c. c\<lparr>c_sstatus := c_sstatus c AND NOT SSTATUS_SIE\<rparr>)"

definition intr_get :: "('z tkernel_scheme, bool) kM" where
  "intr_get = get_csr (\<lambda>c. c_sstatus c AND SSTATUS_SIE \<noteq> 0)"

text \<open>The bytes of a string literal.\<close>

definition bytes_of :: "string \<Rightarrow> u8 list" where
  "bytes_of cs = map (\<lambda>c. of_nat (of_char c)) cs"

text \<open>A process as a wait channel; the null pointer is \<open>NoChan\<close>.\<close>

definition proc_chan :: "nat option \<Rightarrow> wchan" where
  "proc_chan p = (case p of None \<Rightarrow> NoChan | Some i \<Rightarrow> ChProc i)"

subsection \<open>The first process, fork\<close>

definition userinit :: "('z tkernel_scheme, unit) kM" where
  "userinit =
     bnd allocproc (\<lambda>po.
     bnd (upd (\<lambda>s. s\<lparr>initproc := po\<rparr>)) (\<lambda>_.
     bnd (namei [slash]) (\<lambda>cwd.
     bnd (deref po) (\<lambda>p.
     upd_proc p (\<lambda>q. q\<lparr>p_cwd := cwd, p_state := RUNNABLE\<rparr>)))))"

definition kfork_files :: "nat \<Rightarrow> nat \<Rightarrow> ('z tkernel_scheme, unit) kM" where
  "kfork_files p np =
     forM [0..<NOFILE] (\<lambda>i.
       bnd (get_proc p (\<lambda>q. p_ofile q ! i)) (\<lambda>fo.
       case fo of
         None \<Rightarrow> ret ()
       | Some f \<Rightarrow> bnd (filedup f) (\<lambda>g. upd_proc np (\<lambda>q. q\<lparr>p_ofile := (p_ofile q)[i := Some g]\<rparr>))))"

definition kfork :: "('z tkernel_scheme, int) kM" where
  "kfork =
     bnd the_proc (\<lambda>p.
     bnd allocproc (\<lambda>npo.
     case npo of
       None \<Rightarrow> ret (- 1)
     | Some np \<Rightarrow>
         bnd (get_proc p p_pagetable) (\<lambda>pt.
         bnd (get_proc np p_pagetable) (\<lambda>npt.
         bnd (get_proc p p_sz) (\<lambda>sz.
         bnd (uvmcopy pt npt sz) (\<lambda>r.
         if r < 0 then bnd (freeproc np) (\<lambda>_. ret (- 1))
         else
           bnd (upd_proc np (\<lambda>q. q\<lparr>p_sz := sz\<rparr>)) (\<lambda>_.
           bnd (get_proc p p_trapframe) (\<lambda>tf.
           bnd (get_proc np p_trapframe) (\<lambda>ntf.
           bnd (upd (\<lambda>s. s\<lparr>mem := stbytes (mem s) ntf (ldbytes (mem s) tf TF_SIZE)\<rparr>)) (\<lambda>_.
           bnd (tf_set np TF_a0 0) (\<lambda>_.
           bnd (kfork_files p np) (\<lambda>_.
           bnd (get_proc p p_cwd) (\<lambda>c.
           bnd (deref c) (\<lambda>ci.
           bnd (idup ci) (\<lambda>cwd.
           bnd (get_proc p p_name) (\<lambda>nm.
           bnd (upd_proc np (\<lambda>q. q\<lparr>p_cwd := Some cwd, p_name := safestrcpy_bytes (p_name q) nm 16\<rparr>)) (\<lambda>_.
           bnd (get_proc np p_pid) (\<lambda>pid.
           bnd (upd_proc np (\<lambda>q. q\<lparr>p_parent := Some p\<rparr>)) (\<lambda>_.
           bnd (upd_proc np (\<lambda>q. q\<lparr>p_state := RUNNABLE\<rparr>)) (\<lambda>_.
           ret (sint pid)))))))))))))))))))))"

subsection \<open>Exit and wait\<close>

definition reparent :: "nat \<Rightarrow> ('z tkernel_scheme, unit) kM" where
  "reparent p =
     forM [0..<NPROC] (\<lambda>pp.
       bnd (get_proc pp p_parent) (\<lambda>par.
       whenM (par = Some p)
         (bnd (gets initproc) (\<lambda>ini.
          bnd (upd_proc pp (\<lambda>q. q\<lparr>p_parent := ini\<rparr>)) (\<lambda>_.
          wakeup (proc_chan ini))))))"

definition kexit_files :: "nat \<Rightarrow> ('z tkernel_scheme, unit) kM" where
  "kexit_files p =
     forM [0..<NOFILE] (\<lambda>fd.
       bnd (get_proc p (\<lambda>q. p_ofile q ! fd)) (\<lambda>fo.
       case fo of
         None \<Rightarrow> ret ()
       | Some f \<Rightarrow>
           bnd (fileclose f) (\<lambda>_.
           upd_proc p (\<lambda>q. q\<lparr>p_ofile := (p_ofile q)[fd := None]\<rparr>))))"

definition kexit :: "int \<Rightarrow> ('z tkernel_scheme, 'a) kM" where
  "kexit status =
     bnd the_proc (\<lambda>p.
     bnd (gets initproc) (\<lambda>ini.
     if ini = Some p then panic ''init exiting''
     else
       bnd (kexit_files p) (\<lambda>_.
       bnd begin_op (\<lambda>_.
       bnd (get_proc p p_cwd) (\<lambda>c.
       bnd (deref c) (\<lambda>ci.
       bnd (iput ci) (\<lambda>_.
       bnd end_op (\<lambda>_.
       bnd (upd_proc p (\<lambda>q. q\<lparr>p_cwd := None\<rparr>)) (\<lambda>_.
       bnd (reparent p) (\<lambda>_.
       bnd (get_proc p p_parent) (\<lambda>par.
       bnd (wakeup (proc_chan par)) (\<lambda>_.
       bnd (upd_proc p (\<lambda>q. q\<lparr>p_xstate := status, p_state := ZOMBIE\<rparr>)) (\<lambda>_.
       bnd sched (\<lambda>_.
       panic ''zombie exit''))))))))))))))"

text \<open>One scan of \<^verbatim>\<open>kwait\<close> over the process table: the value to return, or whether the process has
  children.\<close>

fun kwait_scan :: "nat \<Rightarrow> u64 \<Rightarrow> bool \<Rightarrow> nat list \<Rightarrow> ('z tkernel_scheme, int + bool) kM" where
  "kwait_scan p addr havekids [] = ret (Inr havekids)"
| "kwait_scan p addr havekids (pp # pps) =
     bnd (get_proc pp (\<lambda>q. q)) (\<lambda>q.
     if p_parent q = Some p then
       if p_state q = ZOMBIE then
         bnd (get_proc p p_pagetable) (\<lambda>pt.
         bnd (get_proc p p_sz) (\<lambda>sz.
         bnd (if addr = 0 then ret 0 else copyout pt sz addr (le32 (of_int (p_xstate q)))) (\<lambda>r.
         if r < 0 then ret (Inl (- 1))
         else
           bnd (upd_proc pp (\<lambda>q. q\<lparr>p_parent := None\<rparr>)) (\<lambda>_.
           bnd (freeproc pp) (\<lambda>_.
           ret (Inl (sint (p_pid q))))))))
       else kwait_scan p addr True pps
     else kwait_scan p addr havekids pps)"

definition kwait :: "u64 \<Rightarrow> ('z tkernel_scheme, int) kM" where
  "kwait addr =
     bnd the_proc (\<lambda>p.
     bnd (kwait_scan p addr False [0..<NPROC]) (\<lambda>res.
     case res of
       Inl v \<Rightarrow> ret v
     | Inr havekids \<Rightarrow>
         bnd (killed p) (\<lambda>k.
         if \<not> havekids \<or> k then ret (- 1)
         else sleep_retry (ChProc p))))"

subsection \<open>Return to user space\<close>

definition prepare_return :: "('z tkernel_scheme, unit) kM" where
  "prepare_return =
     bnd the_proc (\<lambda>p.
     bnd intr_off (\<lambda>_.
     bnd (gets (\<lambda>s. TRAMPOLINE + (sym_uservec s - trampoline s))) (\<lambda>uservec.
     bnd (upd_csr (\<lambda>c. c\<lparr>c_stvec := uservec\<rparr>)) (\<lambda>_.
     bnd (gets satp) (\<lambda>ks.
     bnd (tf_set p TF_kernel_satp ks) (\<lambda>_.
     bnd (get_proc p p_kstack) (\<lambda>kst.
     bnd (tf_set p TF_kernel_sp (kst + PGSIZE)) (\<lambda>_.
     bnd (gets sym_usertrap) (\<lambda>ut.
     bnd (tf_set p TF_kernel_trap ut) (\<lambda>_.
     bnd (get_csr c_tp) (\<lambda>tp.
     bnd (tf_set p TF_kernel_hartid tp) (\<lambda>_.
     bnd (upd_csr (\<lambda>c. c\<lparr>c_sstatus := (c_sstatus c AND NOT SSTATUS_SPP) OR SSTATUS_SPIE\<rparr>)) (\<lambda>_.
     bnd (tf_get p TF_epc) (\<lambda>epc.
     upd_csr (\<lambda>c. c\<lparr>c_sepc := epc\<rparr>)))))))))))))))"

text \<open>The result is the address of \<^verbatim>\<open>userret\<close> in the trampoline page and the argument that it is
  called with.\<close>

definition forkret :: "('z tkernel_scheme, u64 \<times> u64) kM" where
  "forkret =
     bnd the_proc (\<lambda>p.
     bnd (gets forkret_first) (\<lambda>first.
     bnd (whenM first
       (bnd (fsinit ROOTDEV) (\<lambda>_.
        bnd (upd (\<lambda>s. s\<lparr>forkret_first := False\<rparr>)) (\<lambda>_.
        bnd (kexec (bytes_of ''/init'') [bytes_of ''/init'']) (\<lambda>r.
        bnd (tf_set p TF_a0 (of_int r)) (\<lambda>_.
        bnd (tf_get p TF_a0) (\<lambda>a0.
        whenM (a0 = - 1) (panic ''exec'')))))))) (\<lambda>_.
     bnd prepare_return (\<lambda>_.
     bnd (get_proc p p_pagetable) (\<lambda>pt.
     bnd (gets (\<lambda>s. TRAMPOLINE + (sym_userret s - trampoline s))) (\<lambda>ur.
     ret (ur, MAKE_SATP pt)))))))"

end
