(* ===== verification/Sysfile.thy ===== *)
theory Sysfile
  imports Proc
begin

text \<open>
  The arguments of system calls (\<^verbatim>\<open>kernel/syscall.c\<close>) and the file system calls
  (\<^verbatim>\<open>kernel/sysfile.c\<close>).  A routine that stores a result through a pointer returns it; a string
  argument is the list of its characters up to the NUL.
\<close>

definition O_RDONLY :: u32 where "O_RDONLY = 0"
definition O_WRONLY :: u32 where "O_WRONLY = 1"
definition O_RDWR :: u32 where "O_RDWR = 2"
definition O_CREATE :: u32 where "O_CREATE = 0x200"
definition O_TRUNC :: u32 where "O_TRUNC = 0x400"

subsection \<open>Arguments\<close>

definition fetchaddr :: "u64 \<Rightarrow> ('z tkernel_scheme, int \<times> u64) kM" where
  "fetchaddr addr =
     bnd the_proc (\<lambda>p.
     bnd (get_proc p p_sz) (\<lambda>sz.
     if addr \<ge> sz \<or> addr + 8 > sz then ret (- 1, 0)
     else
       bnd (get_proc p p_pagetable) (\<lambda>pt.
       bnd (copyin pt sz addr 8) (\<lambda>(r, bs).
       ret (if r \<noteq> 0 then (- 1, 0) else (0, un64 bs))))))"

text \<open>The result of \<^verbatim>\<open>fetchstr\<close> and the contents of its buffer.\<close>

definition fetchstr :: "u64 \<Rightarrow> nat \<Rightarrow> ('z tkernel_scheme, int \<times> u8 list) kM" where
  "fetchstr addr mx =
     bnd the_proc (\<lambda>p.
     bnd (get_proc p p_pagetable) (\<lambda>pt.
     bnd (get_proc p p_sz) (\<lambda>sz.
     bnd (copyinstr pt sz addr mx) (\<lambda>(r, bs).
     ret (if r < 0 then (- 1, bs) else (int (length (takeWhile (\<lambda>c. c \<noteq> 0) bs)), bs))))))"

definition argraw :: "nat \<Rightarrow> ('z tkernel_scheme, u64) kM" where
  "argraw n =
     bnd the_proc (\<lambda>p.
     if n = 0 then tf_get p TF_a0
     else if n = 1 then tf_get p TF_a1
     else if n = 2 then tf_get p TF_a2
     else if n = 3 then tf_get p TF_a3
     else if n = 4 then tf_get p TF_a4
     else if n = 5 then tf_get p TF_a5
     else panic ''argraw'')"

definition argint :: "nat \<Rightarrow> ('z tkernel_scheme, u32) kM" where
  "argint n = bnd (argraw n) (\<lambda>v. ret (ucast v))"

definition argaddr :: "nat \<Rightarrow> ('z tkernel_scheme, u64) kM" where
  "argaddr n = argraw n"

text \<open>The string, or \<open>None\<close> for the error \<^verbatim>\<open>-1\<close>.\<close>

definition argstr :: "nat \<Rightarrow> nat \<Rightarrow> ('z tkernel_scheme, u8 list option) kM" where
  "argstr n mx =
     bnd (argaddr n) (\<lambda>addr.
     bnd (fetchstr addr mx) (\<lambda>(r, bs).
     ret (if r < 0 then None else Some (takeWhile (\<lambda>c. c \<noteq> 0) bs))))"

definition argfd :: "nat \<Rightarrow> ('z tkernel_scheme, (nat \<times> nat) option) kM" where
  "argfd n =
     bnd (argint n) (\<lambda>fd.
     if sint fd < 0 \<or> sint fd \<ge> int NOFILE then ret None
     else
       bnd the_proc (\<lambda>p.
       bnd (get_proc p (\<lambda>q. p_ofile q ! unat fd)) (\<lambda>fo.
       ret (case fo of None \<Rightarrow> None | Some f \<Rightarrow> Some (unat fd, f)))))"

fun first_free :: "nat option list \<Rightarrow> nat \<Rightarrow> nat option" where
  "first_free [] fd = None"
| "first_free (x # xs) fd = (if x = None then Some fd else first_free xs (Suc fd))"

definition fdalloc :: "nat \<Rightarrow> ('z tkernel_scheme, int) kM" where
  "fdalloc f =
     bnd the_proc (\<lambda>p.
     bnd (get_proc p (\<lambda>q. first_free (take NOFILE (p_ofile q)) 0)) (\<lambda>fdo.
     case fdo of
       None \<Rightarrow> ret (- 1)
     | Some fd \<Rightarrow>
         bnd (upd_proc p (\<lambda>q. q\<lparr>p_ofile := (p_ofile q)[fd := Some f]\<rparr>)) (\<lambda>_.
         ret (int fd))))"

definition clear_fd :: "nat \<Rightarrow> ('z tkernel_scheme, unit) kM" where
  "clear_fd fd = bnd the_proc (\<lambda>p. upd_proc p (\<lambda>q. q\<lparr>p_ofile := (p_ofile q)[fd := None]\<rparr>))"

subsection \<open>Descriptors\<close>

definition sys_dup :: "('z tkernel_scheme, u64) kM" where
  "sys_dup =
     bnd (argfd 0) (\<lambda>a.
     case a of
       None \<Rightarrow> ret (- 1)
     | Some (_, f) \<Rightarrow>
         bnd (fdalloc f) (\<lambda>fd.
         if fd < 0 then ret (- 1)
         else bnd (filedup f) (\<lambda>_. ret (of_int fd))))"

definition sys_read :: "('z tkernel_scheme, u64) kM" where
  "sys_read =
     bnd (argaddr 1) (\<lambda>p.
     bnd (argint 2) (\<lambda>n.
     bnd (argfd 0) (\<lambda>a.
     case a of
       None \<Rightarrow> ret (- 1)
     | Some (_, f) \<Rightarrow> bnd (fileread f p (sint n)) (\<lambda>r. ret (of_int r)))))"

definition sys_write :: "('z tkernel_scheme, u64) kM" where
  "sys_write =
     bnd (argaddr 1) (\<lambda>p.
     bnd (argint 2) (\<lambda>n.
     bnd (argfd 0) (\<lambda>a.
     case a of
       None \<Rightarrow> ret (- 1)
     | Some (_, f) \<Rightarrow> bnd (filewrite f p (sint n)) (\<lambda>r. ret (of_int r)))))"

definition sys_close :: "('z tkernel_scheme, u64) kM" where
  "sys_close =
     bnd (argfd 0) (\<lambda>a.
     case a of
       None \<Rightarrow> ret (- 1)
     | Some (fd, f) \<Rightarrow>
         bnd (clear_fd fd) (\<lambda>_.
         bnd (fileclose f) (\<lambda>_.
         ret 0)))"

definition sys_fstat :: "u8 list \<Rightarrow> ('z tkernel_scheme, u64) kM" where
  "sys_fstat pad =
     bnd (argaddr 1) (\<lambda>st.
     bnd (argfd 0) (\<lambda>a.
     case a of
       None \<Rightarrow> ret (- 1)
     | Some (_, f) \<Rightarrow> bnd (filestat pad f st) (\<lambda>r. ret (of_int r))))"

subsection \<open>Link and unlink\<close>

definition sys_link_bad :: "nat \<Rightarrow> ('z tkernel_scheme, u64) kM" where
  "sys_link_bad ip =
     bnd (ilock (Some ip)) (\<lambda>_.
     bnd (upd_inode ip (\<lambda>x. x\<lparr>i_nlink := i_nlink x - 1\<rparr>)) (\<lambda>_.
     bnd (iupdate ip) (\<lambda>_.
     bnd (iunlockput ip) (\<lambda>_.
     bnd end_op (\<lambda>_.
     ret (- 1))))))"

definition sys_link_at :: "u8 list \<Rightarrow> nat \<Rightarrow> ('z tkernel_scheme, u64) kM" where
  "sys_link_at new ip =
     bnd (ilock (Some ip)) (\<lambda>_.
     bnd (get_inode ip i_type) (\<lambda>ty.
     if ty = T_DIR then
       bnd (iunlockput ip) (\<lambda>_.
       bnd end_op (\<lambda>_. ret (- 1)))
     else
       bnd (upd_inode ip (\<lambda>x. x\<lparr>i_nlink := i_nlink x + 1\<rparr>)) (\<lambda>_.
       bnd (iupdate ip) (\<lambda>_.
       bnd (iunlock (Some ip)) (\<lambda>_.
       bnd (nameiparent new (replicate DIRSIZ 0)) (\<lambda>(dpo, name).
       case dpo of
         None \<Rightarrow> sys_link_bad ip
       | Some dp \<Rightarrow>
           bnd (ilock (Some dp)) (\<lambda>_.
           bnd (get_inode dp i_dev) (\<lambda>ddev.
           bnd (get_inode ip i_dev) (\<lambda>idev.
           bnd (get_inode ip i_inum) (\<lambda>inum.
           bnd (if ddev \<noteq> idev then ret (- 1) else dirlink dp name inum) (\<lambda>r.
           if r < 0 then bnd (iunlockput dp) (\<lambda>_. sys_link_bad ip)
           else
             bnd (iunlockput dp) (\<lambda>_.
             bnd (iput ip) (\<lambda>_.
             bnd end_op (\<lambda>_.
             ret 0))))))))))))))"

definition sys_link :: "('z tkernel_scheme, u64) kM" where
  "sys_link =
     bnd (argstr 0 MAXPATH) (\<lambda>oldo.
     case oldo of
       None \<Rightarrow> ret (- 1)
     | Some old \<Rightarrow>
         bnd (argstr 1 MAXPATH) (\<lambda>newo.
         case newo of
           None \<Rightarrow> ret (- 1)
         | Some new \<Rightarrow>
             bnd begin_op (\<lambda>_.
             bnd (namei old) (\<lambda>ipo.
             case ipo of
               None \<Rightarrow> bnd end_op (\<lambda>_. ret (- 1))
             | Some ip \<Rightarrow> sys_link_at new ip))))"

fun isdirempty_loop :: "nat \<Rightarrow> nat list \<Rightarrow> ('z tkernel_scheme, bool) kM" where
  "isdirempty_loop dp [] = ret True"
| "isdirempty_loop dp (off # offs) =
     bnd (readi dp ObjDst (of_nat off) (of_nat DIRENT_SIZE)) (\<lambda>(r, de).
     if r \<noteq> int DIRENT_SIZE then panic ''isdirempty: readi''
     else if rd16 de 0 \<noteq> 0 then ret False
     else isdirempty_loop dp offs)"

definition isdirempty :: "nat \<Rightarrow> ('z tkernel_scheme, bool) kM" where
  "isdirempty dp = bnd (get_inode dp i_size) (\<lambda>sz. isdirempty_loop dp (drop 2 (dir_offsets sz)))"

definition sys_unlink_bad :: "nat \<Rightarrow> ('z tkernel_scheme, u64) kM" where
  "sys_unlink_bad dp =
     bnd (iunlockput dp) (\<lambda>_.
     bnd end_op (\<lambda>_.
     ret (- 1)))"

definition sys_unlink_at :: "nat \<Rightarrow> u8 list \<Rightarrow> ('z tkernel_scheme, u64) kM" where
  "sys_unlink_at dp name =
     bnd (ilock (Some dp)) (\<lambda>_.
     if namecmp name (bytes_of ''.'') = 0 \<or> namecmp name (bytes_of ''..'') = 0 then sys_unlink_bad dp
     else
       bnd (dirlookup dp name) (\<lambda>hit.
       case hit of
         None \<Rightarrow> sys_unlink_bad dp
       | Some (ip, off) \<Rightarrow>
           bnd (ilock (Some ip)) (\<lambda>_.
           bnd (get_inode ip (\<lambda>x. x)) (\<lambda>x.
           if sint (i_nlink x) < 1 then panic ''unlink: nlink < 1''
           else
             bnd (if i_type x = T_DIR then isdirempty ip else ret True) (\<lambda>ok.
             if \<not> ok then bnd (iunlockput ip) (\<lambda>_. sys_unlink_bad dp)
             else
               bnd (writei dp (ObjSrc (replicate DIRENT_SIZE 0)) off (of_nat DIRENT_SIZE)) (\<lambda>w.
               if w \<noteq> int DIRENT_SIZE then panic ''unlink: writei''
               else
                 bnd (whenM (i_type x = T_DIR)
                   (bnd (upd_inode dp (\<lambda>d. d\<lparr>i_nlink := i_nlink d - 1\<rparr>)) (\<lambda>_. iupdate dp))) (\<lambda>_.
                 bnd (iunlockput dp) (\<lambda>_.
                 bnd (upd_inode ip (\<lambda>d. d\<lparr>i_nlink := i_nlink d - 1\<rparr>)) (\<lambda>_.
                 bnd (iupdate ip) (\<lambda>_.
                 bnd (iunlockput ip) (\<lambda>_.
                 bnd end_op (\<lambda>_.
                 ret 0))))))))))))"

definition sys_unlink :: "('z tkernel_scheme, u64) kM" where
  "sys_unlink =
     bnd (argstr 0 MAXPATH) (\<lambda>patho.
     case patho of
       None \<Rightarrow> ret (- 1)
     | Some path \<Rightarrow>
         bnd begin_op (\<lambda>_.
         bnd (nameiparent path (replicate DIRSIZ 0)) (\<lambda>(dpo, name).
         case dpo of
           None \<Rightarrow> bnd end_op (\<lambda>_. ret (- 1))
         | Some dp \<Rightarrow> sys_unlink_at dp name)))"

subsection \<open>Creation\<close>

definition create_fail :: "nat \<Rightarrow> nat \<Rightarrow> ('z tkernel_scheme, nat option) kM" where
  "create_fail ip dp =
     bnd (upd_inode ip (\<lambda>x. x\<lparr>i_nlink := 0\<rparr>)) (\<lambda>_.
     bnd (iupdate ip) (\<lambda>_.
     bnd (iunlockput ip) (\<lambda>_.
     bnd (iunlockput dp) (\<lambda>_.
     ret None))))"

text \<open>The entries \<^verbatim>\<open>.\<close> and \<^verbatim>\<open>..\<close> of a new directory; the result tells whether both were written.\<close>

definition create_dots :: "nat \<Rightarrow> nat \<Rightarrow> ('z tkernel_scheme, bool) kM" where
  "create_dots ip dp =
     bnd (get_inode ip i_inum) (\<lambda>inum.
     bnd (dirlink ip (bytes_of ''.'') inum) (\<lambda>r.
     if r < 0 then ret False
     else
       bnd (get_inode dp i_inum) (\<lambda>dnum.
       bnd (dirlink ip (bytes_of ''..'') dnum) (\<lambda>r2.
       ret (\<not> r2 < 0)))))"

definition create_new :: "nat \<Rightarrow> u8 list \<Rightarrow> u16 \<Rightarrow> u16 \<Rightarrow> u16 \<Rightarrow> ('z tkernel_scheme, nat option) kM" where
  "create_new dp name ty maj mino =
     bnd (get_inode dp i_dev) (\<lambda>dev.
     bnd (ialloc dev ty) (\<lambda>ipo.
     case ipo of
       None \<Rightarrow> bnd (iunlockput dp) (\<lambda>_. ret None)
     | Some ip \<Rightarrow>
         bnd (ilock (Some ip)) (\<lambda>_.
         bnd (upd_inode ip (\<lambda>x. x\<lparr>i_major := maj, i_minor := mino, i_nlink := 1\<rparr>)) (\<lambda>_.
         bnd (iupdate ip) (\<lambda>_.
         bnd (if ty = T_DIR then create_dots ip dp else ret True) (\<lambda>ok.
         if \<not> ok then create_fail ip dp
         else
           bnd (get_inode ip i_inum) (\<lambda>inum.
           bnd (dirlink dp name inum) (\<lambda>r.
           if r < 0 then create_fail ip dp
           else
             bnd (whenM (ty = T_DIR)
               (bnd (upd_inode dp (\<lambda>d. d\<lparr>i_nlink := i_nlink d + 1\<rparr>)) (\<lambda>_. iupdate dp))) (\<lambda>_.
             bnd (iunlockput dp) (\<lambda>_.
             ret (Some ip)))))))))))"

definition create :: "u8 list \<Rightarrow> u16 \<Rightarrow> u16 \<Rightarrow> u16 \<Rightarrow> ('z tkernel_scheme, nat option) kM" where
  "create path ty maj mino =
     bnd (nameiparent path (replicate DIRSIZ 0)) (\<lambda>(dpo, name).
     case dpo of
       None \<Rightarrow> ret None
     | Some dp \<Rightarrow>
         bnd (ilock (Some dp)) (\<lambda>_.
         bnd (get_inode dp i_nlink) (\<lambda>nl.
         if nl = 0 then bnd (iunlockput dp) (\<lambda>_. ret None)
         else
           bnd (dirlookup dp name) (\<lambda>hit.
           case hit of
             Some (ip, _) \<Rightarrow>
               bnd (iunlockput dp) (\<lambda>_.
               bnd (ilock (Some ip)) (\<lambda>_.
               bnd (get_inode ip i_type) (\<lambda>ity.
               if ty = T_FILE \<and> (ity = T_FILE \<or> ity = T_DEVICE) then ret (Some ip)
               else bnd (iunlockput ip) (\<lambda>_. ret None))))
           | None \<Rightarrow> create_new dp name ty maj mino))))"

subsection \<open>Open and the other calls\<close>

text \<open>The locked inode that \<^verbatim>\<open>sys_open\<close> opens.\<close>

definition sys_open_inode :: "u8 list \<Rightarrow> u32 \<Rightarrow> ('z tkernel_scheme, nat option) kM" where
  "sys_open_inode path omode =
     (if omode AND O_CREATE \<noteq> 0 then
        bnd (create path T_FILE 0 0) (\<lambda>ipo.
        case ipo of
          None \<Rightarrow> bnd end_op (\<lambda>_. ret None)
        | Some ip \<Rightarrow> ret (Some ip))
      else
        bnd (namei path) (\<lambda>ipo.
        case ipo of
          None \<Rightarrow> bnd end_op (\<lambda>_. ret None)
        | Some ip \<Rightarrow>
            bnd (ilock (Some ip)) (\<lambda>_.
            bnd (get_inode ip i_type) (\<lambda>ty.
            if ty = T_DIR \<and> omode \<noteq> O_RDONLY then
              bnd (iunlockput ip) (\<lambda>_.
              bnd end_op (\<lambda>_. ret None))
            else ret (Some ip)))))"

definition sys_open_fail :: "nat \<Rightarrow> ('z tkernel_scheme, u64) kM" where
  "sys_open_fail ip =
     bnd (iunlockput ip) (\<lambda>_.
     bnd end_op (\<lambda>_. ret (- 1)))"

definition sys_open_file :: "nat \<Rightarrow> u32 \<Rightarrow> ('z tkernel_scheme, u64) kM" where
  "sys_open_file ip omode =
     bnd (get_inode ip (\<lambda>x. x)) (\<lambda>x.
     if i_type x = T_DEVICE \<and> (sint (i_major x) < 0 \<or> sint (i_major x) \<ge> int NDEV) then sys_open_fail ip
     else
       bnd filealloc (\<lambda>fo.
       case fo of
         None \<Rightarrow> sys_open_fail ip
       | Some f \<Rightarrow>
           bnd (fdalloc f) (\<lambda>fd.
           if fd < 0 then bnd (fileclose f) (\<lambda>_. sys_open_fail ip)
           else
             bnd (if i_type x = T_DEVICE then upd_file f (\<lambda>g. g\<lparr>f_type := FD_DEVICE, f_major := i_major x\<rparr>)
                  else upd_file f (\<lambda>g. g\<lparr>f_type := FD_INODE, f_off := 0\<rparr>)) (\<lambda>_.
             bnd (upd_file f (\<lambda>g. g\<lparr>f_ip := Some ip, f_readable := (omode AND O_WRONLY = 0),
               f_writable := (omode AND O_WRONLY \<noteq> 0 \<or> omode AND O_RDWR \<noteq> 0)\<rparr>)) (\<lambda>_.
             bnd (whenM (omode AND O_TRUNC \<noteq> 0 \<and> i_type x = T_FILE) (itrunc ip)) (\<lambda>_.
             bnd (iunlock (Some ip)) (\<lambda>_.
             bnd end_op (\<lambda>_.
             ret (of_int fd)))))))))"

definition sys_open :: "('z tkernel_scheme, u64) kM" where
  "sys_open =
     bnd (argint 1) (\<lambda>omode.
     bnd (argstr 0 MAXPATH) (\<lambda>patho.
     case patho of
       None \<Rightarrow> ret (- 1)
     | Some path \<Rightarrow>
         bnd begin_op (\<lambda>_.
         bnd (sys_open_inode path omode) (\<lambda>ipo.
         case ipo of
           None \<Rightarrow> ret (- 1)
         | Some ip \<Rightarrow> sys_open_file ip omode))))"

definition sys_make :: "u8 list option \<Rightarrow> u16 \<Rightarrow> u16 \<Rightarrow> u16 \<Rightarrow> ('z tkernel_scheme, u64) kM" where
  "sys_make patho ty maj mino =
     bnd (case patho of None \<Rightarrow> ret None | Some path \<Rightarrow> create path ty maj mino) (\<lambda>ipo.
     case ipo of
       None \<Rightarrow> bnd end_op (\<lambda>_. ret (- 1))
     | Some ip \<Rightarrow>
         bnd (iunlockput ip) (\<lambda>_.
         bnd end_op (\<lambda>_. ret 0)))"

definition sys_mkdir :: "('z tkernel_scheme, u64) kM" where
  "sys_mkdir =
     bnd begin_op (\<lambda>_.
     bnd (argstr 0 MAXPATH) (\<lambda>patho.
     sys_make patho T_DIR 0 0))"

definition sys_mknod :: "('z tkernel_scheme, u64) kM" where
  "sys_mknod =
     bnd begin_op (\<lambda>_.
     bnd (argint 1) (\<lambda>maj.
     bnd (argint 2) (\<lambda>mino.
     bnd (argstr 0 MAXPATH) (\<lambda>patho.
     sys_make patho T_DEVICE (ucast maj) (ucast mino)))))"

definition sys_chdir :: "('z tkernel_scheme, u64) kM" where
  "sys_chdir =
     bnd the_proc (\<lambda>p.
     bnd begin_op (\<lambda>_.
     bnd (argstr 0 MAXPATH) (\<lambda>patho.
     bnd (case patho of None \<Rightarrow> ret None | Some path \<Rightarrow> namei path) (\<lambda>ipo.
     case ipo of
       None \<Rightarrow> bnd end_op (\<lambda>_. ret (- 1))
     | Some ip \<Rightarrow>
         bnd (ilock (Some ip)) (\<lambda>_.
         bnd (get_inode ip i_type) (\<lambda>ty.
         if ty \<noteq> T_DIR then
           bnd (iunlockput ip) (\<lambda>_.
           bnd end_op (\<lambda>_. ret (- 1)))
         else
           bnd (iunlock (Some ip)) (\<lambda>_.
           bnd (get_proc p p_cwd) (\<lambda>c.
           bnd (deref c) (\<lambda>ci.
           bnd (iput ci) (\<lambda>_.
           bnd end_op (\<lambda>_.
           bnd (upd_proc p (\<lambda>q. q\<lparr>p_cwd := Some ip\<rparr>)) (\<lambda>_.
           ret 0))))))))))))"

text \<open>The loop of \<^verbatim>\<open>sys_exec\<close> over the argument vector; \<open>acc\<close> lists the pages and strings so far.\<close>

fun sys_exec_args :: "u64 \<Rightarrow> nat \<Rightarrow> nat \<Rightarrow> (addr \<times> u8 list) list \<Rightarrow> ('z tkernel_scheme, bool \<times> (addr \<times> u8 list) list) kM" where
  "sys_exec_args uargv i 0 acc = ret (False, acc)"
| "sys_exec_args uargv i (Suc k) acc =
     bnd (fetchaddr (uargv + 8 * of_nat i)) (\<lambda>(r, uarg).
     if r < 0 then ret (False, acc)
     else if uarg = 0 then ret (True, acc)
     else
       bnd kalloc (\<lambda>pa.
       if pa = 0 then ret (False, acc)
       else
         bnd (fetchstr uarg (unat PGSIZE)) (\<lambda>(r2, bs).
         bnd (upd (\<lambda>s. s\<lparr>mem := stbytes (mem s) pa bs\<rparr>)) (\<lambda>_.
         if r2 < 0 then ret (False, acc @ [(pa, bs)])
         else sys_exec_args uargv (Suc i) k (acc @ [(pa, takeWhile (\<lambda>c. c \<noteq> 0) bs)])))))"

definition sys_exec :: "('z tkernel_scheme, u64) kM" where
  "sys_exec =
     bnd (argaddr 1) (\<lambda>uargv.
     bnd (argstr 0 MAXPATH) (\<lambda>patho.
     case patho of
       None \<Rightarrow> ret (- 1)
     | Some path \<Rightarrow>
         bnd (sys_exec_args uargv 0 MAXARG []) (\<lambda>(ok, argv).
         if ok then
           bnd (kexec path (map snd argv)) (\<lambda>r.
           bnd (forM argv (\<lambda>(pa, _). kfree pa)) (\<lambda>_.
           ret (of_int r)))
         else
           bnd (forM argv (\<lambda>(pa, _). kfree pa)) (\<lambda>_.
           ret (- 1)))))"

definition sys_pipe :: "('z tkernel_scheme, u64) kM" where
  "sys_pipe =
     bnd the_proc (\<lambda>p.
     bnd (argaddr 0) (\<lambda>fdarray.
     bnd pipealloc (\<lambda>fo.
     case fo of
       None \<Rightarrow> ret (- 1)
     | Some (frd, fwr) \<Rightarrow>
         bnd (fdalloc frd) (\<lambda>fd0.
         bnd (if fd0 < 0 then ret (- 1) else fdalloc fwr) (\<lambda>fd1.
         if fd0 < 0 \<or> fd1 < 0 then
           bnd (whenM (fd0 \<ge> 0) (clear_fd (nat fd0))) (\<lambda>_.
           bnd (fileclose frd) (\<lambda>_.
           bnd (fileclose fwr) (\<lambda>_.
           ret (- 1))))
         else
           bnd (get_proc p p_pagetable) (\<lambda>pt.
           bnd (get_proc p p_sz) (\<lambda>sz.
           bnd (copyout pt sz fdarray (le32 (of_int fd0))) (\<lambda>r0.
           bnd (if r0 < 0 then ret r0 else copyout pt sz (fdarray + 4) (le32 (of_int fd1))) (\<lambda>r1.
           if r1 < 0 then
             bnd (clear_fd (nat fd0)) (\<lambda>_.
             bnd (clear_fd (nat fd1)) (\<lambda>_.
             bnd (fileclose frd) (\<lambda>_.
             bnd (fileclose fwr) (\<lambda>_.
             ret (- 1)))))
           else ret 0)))))))))"

end
