(* ===== verification/Trap.thy ===== *)
theory Trap
  imports Sysfile
begin

text \<open>
  The process system calls (\<^verbatim>\<open>kernel/sysproc.c\<close>), the dispatch of system calls
  (\<^verbatim>\<open>kernel/syscall.c\<close>), the interrupt controller (\<^verbatim>\<open>kernel/plic.c\<close>), trap handling
  (\<^verbatim>\<open>kernel/trap.c\<close>) and the start of the kernel (\<^verbatim>\<open>kernel/main.c\<close>).  The interrupt handler of the
  disk is a parameter here.
\<close>

definition SBRK_EAGER :: int where "SBRK_EAGER = 1"
definition UART0_IRQ :: u32 where "UART0_IRQ = 10"
definition VIRTIO0_IRQ :: u32 where "VIRTIO0_IRQ = 1"

subsection \<open>Process system calls\<close>

definition sys_exit :: "('z tkernel_scheme, u64) kM" where
  "sys_exit = bnd (argint 0) (\<lambda>n. kexit (sint n))"

definition sys_getpid :: "('z tkernel_scheme, u64) kM" where
  "sys_getpid = bnd the_proc (\<lambda>p. bnd (get_proc p p_pid) (\<lambda>pid. ret (of_int (sint pid))))"

definition sys_fork :: "('z tkernel_scheme, u64) kM" where
  "sys_fork = bnd kfork (\<lambda>r. ret (of_int r))"

definition sys_wait :: "('z tkernel_scheme, u64) kM" where
  "sys_wait = bnd (argaddr 0) (\<lambda>p. bnd (kwait p) (\<lambda>r. ret (of_int r)))"

definition sys_sbrk :: "('z tkernel_scheme, u64) kM" where
  "sys_sbrk =
     bnd (argint 0) (\<lambda>nw.
     bnd (argint 1) (\<lambda>tw.
     bnd the_proc (\<lambda>p.
     bnd (get_proc p p_sz) (\<lambda>addr.
     let n = sint nw; t = sint tw in
     if t = SBRK_EAGER \<or> n < 0 then
       bnd (growproc n) (\<lambda>r. ret (if r < 0 then - 1 else addr))
     else if addr + of_int n < addr then ret (- 1)
     else if addr + of_int n > TRAPFRAME then ret (- 1)
     else
       bnd (upd_proc p (\<lambda>q. q\<lparr>p_sz := p_sz q + of_int n\<rparr>)) (\<lambda>_.
       ret addr)))))"

text \<open>The loop of \<^verbatim>\<open>sys_pause\<close>, entered with the tick count of the call.\<close>

definition sys_pause_wait :: "u32 \<Rightarrow> u32 \<Rightarrow> ('z tkernel_scheme, u64) kM" where
  "sys_pause_wait ticks0 n =
     bnd (gets ticks) (\<lambda>t.
     if t - ticks0 < n then
       bnd the_proc (\<lambda>p.
       bnd (killed p) (\<lambda>k.
       if k then ret (- 1) else sleep_retry ChTicks))
     else ret 0)"

definition sys_pause :: "('z tkernel_scheme, u64) kM" where
  "sys_pause =
     bnd (argint 0) (\<lambda>nw.
     bnd (gets ticks) (\<lambda>ticks0.
     sys_pause_wait ticks0 (if sint nw < 0 then 0 else nw)))"

definition sys_kill :: "('z tkernel_scheme, u64) kM" where
  "sys_kill = bnd (argint 0) (\<lambda>pid. bnd (kkill pid) (\<lambda>r. ret (of_int r)))"

definition sys_uptime :: "('z tkernel_scheme, u64) kM" where
  "sys_uptime = bnd (gets ticks) (\<lambda>t. ret (ucast t))"

subsection \<open>Dispatch\<close>

text \<open>The table \<^verbatim>\<open>syscalls\<close>; \<open>pad\<close> are the padding bytes of \<^verbatim>\<open>struct stat\<close>.\<close>

definition syscalls :: "u8 list \<Rightarrow> (('z tkernel_scheme, u64) kM) list" where
  "syscalls pad = [sys_fork, sys_exit, sys_wait, sys_pipe, sys_read, sys_kill, sys_exec, sys_fstat pad, sys_chdir,
     sys_dup, sys_getpid, sys_sbrk, sys_pause, sys_uptime, sys_open, sys_write, sys_mknod, sys_unlink, sys_link,
     sys_mkdir, sys_close, sys_sync]"

definition syscall :: "u8 list \<Rightarrow> ('z tkernel_scheme, unit) kM" where
  "syscall pad =
     bnd the_proc (\<lambda>p.
     bnd (tf_get p TF_a7) (\<lambda>a7.
     let num = sint (ucast a7 :: u32) in
     if 0 < num \<and> num \<le> 22 then
       bnd (syscalls pad ! nat (num - 1)) (\<lambda>v. tf_set p TF_a0 v)
     else
       bnd (get_proc p (\<lambda>q. q)) (\<lambda>q.
       bnd (printk_msg (''%d %s: unknown sys call %d'' @ [CHR 0x0A])
         (sint (p_pid q) # map uint (takeWhile (\<lambda>c. c \<noteq> 0) (p_name q)) @ [num])) (\<lambda>_.
       tf_set p TF_a0 (- 1)))))"

subsection \<open>Interrupt controller\<close>

definition plic_store :: "addr \<Rightarrow> u32 \<Rightarrow> ('z tkernel_scheme, unit) kM" where
  "plic_store a v = upd (\<lambda>s. s\<lparr>plic_writes := plic_writes s @ [(a, v)]\<rparr>)"

definition PLIC_SENABLE :: "u64 \<Rightarrow> addr" where "PLIC_SENABLE hart = PLIC + 0x2080 + hart * 0x100"
definition PLIC_SPRIORITY :: "u64 \<Rightarrow> addr" where "PLIC_SPRIORITY hart = PLIC + 0x201000 + hart * 0x2000"
definition PLIC_SCLAIM :: "u64 \<Rightarrow> addr" where "PLIC_SCLAIM hart = PLIC + 0x201004 + hart * 0x2000"

definition cpuid :: "('z tkernel_scheme, u64) kM" where
  "cpuid = get_csr (\<lambda>c. of_int (sint (ucast (c_tp c) :: u32)))"

definition plicinit :: "('z tkernel_scheme, unit) kM" where
  "plicinit =
     bnd (plic_store (PLIC + ucast UART0_IRQ * 4) 1) (\<lambda>_.
     plic_store (PLIC + ucast VIRTIO0_IRQ * 4) 1)"

definition plicinithart :: "('z tkernel_scheme, unit) kM" where
  "plicinithart =
     bnd cpuid (\<lambda>hart.
     bnd (plic_store (PLIC_SENABLE hart) (push_bit (unat UART0_IRQ) 1 OR push_bit (unat VIRTIO0_IRQ) 1)) (\<lambda>_.
     plic_store (PLIC_SPRIORITY hart) 0))"

text \<open>A read of the claim register hands out the next pending interrupt, or 0.\<close>

definition plic_claim :: "('z tkernel_scheme, u32) kM" where
  "plic_claim =
     bnd (gets plic_pending) (\<lambda>q.
     case q of
       [] \<Rightarrow> ret 0
     | irq # rest \<Rightarrow> bnd (upd (\<lambda>s. s\<lparr>plic_pending := rest\<rparr>)) (\<lambda>_. ret irq))"

definition plic_complete :: "u32 \<Rightarrow> ('z tkernel_scheme, unit) kM" where
  "plic_complete irq = bnd cpuid (\<lambda>hart. plic_store (PLIC_SCLAIM hart) irq)"

subsection \<open>Traps\<close>

definition trapinithart :: "('z tkernel_scheme, unit) kM" where
  "trapinithart = bnd (gets sym_kernelvec) (\<lambda>v. upd_csr (\<lambda>c. c\<lparr>c_stvec := v\<rparr>))"

definition clockintr :: "('z tkernel_scheme, unit) kM" where
  "clockintr =
     bnd cpuid (\<lambda>id.
     bnd (whenM (id = 0)
       (bnd (upd (\<lambda>s. s\<lparr>ticks := ticks s + 1\<rparr>)) (\<lambda>_.
        wakeup ChTicks))) (\<lambda>_.
     upd_csr (\<lambda>c. c\<lparr>c_stimecmp := c_time c + 1000000\<rparr>)))"

definition devintr :: "('z tkernel_scheme, unit) kM \<Rightarrow> ('z tkernel_scheme, int) kM" where
  "devintr virtio_disk_intr =
     bnd (get_csr c_scause) (\<lambda>scause.
     if scause = 0x8000000000000009 then
       bnd plic_claim (\<lambda>irq.
       bnd (if irq = UART0_IRQ then uartintr
            else if irq = VIRTIO0_IRQ then virtio_disk_intr
            else if irq \<noteq> 0 then printk_msg (''unexpected interrupt irq=%d'' @ [CHR 0x0A]) [sint irq]
            else ret ()) (\<lambda>_.
       bnd (whenM (irq \<noteq> 0) (plic_complete irq)) (\<lambda>_.
       ret 1)))
     else if scause = 0x8000000000000005 then bnd clockintr (\<lambda>_. ret 2)
     else ret 0)"

definition usertrap_fault :: "nat \<Rightarrow> ('z tkernel_scheme, unit) kM" where
  "usertrap_fault p =
     bnd (get_csr (\<lambda>c. c)) (\<lambda>c.
     bnd (get_proc p (\<lambda>q. q)) (\<lambda>q.
     bnd (if c_scause c = 15 \<or> c_scause c = 13
          then vmfault (p_pagetable q) (p_sz q) (c_stval c) (c_scause c = 13) else ret 0) (\<lambda>r.
     if r \<noteq> 0 then ret ()
     else
       bnd (printk_msg (''usertrap(): unexpected scause 0x%lx pid=%d'' @ [CHR 0x0A]) [uint (c_scause c), sint (p_pid q)]) (\<lambda>_.
       bnd (printk_msg (''            sepc=0x%lx stval=0x%lx'' @ [CHR 0x0A]) [uint (c_sepc c), uint (c_stval c)]) (\<lambda>_.
       setkilled p)))))"

definition usertrap :: "('z tkernel_scheme, unit) kM \<Rightarrow> u8 list \<Rightarrow> ('z tkernel_scheme, u64) kM" where
  "usertrap virtio_disk_intr pad =
     bnd (get_csr c_sstatus) (\<lambda>ss.
     if ss AND SSTATUS_SPP \<noteq> 0 then panic ''usertrap: not from user mode''
     else
       bnd trapinithart (\<lambda>_.
       bnd the_proc (\<lambda>p.
       bnd (get_csr c_sepc) (\<lambda>sepc.
       bnd (tf_set p TF_epc sepc) (\<lambda>_.
       bnd (get_csr c_scause) (\<lambda>scause.
       bnd (if scause = 8 then
              bnd (killed p) (\<lambda>k.
              bnd (whenM k (kexit (- 1))) (\<lambda>_.
              bnd (tf_get p TF_epc) (\<lambda>epc.
              bnd (tf_set p TF_epc (epc + 4)) (\<lambda>_.
              bnd intr_on (\<lambda>_.
              bnd (syscall pad) (\<lambda>_.
              ret 0))))))
            else
              bnd (devintr virtio_disk_intr) (\<lambda>which.
              bnd (whenM (which = 0) (usertrap_fault p)) (\<lambda>_.
              ret which))) (\<lambda>which_dev.
       bnd (killed p) (\<lambda>k.
       bnd (whenM k (kexit (- 1))) (\<lambda>_.
       bnd (whenM (which_dev = 2) yield) (\<lambda>_.
       bnd prepare_return (\<lambda>_.
       bnd (get_proc p p_pagetable) (\<lambda>pt.
       ret (MAKE_SATP pt)))))))))))))"

definition kerneltrap :: "('z tkernel_scheme, unit) kM \<Rightarrow> ('z tkernel_scheme, unit) kM" where
  "kerneltrap virtio_disk_intr =
     bnd (get_csr (\<lambda>c. c)) (\<lambda>c.
     if c_sstatus c AND SSTATUS_SPP = 0 then panic ''kerneltrap: not from supervisor mode''
     else
       bnd intr_get (\<lambda>en.
       if en then panic ''kerneltrap: interrupts enabled''
       else
         bnd (devintr virtio_disk_intr) (\<lambda>which_dev.
         if which_dev = 0 then
           bnd (get_csr (\<lambda>c. c)) (\<lambda>c'.
           bnd (printk_msg (''scause=0x%lx sepc=0x%lx stval=0x%lx'' @ [CHR 0x0A])
             [uint (c_scause c), uint (c_sepc c'), uint (c_stval c')]) (\<lambda>_.
           panic ''kerneltrap''))
         else
           bnd myproc (\<lambda>me.
           bnd (whenM (which_dev = 2 \<and> me \<noteq> None) yield) (\<lambda>_.
           upd_csr (\<lambda>x. x\<lparr>c_sepc := c_sepc c, c_sstatus := c_sstatus c\<rparr>))))))"

subsection \<open>Start of the kernel\<close>

definition fileinit :: "('z tkernel_scheme, unit) kM" where
  "fileinit = ret ()"

text \<open>\<^verbatim>\<open>main\<close> on hart 0 up to the call of the scheduler; the initialisation of the disk driver is a
  parameter.\<close>

definition main_hart0 :: "('z tkernel_scheme, unit) kM \<Rightarrow> ('z tkernel_scheme, unit) kM" where
  "main_hart0 virtio_disk_init =
     bnd consoleinit (\<lambda>_.
     bnd (printk_msg [CHR 0x0A] []) (\<lambda>_.
     bnd (printk_msg (''xv6 kernel is booting'' @ [CHR 0x0A]) []) (\<lambda>_.
     bnd (printk_msg [CHR 0x0A] []) (\<lambda>_.
     bnd kinit (\<lambda>_.
     bnd kvminit (\<lambda>_.
     bnd kvminithart (\<lambda>_.
     bnd procinit (\<lambda>_.
     bnd trapinithart (\<lambda>_.
     bnd plicinit (\<lambda>_.
     bnd plicinithart (\<lambda>_.
     bnd binit (\<lambda>_.
     bnd iinit (\<lambda>_.
     bnd fileinit (\<lambda>_.
     bnd virtio_disk_init (\<lambda>_.
     userinit)))))))))))))))"

end
