(* ===== verification/Printk.thy ===== *)
theory Printk
  imports Xv6_Prelude
begin

text \<open>
  Formatted output: \<^verbatim>\<open>printint\<close>, \<^verbatim>\<open>printptr\<close> and the format loops of the kernel's \<^verbatim>\<open>printk\<close>
  (\<^verbatim>\<open>kernel/printk.c\<close>) and of the user library's \<^verbatim>\<open>vprintf\<close> (\<^verbatim>\<open>user/printf.c\<close>).  A routine returns the
  characters that it hands to \<^verbatim>\<open>consputc\<close> or \<^verbatim>\<open>putc\<close>.  An argument of the variable part is a 64-bit
  value or a string, where \<open>None\<close> is the null pointer.
\<close>

datatype fmt_arg = Num u64 | Str "u8 list option"

definition kdigits :: "u8 list" where
  "kdigits = [0x30, 0x31, 0x32, 0x33, 0x34, 0x35, 0x36, 0x37, 0x38, 0x39, 0x61, 0x62, 0x63, 0x64, 0x65, 0x66]"

definition udigits :: "u8 list" where
  "udigits = [0x30, 0x31, 0x32, 0x33, 0x34, 0x35, 0x36, 0x37, 0x38, 0x39, 0x41, 0x42, 0x43, 0x44, 0x45, 0x46]"

lemma div_smaller: "0 < x div b \<Longrightarrow> 2 \<le> b \<Longrightarrow> x div b < (x::nat)"
  by (cases x) auto

text \<open>The loop \<^verbatim>\<open>do { buf[i++] = digits[x % base]; } while ((x /= base) != 0)\<close>: the contents of the
  buffer, least significant digit first.\<close>

function digit_loop :: "u8 list \<Rightarrow> nat \<Rightarrow> nat \<Rightarrow> u8 list" where
  "digit_loop ds base x =
     ds ! (x mod base) # (if x div base \<noteq> 0 \<and> 2 \<le> base then digit_loop ds base (x div base) else [])"
  by pat_completeness auto
termination
  by (relation "measure (\<lambda>(ds, base, x). x)") (auto intro: div_smaller)

declare digit_loop.simps [simp del]

text \<open>The conversion to unsigned of both \<^verbatim>\<open>printint\<close> routines; \<open>xx\<close> is the 64-bit argument.\<close>

definition int_chars :: "u8 list \<Rightarrow> u64 \<Rightarrow> nat \<Rightarrow> bool \<Rightarrow> u8 list" where
  "int_chars ds xx base sg =
     (let neg = (sg \<and> sint xx < 0);
          x = (if neg then - xx else xx);
          buf = digit_loop ds base (unat x) @ (if neg then [0x2D] else [])
      in rev buf)"

definition printint :: "u64 \<Rightarrow> nat \<Rightarrow> bool \<Rightarrow> u8 list" where
  "printint xx base sg = int_chars kdigits xx base sg"

definition uprintint :: "u64 \<Rightarrow> nat \<Rightarrow> bool \<Rightarrow> u8 list" where
  "uprintint xx base sg = int_chars udigits xx base sg"

text \<open>\<^verbatim>\<open>for (i = 0; i < 16; i++, x <<= 4) putc(digits[x >> 60])\<close>.\<close>

fun nibbles :: "u8 list \<Rightarrow> nat \<Rightarrow> u64 \<Rightarrow> u8 list" where
  "nibbles ds 0 x = []"
| "nibbles ds (Suc k) x = ds ! unat (drop_bit 60 x) # nibbles ds k (push_bit 4 x)"

definition printptr :: "u64 \<Rightarrow> u8 list" where
  "printptr x = [0x30, 0x78] @ nibbles kdigits 16 x"

definition uprintptr :: "u64 \<Rightarrow> u8 list" where
  "uprintptr x = [0x30, 0x78] @ nibbles udigits 16 x"

text \<open>\<^verbatim>\<open>va_arg\<close> as a 64-bit value, as a sign-extended \<^verbatim>\<open>int\<close>, as a zero-extended \<^verbatim>\<open>uint32\<close> and as a
  string.\<close>

fun arg64 :: "fmt_arg list \<Rightarrow> u64" where
  "arg64 (Num v # _) = v"
| "arg64 _ = 0"

definition arg_int :: "fmt_arg list \<Rightarrow> u64" where
  "arg_int args = of_int (sint (ucast (arg64 args) :: u32))"

definition arg_u32 :: "fmt_arg list \<Rightarrow> u64" where
  "arg_u32 args = ucast (ucast (arg64 args) :: u32)"

definition null_str :: "u8 list" where
  "null_str = [0x28, 0x6E, 0x75, 0x6C, 0x6C, 0x29]"

fun arg_str :: "fmt_arg list \<Rightarrow> u8 list" where
  "arg_str (Str (Some s) # _) = s"
| "arg_str _ = null_str"

fun peek_byte :: "u8 list \<Rightarrow> u8" where
  "peek_byte [] = 0"
| "peek_byte (c # cs) = c"

text \<open>The conversion after a \<^verbatim>\<open>%\<close> with the characters \<open>c0\<close>, \<open>c1\<close>, \<open>c2\<close>: the output, the number of
  further format characters, and whether an argument is used.\<close>

definition conversion :: "(u64 \<Rightarrow> nat \<Rightarrow> bool \<Rightarrow> u8 list) \<Rightarrow> (u64 \<Rightarrow> u8 list) \<Rightarrow> u8 \<Rightarrow> u8 \<Rightarrow> u8 \<Rightarrow> fmt_arg list \<Rightarrow>
    u8 list \<times> nat \<times> bool" where
  "conversion pint pptr c0 c1 c2 args =
     (if c0 = 0x64 then (pint (arg_int args) 10 True, 0, True)
      else if c0 = 0x6C \<and> c1 = 0x64 then (pint (arg64 args) 10 True, 1, True)
      else if c0 = 0x6C \<and> c1 = 0x6C \<and> c2 = 0x64 then (pint (arg64 args) 10 True, 2, True)
      else if c0 = 0x75 then (pint (arg_u32 args) 10 False, 0, True)
      else if c0 = 0x6C \<and> c1 = 0x75 then (pint (arg64 args) 10 False, 1, True)
      else if c0 = 0x6C \<and> c1 = 0x6C \<and> c2 = 0x75 then (pint (arg64 args) 10 False, 2, True)
      else if c0 = 0x78 then (pint (arg_u32 args) 16 False, 0, True)
      else if c0 = 0x6C \<and> c1 = 0x78 then (pint (arg64 args) 16 False, 1, True)
      else if c0 = 0x6C \<and> c1 = 0x6C \<and> c2 = 0x78 then (pint (arg64 args) 16 False, 2, True)
      else if c0 = 0x70 then (pptr (arg64 args), 0, True)
      else if c0 = 0x63 then ([ucast (arg64 args)], 0, True)
      else if c0 = 0x73 then (arg_str args, 0, True)
      else if c0 = 0x25 then ([0x25], 0, False)
      else ([0x25, c0], 0, False))"

text \<open>The loop over the format string.  At the end of the string after a \<^verbatim>\<open>%\<close> both loops stop.\<close>

function format_loop :: "(u64 \<Rightarrow> nat \<Rightarrow> bool \<Rightarrow> u8 list) \<Rightarrow> (u64 \<Rightarrow> u8 list) \<Rightarrow> u8 list \<Rightarrow> fmt_arg list \<Rightarrow> u8 list" where
  "format_loop pint pptr [] args = []"
| "format_loop pint pptr (c # cs) args =
     (if c \<noteq> 0x25 then c # format_loop pint pptr cs args
      else
        case cs of
          [] \<Rightarrow> []
        | c0 # rest \<Rightarrow>
            (case conversion pint pptr c0 (peek_byte rest) (peek_byte (tl rest)) args of
               (out, skip, used) \<Rightarrow> out @ format_loop pint pptr (drop skip rest) (if used then tl args else args)))"
  by pat_completeness auto
termination
  by (relation "measure (\<lambda>(pint, pptr, cs, args). length cs)") auto

definition printk :: "u8 list \<Rightarrow> fmt_arg list \<Rightarrow> u8 list" where
  "printk fmt args = format_loop printint printptr fmt args"

definition vprintf :: "u8 list \<Rightarrow> fmt_arg list \<Rightarrow> u8 list" where
  "vprintf fmt args = format_loop uprintint uprintptr fmt args"

subsection \<open>Reading back what was printed\<close>

text \<open>The value of a digit and of a digit string, most significant digit first.\<close>

definition digit_val :: "u8 list \<Rightarrow> u8 \<Rightarrow> nat" where
  "digit_val ds c = length (takeWhile (\<lambda>d. d \<noteq> c) ds)"

definition digits_val :: "u8 list \<Rightarrow> nat \<Rightarrow> u8 list \<Rightarrow> nat" where
  "digits_val ds base cs = foldl (\<lambda>n c. n * base + digit_val ds c) 0 cs"

lemma takeWhile_distinct:
  "distinct ds \<Longrightarrow> k < length ds \<Longrightarrow> length (takeWhile (\<lambda>d. d \<noteq> ds ! k) ds) = k"
proof (induction ds arbitrary: k)
  case (Cons d ds)
  then show ?case by (cases k) (auto simp: nth_Cons')
qed simp

lemma digit_val_nth: "distinct ds \<Longrightarrow> k < length ds \<Longrightarrow> digit_val ds (ds ! k) = k"
  by (simp add: digit_val_def takeWhile_distinct)

lemma digits_val_snoc: "digits_val ds base (cs @ [c]) = digits_val ds base cs * base + digit_val ds c"
  by (simp add: digits_val_def)

lemma digits_val_loop:
  assumes "distinct ds" "2 \<le> base" "base \<le> length ds"
  shows "digits_val ds base (rev (digit_loop ds base x)) = x"
proof (induction x rule: less_induct)
  case (less x)
  have d: "digit_val ds (ds ! (x mod base)) = x mod base"
    using assms(1,3) less_le_trans [OF mod_less_divisor [of base x] assms(3)] assms(2) by (intro digit_val_nth) simp_all
  show ?case
  proof (cases "x div base = 0")
    case True
    then have "x < base" using assms(2) by (simp add: div_eq_0_iff)
    then show ?thesis using d True by (simp add: digit_loop.simps [of ds base x] digits_val_def)
  next
    case False
    then have "x div base < x" using assms(2) by (intro div_smaller) auto
    then have "digits_val ds base (rev (digit_loop ds base (x div base))) = x div base" by (rule less)
    then show ?thesis
      using False d assms(2) by (simp add: digit_loop.simps [of ds base x] digits_val_snoc)
  qed
qed

lemma length_digit_loop:
  "2 \<le> base \<Longrightarrow> 0 < n \<Longrightarrow> x < base ^ n \<Longrightarrow> length (digit_loop ds base x) \<le> n"
proof (induction n arbitrary: x)
  case (Suc n)
  show ?case
  proof (cases "x div base = 0")
    case True
    then show ?thesis by (simp add: digit_loop.simps [of ds base x])
  next
    case False
    then have "n \<noteq> 0" using Suc.prems by (intro notI) simp
    moreover have "x div base < base ^ n"
      using Suc.prems by (simp add: less_mult_imp_div_less mult.commute)
    ultimately have "length (digit_loop ds base (x div base)) \<le> n" using Suc by simp
    then show ?thesis by (simp add: digit_loop.simps [of ds base x])
  qed
qed simp

lemma distinct_digits: "distinct kdigits" "distinct udigits" "length kdigits = 16" "length udigits = 16"
  by (simp_all add: kdigits_def udigits_def)

lemma unat_neg_sint:
  fixes x :: u64
  assumes "sint x < 0"
  shows "int (unat (- x)) = - sint x"
proof -
  have "- x = word_of_int (- sint x)" by simp
  then have "uint (- x) = (- sint x) mod 2 ^ 64" by (simp only: uint_word_of_int) simp
  moreover have "- (2 ^ 63) \<le> sint x" using sint_greater_eq [of x] by simp
  ultimately show ?thesis using assms by simp
qed

lemma unat_pos_sint:
  fixes x :: u64
  assumes "0 \<le> sint x"
  shows "int (unat x) = sint x"
proof -
  have "uint x = sint x mod 2 ^ 64" using uint_word_of_int [of "sint x", where ?'a = 64] by simp
  moreover have "sint x < 2 ^ 63" using sint_less [of x] by simp
  ultimately show ?thesis using assms by simp
qed

lemma int_chars_unsigned:
  assumes "distinct ds" "2 \<le> base" "base \<le> length ds"
  shows "digits_val ds base (int_chars ds xx base False) = unat xx"
  using digits_val_loop [OF assms] by (simp add: int_chars_def)

lemma int_chars_signed:
  assumes "distinct ds" "2 \<le> base" "base \<le> length ds"
  shows "if sint xx < 0 then hd (int_chars ds xx base True) = 0x2D
      \<and> - int (digits_val ds base (tl (int_chars ds xx base True))) = sint xx
    else int (digits_val ds base (int_chars ds xx base True)) = sint xx"
proof (cases "sint xx < 0")
  case True
  then show ?thesis using unat_neg_sint [OF True] digits_val_loop [OF assms] by (simp add: int_chars_def)
next
  case False
  then have "int (unat xx) = sint xx" by (intro unat_pos_sint) simp
  then show ?thesis using False digits_val_loop [OF assms] by (simp add: int_chars_def)
qed

lemma int_chars_length:
  fixes xx :: u64
  assumes "10 \<le> base"
  shows "length (int_chars ds xx base sg) \<le> 20"
proof (cases "sg \<and> sint xx < 0")
  case True
  have "- sint xx \<le> 2 ^ 63" using sint_greater_eq [of xx] by simp
  then have "int (unat (- xx)) < 10 ^ 19" unfolding unat_neg_sint [OF conjunct2 [OF True]] by simp
  then have "unat (- xx) < 10 ^ 19" by (metis of_nat_less_iff of_nat_numeral of_nat_power)
  also have "(10::nat) ^ 19 \<le> base ^ 19" using assms by (rule power_mono) simp
  finally have "length (digit_loop ds base (unat (- xx))) \<le> 19" using assms by (intro length_digit_loop) simp_all
  then show ?thesis using True by (simp add: int_chars_def)
next
  case False
  have "unat xx < 10 ^ 20" using unat_less_64 [of xx] by simp
  also have "(10::nat) ^ 20 \<le> base ^ 20" using assms by (rule power_mono) simp
  finally have "length (digit_loop ds base (unat xx)) \<le> 20" using assms by (intro length_digit_loop) simp_all
  then show ?thesis using False by (auto simp: int_chars_def)
qed


end
