(* ===== verification/User_Text.thy ===== *)
theory User_Text
  imports Printk Kstring
begin

text \<open>
  The user library \<^verbatim>\<open>user/ulib.c\<close> and the programs \<^verbatim>\<open>user/grep.c\<close> and \<^verbatim>\<open>user/wc.c\<close>.  A C string is the
  list of its characters before the NUL.  The contents of an open file are the bytes that the
  remaining \<^verbatim>\<open>read\<close> calls will deliver.
\<close>

subsection \<open>Strings\<close>

fun u_strcmp :: "u8 list \<Rightarrow> u8 list \<Rightarrow> int" where
  "u_strcmp (p # ps) (q # qs) = (if p = q then u_strcmp ps qs else uint p - uint q)"
| "u_strcmp ps qs = uint (peek_byte ps) - uint (peek_byte qs)"

definition u_strcpy :: "u8 list \<Rightarrow> u8 list" where
  "u_strcpy t = t @ [0]"

text \<open>The rest of the string from the first occurrence on.\<close>

fun u_strchr :: "u8 list \<Rightarrow> u8 \<Rightarrow> u8 list option" where
  "u_strchr [] c = None"
| "u_strchr (x # xs) c = (if x = c then Some (x # xs) else u_strchr xs c)"

definition is_digit :: "u8 \<Rightarrow> bool" where
  "is_digit c \<longleftrightarrow> 0x30 \<le> c \<and> c \<le> 0x39"

fun atoi_loop :: "u32 \<Rightarrow> u8 list \<Rightarrow> u32" where
  "atoi_loop n [] = n"
| "atoi_loop n (c # cs) = (if is_digit c then atoi_loop (n * 10 + ucast c - 0x30) cs else n)"

definition atoi :: "u8 list \<Rightarrow> u32" where
  "atoi s = atoi_loop 0 s"

text \<open>\<^verbatim>\<open>gets\<close> reads one character at a time; the result is the string and what is left of the input.\<close>

fun gets_loop :: "nat \<Rightarrow> u8 list \<Rightarrow> u8 list \<times> u8 list" where
  "gets_loop 0 inp = ([], inp)"
| "gets_loop (Suc k) [] = ([], [])"
| "gets_loop (Suc k) (c # cs) =
     (if c = 0x0A \<or> c = 0x0D then ([c], cs)
      else case gets_loop k cs of (l, rest) \<Rightarrow> (c # l, rest))"

definition u_gets :: "nat \<Rightarrow> u8 list \<Rightarrow> u8 list \<times> u8 list" where
  "u_gets mx inp = gets_loop (mx - 1) inp"

text \<open>\<^verbatim>\<open>memmove\<close> and \<^verbatim>\<open>memcmp\<close> of the user library, on the memory of the process.\<close>

definition u_memmove :: "memory \<Rightarrow> addr \<Rightarrow> addr \<Rightarrow> nat \<Rightarrow> memory" where
  "u_memmove m dst src n =
     (if src > dst then copy_fwd m dst src n else copy_bwd m (dst + of_nat n) (src + of_nat n) n)"

fun u_memcmp :: "memory \<Rightarrow> addr \<Rightarrow> addr \<Rightarrow> nat \<Rightarrow> int" where
  "u_memcmp m p1 p2 0 = 0"
| "u_memcmp m p1 p2 (Suc n) =
     (if m p1 \<noteq> m p2 then uint (m p1) - uint (m p2) else u_memcmp m (p1 + 1) (p2 + 1) n)"

subsection \<open>grep\<close>

function matchhere :: "u8 list \<Rightarrow> u8 list \<Rightarrow> bool"
  and matchstar :: "u8 \<Rightarrow> u8 list \<Rightarrow> u8 list \<Rightarrow> bool" where
  "matchhere re tx =
     (if re = [] then True
      else if peek_byte (tl re) = 0x2A then matchstar (hd re) (tl (tl re)) tx
      else if hd re = 0x24 \<and> tl re = [] then tx = []
      else if tx \<noteq> [] \<and> (hd re = 0x2E \<or> hd re = hd tx) then matchhere (tl re) (tl tx)
      else False)"
| "matchstar c re tx =
     (if matchhere re tx then True
      else if tx \<noteq> [] \<and> (hd tx = c \<or> c = 0x2E) then matchstar c re (tl tx)
      else False)"
  by pat_completeness auto
termination
proof (relation "measure (\<lambda>x. case x of Inl (re, tx) \<Rightarrow> 2 * length re + 2 * length tx
    | Inr (c, re, tx) \<Rightarrow> 2 * length re + 2 * length tx + 1)")
  fix re tx :: "u8 list"
  assume "re \<noteq> []"
  then show "(Inr (hd re, tl (tl re), tx), Inl (re, tx)) \<in>
      measure (\<lambda>x. case x of Inl (re, tx) \<Rightarrow> 2 * length re + 2 * length tx
        | Inr (c, re, tx) \<Rightarrow> 2 * length re + 2 * length tx + 1)"
    by (cases re) auto
next
  fix re tx :: "u8 list"
  assume "tx \<noteq> [] \<and> (hd re = 0x2E \<or> hd re = hd tx)"
  then show "(Inl (tl re, tl tx), Inl (re, tx)) \<in>
      measure (\<lambda>x. case x of Inl (re, tx) \<Rightarrow> 2 * length re + 2 * length tx
        | Inr (c, re, tx) \<Rightarrow> 2 * length re + 2 * length tx + 1)"
    by (cases tx) auto
next
  fix c :: u8 and re tx :: "u8 list"
  assume "tx \<noteq> [] \<and> (hd tx = c \<or> c = 0x2E)"
  then show "(Inr (c, re, tl tx), Inr (c, re, tx)) \<in>
      measure (\<lambda>x. case x of Inl (re, tx) \<Rightarrow> 2 * length re + 2 * length tx
        | Inr (c, re, tx) \<Rightarrow> 2 * length re + 2 * length tx + 1)"
    by (cases tx) auto
qed auto

declare matchhere.simps [simp del] matchstar.simps [simp del]

fun match_from :: "u8 list \<Rightarrow> u8 list \<Rightarrow> bool" where
  "match_from re [] = matchhere re []"
| "match_from re (t # ts) = (if matchhere re (t # ts) then True else match_from re ts)"

definition match :: "u8 list \<Rightarrow> u8 list \<Rightarrow> bool" where
  "match re tx = (if peek_byte re = 0x5E then matchhere (tl re) tx else match_from re tx)"

text \<open>The inner loop of \<^verbatim>\<open>grep\<close>: the lines of the buffer that end in a newline; the result is the
  output and the unfinished rest.\<close>

function grep_lines :: "u8 list \<Rightarrow> u8 list \<Rightarrow> u8 list \<times> u8 list" where
  "grep_lines pat p =
     (case u_strchr p 0x0A of
        None \<Rightarrow> ([], p)
      | Some q \<Rightarrow>
          let l = take (length p - length q) p in
          case grep_lines pat (tl q) of
            (out, rest) \<Rightarrow> ((if match pat l then l @ [0x0A] else []) @ out, rest))"
  by pat_completeness auto

lemma strchr_suffix: "u_strchr xs c = Some q \<Longrightarrow> \<exists>l. xs = l @ q \<and> c \<notin> set l \<and> q \<noteq> [] \<and> hd q = c"
proof (induction xs)
  case (Cons x xs)
  show ?case
  proof (cases "x = c")
    case True
    then show ?thesis using Cons.prems by (auto intro: exI [of _ "[]"])
  next
    case False
    then obtain l where "xs = l @ q" "c \<notin> set l" "q \<noteq> []" "hd q = c" using Cons by auto
    then show ?thesis using False by (auto intro!: exI [of _ "x # l"])
  qed
qed simp

termination grep_lines
proof (relation "measure (\<lambda>(pat, p). length p)")
  fix pat p q :: "u8 list"
  assume "u_strchr p 0x0A = Some q"
  then obtain l where "p = l @ q" "q \<noteq> []" using strchr_suffix by blast
  then show "((pat, tl q), pat, p) \<in> measure (\<lambda>(pat, p). length p)" by (cases q) auto
qed simp

declare grep_lines.simps [simp del]

definition GREP_BUF :: nat where "GREP_BUF = 1024"

text \<open>The outer loop of \<^verbatim>\<open>grep\<close> on a file with the contents \<open>inp\<close>; \<open>buf\<close> are the first \<^verbatim>\<open>m\<close> bytes of the
  buffer.  It ends when \<^verbatim>\<open>read\<close> returns 0.\<close>

function grep_loop :: "u8 list \<Rightarrow> u8 list \<Rightarrow> u8 list \<Rightarrow> u8 list" where
  "grep_loop pat buf inp =
     (let chunk = take (GREP_BUF - length buf - 1) inp in
      if chunk = [] then []
      else
        case grep_lines pat (buf @ chunk) of
          (out, rest) \<Rightarrow> out @ grep_loop pat rest (drop (length chunk) inp))"
  by pat_completeness auto
termination
  by (relation "measure (\<lambda>(pat, buf, inp). length inp)") auto

declare grep_loop.simps [simp del]

definition grep :: "u8 list \<Rightarrow> u8 list \<Rightarrow> u8 list" where
  "grep pat inp = grep_loop pat [] inp"

subsection \<open>wc\<close>

record wc_state =
  wc_l :: int
  wc_w :: int
  wc_c :: int
  wc_inword :: bool

definition wc_space :: "u8 list" where
  "wc_space = [0x20, 0x0D, 0x09, 0x0A, 0x0B]"

definition wc_byte :: "u8 \<Rightarrow> wc_state \<Rightarrow> wc_state" where
  "wc_byte b s =
     (let s = s\<lparr>wc_c := wc_c s + 1\<rparr>;
          s = (if b = 0x0A then s\<lparr>wc_l := wc_l s + 1\<rparr> else s)
      in if u_strchr wc_space b \<noteq> None then s\<lparr>wc_inword := False\<rparr>
         else if \<not> wc_inword s then s\<lparr>wc_w := wc_w s + 1, wc_inword := True\<rparr> else s)"

text \<open>\<open>chunks\<close> are the results of the successive \<^verbatim>\<open>read\<close> calls.\<close>

definition wc :: "u8 list list \<Rightarrow> wc_state" where
  "wc chunks = fold (\<lambda>chunk. fold wc_byte chunk) chunks \<lparr>wc_l = 0, wc_w = 0, wc_c = 0, wc_inword = False\<rparr>"

subsection \<open>Numbers\<close>

lemma digit_loop_digits: "2 \<le> base \<Longrightarrow> set (digit_loop ds base x) \<subseteq> (\<lambda>k. ds ! k) ` {..<base}"
proof (induction x rule: less_induct)
  case (less x)
  then show ?case
    using div_smaller [of x base] by (subst digit_loop.simps) auto
qed

lemma udigit_cases: "k < 10 \<Longrightarrow> is_digit (udigits ! k) \<and> ucast (udigits ! k) = (of_nat (48 + k) :: u32)
    \<and> digit_val udigits (udigits ! k) = k"
  using digit_val_nth [of udigits k] distinct_digits
  by (simp add: is_digit_def udigits_def numeral_eq_Suc less_Suc_eq) (elim disjE; simp)

lemma atoi_loop_digits:
  "set cs \<subseteq> (\<lambda>k. udigits ! k) ` {..<10} \<Longrightarrow>
   atoi_loop (of_nat a) cs = of_nat (foldl (\<lambda>n c. n * 10 + digit_val udigits c) a cs)"
proof (induction cs arbitrary: a)
  case (Cons c cs)
  then obtain k where k: "k < 10" "c = udigits ! k" by auto
  have "of_nat a * 10 + ucast c - 0x30 = (of_nat (a * 10 + k) :: u32)"
    using udigit_cases [OF k(1)] k(2) by simp
  then show ?case using Cons udigit_cases [OF k(1)] k(2) by (simp del: of_nat_add of_nat_mult)
qed simp

text \<open>C27 Reading with \<^verbatim>\<open>atoi\<close> what \<^verbatim>\<open>printf\<close> has printed with \<^verbatim>\<open>%u\<close> gives the number back, modulo \<open>2 ^ 32\<close>.\<close>

theorem atoi_printint: "atoi (uprintint xx 10 False) = ucast xx"
proof -
  have "set (rev (digit_loop udigits 10 (unat xx))) \<subseteq> (\<lambda>k. udigits ! k) ` {..<10}"
    using digit_loop_digits [of 10 udigits "unat xx"] by simp
  from atoi_loop_digits [OF this, of 0]
  have "atoi (uprintint xx 10 False) = of_nat (digits_val udigits 10 (rev (digit_loop udigits 10 (unat xx))))"
    by (simp add: atoi_def uprintint_def int_chars_def digits_val_def)
  also have "\<dots> = (of_nat (unat xx) :: u32)"
    using digits_val_loop [of udigits 10 "unat xx"] distinct_digits by simp
  finally show ?thesis by (simp add: of_nat_unat)
qed

subsection \<open>memmove of the user library\<close>

lemma u_memmove_eq:
  assumes "unat src + n \<le> 2 ^ 64" and "unat dst + n \<le> 2 ^ 64" and "n < 2 ^ 64"
  shows "u_memmove m dst src n = moved m dst src n"
proof (cases "src > dst")
  case True
  have "src + of_nat j \<noteq> dst" if "0 < j" "j < n" for j
  proof
    assume "src + of_nat j = dst"
    moreover have "unat (src + of_nat j) = unat src + j" using that assms(1) by (intro unat_add_small) simp
    ultimately show False using True by (auto simp: word_less_nat_alt)
  qed
  then show ?thesis using True assms(3) by (simp add: u_memmove_def copy_fwd_eq)
next
  case False
  have "dst + of_nat j \<noteq> src" if "0 < j" "j < n" for j
  proof
    assume "dst + of_nat j = src"
    moreover have "unat (dst + of_nat j) = unat dst + j" using that assms(2) by (intro unat_add_small) simp
    ultimately show False using False that by (auto simp: word_less_nat_alt)
  qed
  then show ?thesis using False assms(3) by (simp add: u_memmove_def copy_bwd_eq)
qed



subsection \<open>The regular expressions of grep\<close>

text \<open>The meaning of a pattern: a sequence of characters, each possibly starred, where a full stop
  stands for any character, and a final \<^verbatim>\<open>$\<close> that anchors the match at the end.\<close>

function re_parse :: "u8 list \<Rightarrow> (u8 \<times> bool) list \<times> bool" where
  "re_parse re =
     (if re = [] then ([], False)
      else if peek_byte (tl re) = 0x2A then
        (case re_parse (tl (tl re)) of (as, d) \<Rightarrow> ((hd re, True) # as, d))
      else if hd re = 0x24 \<and> tl re = [] then ([], True)
      else (case re_parse (tl re) of (as, d) \<Rightarrow> ((hd re, False) # as, d)))"
  by pat_completeness auto
termination
proof (relation "measure length")
  fix re :: "u8 list"
  assume "re \<noteq> []"
  then show "(tl (tl re), re) \<in> measure length" "(tl re, re) \<in> measure length" by (cases re; simp)+
qed simp

declare re_parse.simps [simp del]

definition re_char :: "u8 \<Rightarrow> u8 \<Rightarrow> bool" where
  "re_char c x \<longleftrightarrow> c = 0x2E \<or> x = c"

fun re_lang :: "(u8 \<times> bool) list \<Rightarrow> u8 list set" where
  "re_lang [] = {[]}"
| "re_lang ((c, star) # as) =
     (if star then {u @ v | u v. (\<forall>x\<in>set u. re_char c x) \<and> v \<in> re_lang as}
      else {x # v | x v. re_char c x \<and> v \<in> re_lang as})"

definition re_here :: "(u8 \<times> bool) list \<times> bool \<Rightarrow> u8 list \<Rightarrow> bool" where
  "re_here r tx \<longleftrightarrow> (\<exists>b c. tx = b @ c \<and> b \<in> re_lang (fst r) \<and> (snd r \<longrightarrow> c = []))"

lemma re_here_Nil: "re_here ([], d) tx \<longleftrightarrow> (d \<longrightarrow> tx = [])"
  by (auto simp: re_here_def)

lemma re_here_char:
  "re_here ((c, False) # as, d) tx \<longleftrightarrow> tx \<noteq> [] \<and> re_char c (hd tx) \<and> re_here (as, d) (tl tx)"
  by (cases tx) (auto simp: re_here_def Cons_eq_append_conv)

lemma re_here_star:
  "re_here ((c, True) # as, d) tx \<longleftrightarrow>
   (\<exists>u w. tx = u @ w \<and> (\<forall>x\<in>set u. re_char c x) \<and> re_here (as, d) w)" (is "?l \<longleftrightarrow> ?r")
proof
  assume ?l
  then obtain b r where b: "tx = b @ r" "b \<in> re_lang ((c, True) # as)" and r: "d \<longrightarrow> r = []"
    unfolding re_here_def fst_conv snd_conv by blast
  then obtain u v where "b = u @ v" "\<forall>x\<in>set u. re_char c x" "v \<in> re_lang as" by auto
  with b r have *: "tx = u @ v @ r" "\<forall>x\<in>set u. re_char c x" "v \<in> re_lang as" "d \<longrightarrow> r = []" by simp_all
  then have "re_here (as, d) (v @ r)" unfolding re_here_def by auto
  with * show ?r by blast
next
  assume ?r
  then obtain u v r where *: "tx = (u @ v) @ r" "\<forall>x\<in>set u. re_char c x" "v \<in> re_lang as" "d \<longrightarrow> r = []"
    unfolding re_here_def fst_conv snd_conv by auto
  then have "u @ v \<in> re_lang ((c, True) # as)" by auto
  with *(1,4) show ?l unfolding re_here_def fst_conv snd_conv by blast
qed

lemma re_star_unfold:
  "re_here ((c, True) # as, d) tx \<longleftrightarrow>
   re_here (as, d) tx \<or> tx \<noteq> [] \<and> re_char c (hd tx) \<and> re_here ((c, True) # as, d) (tl tx)"
proof -
  have "(\<exists>u w. tx = u @ w \<and> (\<forall>x\<in>set u. re_char c x) \<and> re_here (as, d) w) \<longleftrightarrow>
    re_here (as, d) tx \<or> (\<exists>x u w. tx = x # u @ w \<and> re_char c x \<and> (\<forall>x\<in>set u. re_char c x) \<and> re_here (as, d) w)"
    (is "?l \<longleftrightarrow> ?r")
  proof
    assume ?l
    then obtain u w where "tx = u @ w" "\<forall>x\<in>set u. re_char c x" "re_here (as, d) w" by blast
    then show ?r by (cases u) auto
  next
    assume ?r
    then show ?l
    proof
      assume "re_here (as, d) tx"
      then show ?l by (intro exI [of _ "[]"] exI [of _ tx]) simp
    next
      assume "\<exists>x u w. tx = x # u @ w \<and> re_char c x \<and> (\<forall>x\<in>set u. re_char c x) \<and> re_here (as, d) w"
      then obtain x u w where "tx = (x # u) @ w" "\<forall>y\<in>set (x # u). re_char c y" "re_here (as, d) w" by auto
      then show ?l by blast
    qed
  qed
  then show ?thesis unfolding re_here_star by (cases tx) auto
qed

lemma matchhere_correct:
  "matchhere re tx \<longleftrightarrow> re_here (re_parse re) tx"
  "matchstar c re tx \<longleftrightarrow> re_here ((c, True) # fst (re_parse re), snd (re_parse re)) tx"
proof (induction re tx and c re tx rule: matchhere_matchstar.induct)
  case (1 re tx)
  consider (nil) "re = []" | (star) "re \<noteq> []" "peek_byte (tl re) = 0x2A"
    | (dollar) "re \<noteq> []" "peek_byte (tl re) \<noteq> 0x2A" "hd re = 0x24 \<and> tl re = []"
    | (char) "re \<noteq> []" "peek_byte (tl re) \<noteq> 0x2A" "\<not> (hd re = 0x24 \<and> tl re = [])"
    by blast
  then show ?case
  proof cases
    case nil
    then show ?thesis unfolding matchhere.simps [of re tx] re_parse.simps [of re] by (simp add: re_here_Nil)
  next
    case star
    then show ?thesis unfolding matchhere.simps [of re tx] re_parse.simps [of re]
      using "1.IH"(1) by (simp split: prod.splits)
  next
    case dollar
    then show ?thesis unfolding matchhere.simps [of re tx] re_parse.simps [of re] by (simp add: re_here_Nil)
  next
    case char
    then show ?thesis unfolding matchhere.simps [of re tx] re_parse.simps [of re]
      using "1.IH"(2) by (auto simp: re_here_char re_char_def split: prod.splits)
  qed
next
  case (2 c re tx)
  show ?case
    unfolding matchstar.simps [of c re tx] re_star_unfold [of c _ _ tx]
    using 2 by (auto simp: re_char_def)
qed

lemma match_from_correct: "match_from re tx \<longleftrightarrow> (\<exists>a b. tx = a @ b \<and> re_here (re_parse re) b)"
proof (induction tx)
  case Nil
  then show ?case by (simp add: matchhere_correct)
next
  case (Cons t ts)
  then show ?case by (auto simp: matchhere_correct Cons_eq_append_conv)
qed

text \<open>C24 \<^verbatim>\<open>match\<close> of grep decides the meaning of the pattern: some part of the text is in the language
  of the pattern, the part at the beginning when the pattern starts with \<^verbatim>\<open>^\<close>, and the part at the
  end when it ends in \<^verbatim>\<open>$\<close>.  In particular the mutually recursive matcher always terminates.\<close>

theorem match_correct:
  "match re tx \<longleftrightarrow>
   (let caret = (peek_byte re = 0x5E); (as, dollar) = re_parse (if caret then tl re else re)
    in \<exists>a b c. tx = a @ b @ c \<and> b \<in> re_lang as \<and> (if caret then a = [] else True) \<and> (if dollar then c = [] else True))"
proof -
  have "re_here r tx' \<longleftrightarrow> (\<exists>b c. tx' = b @ c \<and> b \<in> re_lang (fst r) \<and> (c = [] \<or> \<not> snd r))" for r tx'
    by (auto simp: re_here_def)
  then show ?thesis
    by (cases "peek_byte re = 0x5E")
      (auto simp: match_def matchhere_correct match_from_correct Let_def split: prod.splits)
qed

subsection \<open>The lines of grep\<close>

text \<open>The finished lines of a file, without their newlines, and the unfinished rest; \<open>cur\<close> is the
  beginning of the current line.\<close>

fun nl_lines :: "u8 list \<Rightarrow> u8 list \<Rightarrow> u8 list list \<times> u8 list" where
  "nl_lines cur [] = ([], cur)"
| "nl_lines cur (c # cs) =
     (if c = 0x0A then (cur # fst (nl_lines [] cs), snd (nl_lines [] cs)) else nl_lines (cur @ [c]) cs)"

definition grep_out :: "u8 list \<Rightarrow> u8 list list \<Rightarrow> u8 list" where
  "grep_out pat ls = concat (map (\<lambda>l. l @ [0x0A]) (filter (match pat) ls))"

lemma grep_out_simps [simp]:
  "grep_out pat [] = []" "grep_out pat (ls @ ls') = grep_out pat ls @ grep_out pat ls'"
  "grep_out pat (l # ls) = (if match pat l then l @ [0x0A] else []) @ grep_out pat ls"
  by (simp_all add: grep_out_def)

lemma nl_lines_append:
  "nl_lines cur (xs @ ys) =
   (fst (nl_lines cur xs) @ fst (nl_lines (snd (nl_lines cur xs)) ys), snd (nl_lines (snd (nl_lines cur xs)) ys))"
  by (induction cur xs rule: nl_lines.induct) auto

lemma nl_lines_no_nl: "0x0A \<notin> set xs \<Longrightarrow> nl_lines cur xs = ([], cur @ xs)"
  by (induction cur xs rule: nl_lines.induct) auto

lemma nl_lines_line:
  "0x0A \<notin> set l \<Longrightarrow> nl_lines cur (l @ 0x0A # q) = ((cur @ l) # fst (nl_lines [] q), snd (nl_lines [] q))"
  by (simp add: nl_lines_append nl_lines_no_nl)

lemma nl_lines_rest: "0x0A \<notin> set cur \<Longrightarrow> 0x0A \<notin> set (snd (nl_lines cur xs))"
  by (induction cur xs rule: nl_lines.induct) auto

lemma nl_lines_long:
  "length cur \<le> length (snd (nl_lines cur xs)) \<or> (\<exists>l\<in>set (fst (nl_lines cur xs)). length cur \<le> length l)"
  by (induction cur xs rule: nl_lines.induct) (auto simp: Suc_le_eq intro: less_imp_le)

lemma strchr_None: "u_strchr xs c = None \<longleftrightarrow> c \<notin> set xs"
  by (induction xs) auto

lemma grep_lines_eq: "grep_lines pat p = (grep_out pat (fst (nl_lines [] p)), snd (nl_lines [] p))"
proof (induction pat p rule: grep_lines.induct)
  case (1 pat p)
  show ?case
  proof (cases "u_strchr p 0x0A")
    case None
    then have "nl_lines [] p = ([], p)" using nl_lines_no_nl [of p "[]"] by (simp add: strchr_None)
    then show ?thesis unfolding grep_lines.simps [of pat p] None by simp
  next
    case (Some q)
    then obtain l where l: "p = l @ q" "0x0A \<notin> set l" "q \<noteq> []" "hd q = 0x0A" using strchr_suffix by blast
    then have p: "p = l @ 0x0A # tl q" by (cases q) auto
    have "grep_lines pat (tl q) = (grep_out pat (fst (nl_lines [] (tl q))), snd (nl_lines [] (tl q)))"
      using "1.IH" [OF Some refl] .
    then show ?thesis using Some l(1) nl_lines_line [OF l(2), of "[]" "tl q"] p
      unfolding grep_lines.simps [of pat p] by (simp add: Let_def)
  qed
qed

lemma grep_loop_eq:
  "0x0A \<notin> set buf \<Longrightarrow> (\<forall>l\<in>set (fst (nl_lines buf inp)). length l < GREP_BUF - 1) \<Longrightarrow>
   length (snd (nl_lines buf inp)) < GREP_BUF - 1 \<Longrightarrow> grep_loop pat buf inp = grep_out pat (fst (nl_lines buf inp))"
proof (induction pat buf inp rule: grep_loop.induct)
  case (1 pat buf inp)
  let ?k = "GREP_BUF - length buf - 1"
  let ?ch = "take ?k inp"
  show ?case
  proof (cases "?ch = []")
    case True
    have "length buf < GREP_BUF - 1" using nl_lines_long [of buf inp] 1(3,4) by auto
    then have "inp = []" using True by auto
    then show ?thesis unfolding grep_loop.simps [of pat buf inp] by simp
  next
    case False
    let ?r = "snd (nl_lines buf ?ch)"
    have inp: "nl_lines buf inp = (fst (nl_lines buf ?ch) @ fst (nl_lines ?r (drop ?k inp)), snd (nl_lines ?r (drop ?k inp)))"
      using nl_lines_append [of buf ?ch "drop ?k inp"] by simp
    have g: "grep_lines pat (buf @ ?ch) = (grep_out pat (fst (nl_lines buf ?ch)), ?r)"
      using nl_lines_append [of "[]" buf ?ch] nl_lines_no_nl [OF 1(2)] by (simp add: grep_lines_eq)
    have d: "drop (length ?ch) inp = drop ?k inp" by (cases "?k \<le> length inp") auto
    have "grep_loop pat ?r (drop ?k inp) = grep_out pat (fst (nl_lines ?r (drop ?k inp)))"
      using 1(1) [OF refl False g [symmetric]] nl_lines_rest [OF 1(2)] 1(3,4) inp unfolding d by auto
    then show ?thesis unfolding grep_loop.simps [of pat buf inp] using False g d inp by (simp add: Let_def)
  qed
qed



text \<open>C38 When a line does not fit into the buffer, \<^verbatim>\<open>grep\<close> stops there: \<^verbatim>\<open>read\<close> is called for 0 bytes,
  returns 0, and everything from that line on is ignored.\<close>

theorem grep_stops_at_long_line:
  assumes "GREP_BUF - 1 \<le> length inp" and "0x0A \<notin> set (take (GREP_BUF - 1) inp)"
  shows "grep pat inp = []"
proof -
  let ?b = "take (GREP_BUF - 1) inp"
  have len: "length ?b = GREP_BUF - 1" "?b \<noteq> []" using assms(1) by (auto simp: GREP_BUF_def)
  have "grep_lines pat ?b = ([], ?b)" using nl_lines_no_nl [OF assms(2)] by (simp add: grep_lines_eq)
  moreover have "grep_loop pat ?b rest = []" for rest
    unfolding grep_loop.simps [of pat ?b rest] using len by simp
  ultimately show ?thesis unfolding grep_def grep_loop.simps [of pat "[]" inp] using len by (simp add: Let_def)
qed

theorem grep_stops_at_long_line_witness:
  "grep [0x61] (replicate 1023 0x78 @ [0x0A, 0x61, 0x0A]) = []"
  using grep_stops_at_long_line [of "replicate 1023 0x78 @ [0x0A, 0x61, 0x0A]" "[0x61]"]
  by (simp add: GREP_BUF_def)

subsection \<open>Counting words\<close>

definition spc :: "u8 \<Rightarrow> bool" where
  "spc b \<longleftrightarrow> b \<in> set wc_space"

text \<open>The positions at which a word begins.\<close>

definition word_starts :: "u8 list \<Rightarrow> nat set" where
  "word_starts cs = {i. i < length cs \<and> \<not> spc (cs ! i) \<and> (i = 0 \<or> spc (cs ! (i - 1)))}"

lemma word_starts_snoc:
  "word_starts (cs @ [b]) = word_starts cs \<union> (if \<not> spc b \<and> (cs = [] \<or> spc (last cs)) then {length cs} else {})"
  by (cases "cs = []") (auto simp: word_starts_def nth_append last_conv_nth less_Suc_eq split: if_splits)

lemma card_word_starts_snoc:
  "card (word_starts (cs @ [b])) = card (word_starts cs) + (if \<not> spc b \<and> (cs = [] \<or> spc (last cs)) then 1 else 0)"
proof -
  have "finite (word_starts cs)" "length cs \<notin> word_starts cs" by (auto simp: word_starts_def)
  then show ?thesis by (simp add: word_starts_snoc)
qed

lemma wc_fold:
  "fold wc_byte cs \<lparr>wc_l = 0, wc_w = 0, wc_c = 0, wc_inword = False\<rparr> =
   \<lparr>wc_l = int (count_list cs 0x0A), wc_w = int (card (word_starts cs)), wc_c = int (length cs),
    wc_inword = (cs \<noteq> [] \<and> \<not> spc (last cs))\<rparr>"
proof (induction cs rule: rev_induct)
  case Nil
  then show ?case by (simp add: word_starts_def)
next
  case (snoc b cs)
  then show ?case
    by (auto simp: wc_byte_def Let_def strchr_None spc_def [symmetric] card_word_starts_snoc)
qed


end
