(* ===== verification/User_Programs.thy ===== *)
theory User_Programs
  imports User_Text
begin

text \<open>
  The user-level threads of \<^verbatim>\<open>user/threads.c\<close> and \<^verbatim>\<open>user/thread_switch.S\<close>, the prime sieve
  \<^verbatim>\<open>user/primes.c\<close> and the file search \<^verbatim>\<open>user/find.c\<close>.
\<close>

subsection \<open>Threads\<close>

datatype estado_thread = LIBRE | LISTA_PARA_CORRER | CORRIENDO

text \<open>The registers that \<^verbatim>\<open>switch_context\<close> saves: \<^verbatim>\<open>s0\<close> to \<^verbatim>\<open>s11\<close>, \<^verbatim>\<open>ra\<close> and \<^verbatim>\<open>sp\<close>.\<close>

record uregs =
  r_s :: "u64 list"
  r_ra :: u64
  r_sp :: u64

record hebra =
  estado :: estado_thread
  regs :: uregs

definition MAX_THREADS :: nat where "MAX_THREADS = 4"

text \<open>The pool, its address in memory, and the registers of the processor.\<close>

record hebras =
  pool :: "hebra list"
  pool_addr :: u64
  cpu_regs :: uregs
  mensajes :: nat

text \<open>The layout of \<^verbatim>\<open>struct Thread\<close>: a 4-byte state, the stack, padding to 8 bytes, 14 registers.\<close>

definition THREAD_SIZE :: u64 where "THREAD_SIZE = 4216"
definition STACK_OFF :: u64 where "STACK_OFF = 4"

fun pool_find :: "estado_thread \<Rightarrow> hebra list \<Rightarrow> nat \<Rightarrow> nat option" where
  "pool_find e [] i = None"
| "pool_find e (h # hs) i = (if estado h = e then Some i else pool_find e hs (Suc i))"

definition thread_create :: "u64 \<Rightarrow> hebras \<Rightarrow> hebras" where
  "thread_create funcion st =
     (case pool_find LIBRE (pool st) 0 of
        None \<Rightarrow> st\<lparr>mensajes := mensajes st + 1\<rparr>
      | Some i \<Rightarrow>
          let sp = pool_addr st + of_nat i * THREAD_SIZE + STACK_OFF + 4096;
              h = pool st ! i
          in st\<lparr>pool := (pool st)[i := h\<lparr>estado := LISTA_PARA_CORRER, regs := (regs h)\<lparr>r_ra := funcion, r_sp := sp\<rparr>\<rparr>]\<rparr>)"

definition thread_init :: "hebras \<Rightarrow> hebras" where
  "thread_init st = st\<lparr>pool := (pool st)[0 := (pool st ! 0)\<lparr>estado := CORRIENDO\<rparr>]\<rparr>"

text \<open>\<^verbatim>\<open>switch_context\<close> stores the registers through its first argument and loads them through its
  second; the final \<^verbatim>\<open>ret\<close> continues at the loaded \<^verbatim>\<open>ra\<close>.\<close>

definition switch_context :: "nat \<Rightarrow> nat \<Rightarrow> hebras \<Rightarrow> hebras" where
  "switch_context x i st =
     (let p = (pool st)[x := (pool st ! x)\<lparr>regs := cpu_regs st\<rparr>]
      in st\<lparr>pool := p, cpu_regs := regs (p ! i)\<rparr>)"

text \<open>The inner search only fails when no thread runs, and then the outer loop finds nothing to do
  either.\<close>

definition thread_schedule :: "hebras \<Rightarrow> hebras" where
  "thread_schedule st =
     (case pool_find LISTA_PARA_CORRER (pool st) 0 of
        None \<Rightarrow> st
      | Some i \<Rightarrow>
          (case pool_find CORRIENDO (pool st) 0 of
             None \<Rightarrow> st
           | Some x \<Rightarrow>
               let p = (pool st)[i := (pool st ! i)\<lparr>estado := CORRIENDO\<rparr>];
                   p2 = p[x := (p ! x)\<lparr>estado := LISTA_PARA_CORRER\<rparr>]
               in switch_context x i (st\<lparr>pool := p2\<rparr>)))"

subsection \<open>Primes\<close>

text \<open>What a process of the pipeline prints, and its descendants after it, when its input pipe
  delivers the numbers \<open>xs\<close>: the first number, and then what its child prints for the numbers that
  it passes on.\<close>

function hijos_recursivos :: "int list \<Rightarrow> int list" where
  "hijos_recursivos [] = []"
| "hijos_recursivos (primo # xs) = primo # hijos_recursivos (filter (\<lambda>n. n mod primo \<noteq> 0) xs)"
  by pat_completeness auto
termination
  by (relation "measure length") (auto simp: less_Suc_eq_le)

definition primes_main :: "int list" where
  "primes_main = hijos_recursivos [2..35]"

subsection \<open>Find\<close>

text \<open>\<^verbatim>\<open>concatenar_cadenas\<close>: the two loops, on strings.\<close>

fun copiar :: "u8 list \<Rightarrow> nat \<Rightarrow> u8 list" where
  "copiar src 0 = []"
| "copiar [] (Suc k) = []"
| "copiar (c # cs) (Suc k) = c # copiar cs k"

definition concatenar_cadenas :: "u8 list \<Rightarrow> u8 list \<Rightarrow> nat \<Rightarrow> u8 list" where
  "concatenar_cadenas dest src dest_size =
     (let d = copiar dest (dest_size - 1) in d @ copiar src (dest_size - 1 - length d))"

text \<open>The path that is built for a directory entry; \<open>len_ruta\<close> is the length of the path at the call
  and \<open>ruta\<close> the path after the special case for paths of two characters.\<close>

definition ruta_nueva :: "nat \<Rightarrow> u8 list \<Rightarrow> nat \<Rightarrow> u8 list \<Rightarrow> u8 list" where
  "ruta_nueva len_ruta ruta len_nombre nombre =
     (let sz = len_ruta + len_nombre + 2 in
      concatenar_cadenas (concatenar_cadenas (concatenar_cadenas [] ruta sz) [0x2F] sz) nombre sz)"

definition ruta_punto :: "u8 list \<Rightarrow> u8 list" where
  "ruta_punto ruta = (if length ruta = 2 then [0x2E] else ruta)"

text \<open>The search prints a list of paths.  The file system is a parameter: \<open>leer\<close> gives the entries of a
  directory and \<open>tipo\<close> the type that \<^verbatim>\<open>stat\<close> reports; \<open>prof\<close> bounds the depth.\<close>

fun buscar_archivo :: "nat \<Rightarrow> (u8 list \<Rightarrow> (u16 \<times> u8 list) list) \<Rightarrow> (u8 list \<Rightarrow> u16 option) \<Rightarrow>
    u8 list \<Rightarrow> u8 list \<Rightarrow> u8 list list option" where
  "buscar_archivo 0 leer tipo ruta nombre = None"
| "buscar_archivo (Suc prof) leer tipo ruta nombre =
     fold (\<lambda>(inum, nm) acc.
       case acc of
         None \<Rightarrow> None
       | Some out \<Rightarrow>
           let dest = ruta_nueva (length ruta) (ruta_punto ruta) (length nombre) nm in
           if inum = 0 \<or> u_strcmp nm [0x2E] = 0 \<or> u_strcmp nm [0x2E, 0x2E] = 0 then Some out
           else
             let out2 = (if u_strcmp nm nombre = 0 then out @ [dest] else out) in
             if tipo dest = Some 1 then
               (case buscar_archivo prof leer tipo dest nombre of None \<Rightarrow> None | Some sub \<Rightarrow> Some (out2 @ sub))
             else Some out2) (leer ruta) (Some [])"

subsection \<open>Thread properties\<close>

lemma pool_find_Some:
  "pool_find e hs k = Some i \<Longrightarrow> k \<le> i \<and> i < k + length hs \<and> estado (hs ! (i - k)) = e
     \<and> (\<forall>j<i - k. estado (hs ! j) \<noteq> e)"
proof (induction hs arbitrary: k)
  case (Cons h hs)
  show ?case
  proof (cases "estado h = e")
    case False
    then have "pool_find e hs (Suc k) = Some i" using Cons.prems by simp
    from Cons.IH [OF this] False show ?thesis
      by (auto simp: Suc_diff_le nth_Cons' Suc_le_eq less_Suc_eq_0_disj simp flip: Suc_diff_Suc)
  qed (use Cons.prems in auto)
qed simp

text \<open>Two switches, there and back, restore the registers and the saved contexts of the second thread.\<close>


definition regs0 :: uregs where "regs0 = \<lparr>r_s = replicate 12 0, r_ra = 0, r_sp = 0\<rparr>"

definition hebras_demo :: hebras where
  "hebras_demo = \<lparr>pool = [\<lparr>estado = CORRIENDO, regs = regs0\<rparr>, \<lparr>estado = LISTA_PARA_CORRER, regs = regs0\<lparr>r_ra := 0x100\<rparr>\<rparr>,
     \<lparr>estado = LISTA_PARA_CORRER, regs = regs0\<lparr>r_ra := 0x200\<rparr>\<rparr>, \<lparr>estado = LIBRE, regs = regs0\<rparr>],
     pool_addr = 0x1000, cpu_regs = regs0\<lparr>r_sp := 0x3000\<rparr>, mensajes = 0\<rparr>"


text \<open>The threads take turns between the two lowest indices.\<close>

definition alternan :: "hebras \<Rightarrow> bool" where
  "alternan st \<longleftrightarrow> 2 < length (pool st) \<and>
     (estado (pool st ! 0) = CORRIENDO \<and> estado (pool st ! 1) = LISTA_PARA_CORRER \<or>
      estado (pool st ! 0) = LISTA_PARA_CORRER \<and> estado (pool st ! 1) = CORRIENDO)"

lemma alternan_step:
  assumes "alternan st"
  shows "alternan (thread_schedule st) \<and> length (pool (thread_schedule st)) = length (pool st)
    \<and> (\<forall>j. 2 \<le> j \<longrightarrow> j < length (pool st) \<longrightarrow> pool (thread_schedule st) ! j = pool st ! j)"
proof -
  obtain h0 h1 hs where p: "pool st = h0 # h1 # hs"
    using assms by (cases "pool st"; cases "tl (pool st)") (auto simp: alternan_def)
  have e: "estado h0 = CORRIENDO \<and> estado h1 = LISTA_PARA_CORRER \<or> estado h0 = LISTA_PARA_CORRER \<and> estado h1 = CORRIENDO"
    and l: "2 < length (pool st)" using assms p by (auto simp: alternan_def)
  from e show ?thesis
  proof
    assume "estado h0 = CORRIENDO \<and> estado h1 = LISTA_PARA_CORRER"
    then show ?thesis using p l by (auto simp: thread_schedule_def switch_context_def Let_def alternan_def nth_Cons')
  next
    assume "estado h0 = LISTA_PARA_CORRER \<and> estado h1 = CORRIENDO"
    then show ?thesis using p l by (auto simp: thread_schedule_def switch_context_def Let_def alternan_def nth_Cons')
  qed
qed

text \<open>C34 The scheduler of the thread library always takes the first ready thread.  While the threads 0
  and 1 keep yielding to each other, no number of calls of \<^verbatim>\<open>thread_schedule\<close> ever runs a third
  thread: its state and its context never change.\<close>

theorem thread_schedule_starves:
  assumes "alternan st" and "2 \<le> j" and "j < length (pool st)"
  shows "pool ((thread_schedule ^^ n) st) ! j = pool st ! j"
proof -
  have "alternan ((thread_schedule ^^ n) st) \<and> length (pool ((thread_schedule ^^ n) st)) = length (pool st)
      \<and> pool ((thread_schedule ^^ n) st) ! j = pool st ! j"
    by (induction n) (use assms alternan_step in auto)
  then show ?thesis by simp
qed

theorem thread_schedule_starves_witness:
  "estado (pool ((thread_schedule ^^ 1000) hebras_demo) ! 2) = LISTA_PARA_CORRER"
  using thread_schedule_starves [where st = hebras_demo and j = 2 and n = 1000] by (simp add: hebras_demo_def alternan_def)

lemma unat_of_nat_mod8: "unat (of_nat k :: u64) mod 8 = k mod 8"
  unfolding unat_of_nat by (rule mod_mod_cancel) simp

text \<open>C35 The stack pointer that \<^verbatim>\<open>thread_create\<close> gives to a new thread is never a multiple of 8 when the
  pool is aligned to 8 bytes, because the stack follows a 4-byte field: it is not the 16-byte
  aligned stack pointer that the calling convention asks for.\<close>

theorem thread_create_misaligned:
  assumes "pool_find LIBRE (pool st) 0 = Some i" and "unat (pool_addr st) mod 8 = 0"
  shows "unat (r_sp (regs (pool (thread_create f st) ! i))) mod 8 = 4"
proof -
  have i: "i < length (pool st)" using pool_find_Some [OF assms(1)] by simp
  have "r_sp (regs (pool (thread_create f st) ! i)) = pool_addr st + of_nat i * 4216 + 4100"
    using assms(1) i by (simp add: thread_create_def Let_def THREAD_SIZE_def STACK_OFF_def)
  also have "\<dots> = of_nat (unat (pool_addr st) + i * 4216 + 4100)"
    by (simp only: of_nat_add of_nat_mult of_nat_numeral of_nat_unat ucast_id)
  finally have "unat (r_sp (regs (pool (thread_create f st) ! i))) mod 8 = (unat (pool_addr st) + i * 4216 + 4100) mod 8"
    by (simp only: unat_of_nat_mod8)
  also have "\<dots> = 4"
  proof -
    obtain q where q: "unat (pool_addr st) = 8 * q" using assms(2) by (auto simp: mod_eq_0_iff_dvd)
    have "8 * q + i * 4216 + 4100 = 4 + 8 * (q + i * 527 + 512)" by simp
    then show ?thesis unfolding q by (simp only: mod_mult_self2) simp
  qed
  finally show ?thesis .
qed

theorem thread_create_misaligned_witness: "unat (r_sp (regs (pool (thread_create 0x500 hebras_demo) ! 3))) mod 8 = 4"
  using thread_create_misaligned [where st = hebras_demo and i = 3 and f = "0x500"] by (simp add: hebras_demo_def)

subsection \<open>Primes\<close>

definition is_prime :: "int \<Rightarrow> bool" where
  "is_prime n \<longleftrightarrow> 2 \<le> n \<and> (\<forall>d. 2 \<le> d \<and> d < n \<longrightarrow> \<not> d dvd n)"

text \<open>What reaches the process that is responsible for the numbers from \<open>k\<close> on.\<close>

definition survivors :: "int \<Rightarrow> int \<Rightarrow> int list" where
  "survivors k n = filter (\<lambda>m. \<forall>d. 2 \<le> d \<and> d < k \<longrightarrow> \<not> d dvd m) [k..n]"

lemma no_divisor_Suc:
  assumes "2 \<le> (k::int)"
  shows "(\<forall>d. 2 \<le> d \<and> d < k + 1 \<longrightarrow> \<not> d dvd m) \<longleftrightarrow> (\<forall>d. 2 \<le> d \<and> d < k \<longrightarrow> \<not> d dvd m) \<and> m mod k \<noteq> 0"
proof -
  have "(\<forall>d. 2 \<le> d \<and> d < k + 1 \<longrightarrow> P d) \<longleftrightarrow> (\<forall>d. 2 \<le> d \<and> d < k \<longrightarrow> P d) \<and> P k" for P :: "int \<Rightarrow> bool"
    using assms by (metis zless_add1_eq)
  then show ?thesis by (simp add: mod_eq_0_iff_dvd)
qed

lemma survivors_prime:
  assumes "is_prime k" "k \<le> n"
  obtains xs where "survivors k n = k # xs" "filter (\<lambda>m. m mod k \<noteq> 0) xs = survivors (k + 1) n"
proof
  let ?xs = "filter (\<lambda>m. \<forall>d. 2 \<le> d \<and> d < k \<longrightarrow> \<not> d dvd m) [k + 1..n]"
  show "survivors k n = k # ?xs" using assms by (simp add: survivors_def upto_rec1 [OF assms(2)] is_prime_def)
  have "2 \<le> k" using assms(1) by (simp add: is_prime_def)
  then show "filter (\<lambda>m. m mod k \<noteq> 0) ?xs = survivors (k + 1) n"
    unfolding survivors_def filter_filter no_divisor_Suc [OF \<open>2 \<le> k\<close>] by (simp add: conj_commute)
qed

lemma survivors_composite:
  assumes "\<not> is_prime k" "2 \<le> k" "k \<le> n"
  shows "survivors k n = survivors (k + 1) n"
proof -
  obtain e where e: "2 \<le> e" "e < k" "e dvd k" using assms(1,2) by (auto simp: is_prime_def)
  have nd: "m mod k \<noteq> 0" if "\<forall>d. 2 \<le> d \<and> d < k \<longrightarrow> \<not> d dvd m" for m
    using e that dvd_trans [of e k m] by (auto simp: mod_eq_0_iff_dvd)
  have "filter (\<lambda>m. \<forall>d. 2 \<le> d \<and> d < k + 1 \<longrightarrow> \<not> d dvd m) xs = filter (\<lambda>m. \<forall>d. 2 \<le> d \<and> d < k \<longrightarrow> \<not> d dvd m) xs" for xs
  proof (rule filter_cong [OF refl])
    fix m
    show "(\<forall>d. 2 \<le> d \<and> d < k + 1 \<longrightarrow> \<not> d dvd m) = (\<forall>d. 2 \<le> d \<and> d < k \<longrightarrow> \<not> d dvd m)"
      unfolding no_divisor_Suc [OF assms(2)] by (rule iffI) (erule conjunct1, rule conjI, assumption, erule nd)
  qed
  moreover have "\<not> (\<forall>d. 2 \<le> d \<and> d < k \<longrightarrow> \<not> d dvd k)" using e by blast
  ultimately show ?thesis unfolding survivors_def upto_rec1 [OF assms(3)] by (simp only: filter.simps if_False)
qed

lemma sieve_correct: "2 \<le> k \<Longrightarrow> hijos_recursivos (survivors k n) = filter is_prime [k..n]"
proof (induction "nat (n + 1 - k)" arbitrary: k)
  case 0
  then show ?case by (simp add: survivors_def)
next
  case (Suc x)
  then have k: "k \<le> n" "x = nat (n + 1 - (k + 1))" by simp_all
  then have IH: "hijos_recursivos (survivors (k + 1) n) = filter is_prime [k + 1..n]" using Suc by simp
  show ?case
  proof (cases "is_prime k")
    case True
    obtain xs where "survivors k n = k # xs" "filter (\<lambda>m. m mod k \<noteq> 0) xs = survivors (k + 1) n"
      by (rule survivors_prime [OF True k(1)])
    then show ?thesis using IH True by (simp add: upto_rec1 [OF k(1)])
  next
    case False
    then show ?thesis using survivors_composite [OF False Suc.prems k(1)] IH False by (simp add: upto_rec1 [OF k(1)])
  qed
qed


subsection \<open>Find\<close>

lemma copiar_eq: "copiar src k = take k src"
  by (induction src k rule: copiar.induct) auto

lemma concatenar_eq: "concatenar_cadenas dest src sz = take (sz - 1) (dest @ src)"
  by (simp add: concatenar_cadenas_def copiar_eq Let_def min_def)

lemma ruta_nueva_eq: "ruta_nueva (length ruta) ruta k nm = ruta @ [0x2F] @ take k nm"
proof -
  let ?sz = "length ruta + k + 2"
  have 1: "concatenar_cadenas [] ruta ?sz = ruta" by (simp add: concatenar_eq)
  have 2: "concatenar_cadenas ruta [0x2F] ?sz = ruta @ [0x2F]" by (simp add: concatenar_eq)
  have 3: "concatenar_cadenas (ruta @ [0x2F]) nm ?sz = (ruta @ [0x2F]) @ take k nm" unfolding concatenar_eq by simp
  show ?thesis unfolding ruta_nueva_def Let_def 1 2 3 by simp
qed

text \<open>C36 The buffer in which \<^verbatim>\<open>find\<close> builds the path of a directory entry has the size for the searched
  name.  The path is complete exactly when the entry's name is not longer than the searched name,
  and cut off otherwise, so that a subdirectory with a longer name is not searched.\<close>

theorem find_truncates_path:
  "(ruta_nueva (length ruta) ruta (length nombre) nm = ruta @ [0x2F] @ nm) = (length nm \<le> length nombre)
   \<and> ruta_nueva (length ruta) ruta (length nombre) nm = ruta @ [0x2F] @ take (length nombre) nm"
  unfolding ruta_nueva_eq by (simp only: append_same_eq same_append_eq take_all_iff)



end
