(* ===== verification/User_Malloc.thy ===== *)
theory User_Malloc
  imports Riscv
begin

text \<open>
  The user memory allocator \<^verbatim>\<open>user/umalloc.c\<close>: first fit on a circular list of free blocks in the order of
  their addresses.

  \<open>hdr\<close> is the memory seen as headers, \<open>brk\<close> the size of the process, and \<open>grants\<close> says for the next requests
  whether the kernel finds memory for them.  The address of the variable \<^verbatim>\<open>base\<close> is a parameter.  A loop that does
  not end returns \<open>None\<close>.
\<close>

record header =
  h_ptr :: u64
  h_size :: u32

record uheap =
  hdr :: "u64 \<Rightarrow> header"
  freep :: u64
  brk :: u64
  grants :: "bool list"

definition SBRK_ERROR :: u64 where "SBRK_ERROR = - 1"

text \<open>The address \<open>n\<close> headers after \<open>p\<close>.\<close>

definition hplus :: "u64 \<Rightarrow> u32 \<Rightarrow> u64" where
  "hplus p n = p + 16 * ucast n"

definition set_ptr :: "u64 \<Rightarrow> u64 \<Rightarrow> (u64 \<Rightarrow> header) \<Rightarrow> u64 \<Rightarrow> header" where
  "set_ptr p v h = h(p := (h p)\<lparr>h_ptr := v\<rparr>)"

definition set_size :: "u64 \<Rightarrow> u32 \<Rightarrow> (u64 \<Rightarrow> header) \<Rightarrow> u64 \<Rightarrow> header" where
  "set_size p n h = h(p := (h p)\<lparr>h_size := n\<rparr>)"

text \<open>\<^verbatim>\<open>sbrk\<close>, with what \<^verbatim>\<open>growproc\<close> does to the size of the process.\<close>

definition sbrk :: "u32 \<Rightarrow> uheap \<Rightarrow> u64 \<times> uheap" where
  "sbrk n s =
     (if sint n > 0 then
        if brk s + scast n > TRAPFRAME then (SBRK_ERROR, s)
        else
          case grants s of
            [] \<Rightarrow> (SBRK_ERROR, s)
          | g # gs \<Rightarrow>
              if g then (brk s, s\<lparr>brk := brk s + scast n, grants := gs\<rparr>)
              else (SBRK_ERROR, s\<lparr>grants := gs\<rparr>)
      else if brk s + scast n \<ge> brk s then (brk s, s)
      else (brk s, s\<lparr>brk := brk s + scast n\<rparr>))"

partial_function (option) free_scan :: "u64 \<Rightarrow> u64 \<Rightarrow> (u64 \<Rightarrow> header) \<Rightarrow> u64 option" where
  "free_scan bp p h =
     (let q = h_ptr (h p) in
      if bp > p \<and> bp < q then Some p
      else if p \<ge> q \<and> (bp > p \<or> bp < q) then Some p
      else free_scan bp q h)"

text \<open>The part of \<^verbatim>\<open>free\<close> after the search: join with the upper neighbour, then with the lower one.\<close>

definition free_upper :: "u64 \<Rightarrow> u64 \<Rightarrow> (u64 \<Rightarrow> header) \<Rightarrow> u64 \<Rightarrow> header" where
  "free_upper bp p h =
     (if hplus bp (h_size (h bp)) = h_ptr (h p) then
        let h' = set_size bp (h_size (h bp) + h_size (h (h_ptr (h p)))) h
        in set_ptr bp (h_ptr (h' (h_ptr (h' p)))) h'
      else set_ptr bp (h_ptr (h p)) h)"

definition free_lower :: "u64 \<Rightarrow> u64 \<Rightarrow> (u64 \<Rightarrow> header) \<Rightarrow> u64 \<Rightarrow> header" where
  "free_lower bp p h =
     (if hplus p (h_size (h p)) = bp then
        let h' = set_size p (h_size (h p) + h_size (h bp)) h
        in set_ptr p (h_ptr (h' bp)) h'
      else set_ptr p bp h)"

definition free :: "u64 \<Rightarrow> uheap \<Rightarrow> uheap option" where
  "free ap s =
     (let bp = ap - 16 in
      case free_scan bp (freep s) (hdr s) of
        None \<Rightarrow> None
      | Some p \<Rightarrow> Some (s\<lparr>hdr := free_lower bp p (free_upper bp p (hdr s)), freep := p\<rparr>))"

definition morecore :: "u32 \<Rightarrow> uheap \<Rightarrow> (u64 \<times> uheap) option" where
  "morecore nu s =
     (let nu = (if nu < 4096 then 4096 else nu);
          (p, s) = sbrk (ucast (ucast nu * 16 :: u64)) s
      in if p = SBRK_ERROR then Some (0, s)
         else
           case free (p + 16) (s\<lparr>hdr := set_size p nu (hdr s)\<rparr>) of
             None \<Rightarrow> None
           | Some s \<Rightarrow> Some (freep s, s))"

text \<open>Taking a block that fits: the whole of it, or its tail.\<close>

definition malloc_take :: "u32 \<Rightarrow> u64 \<Rightarrow> u64 \<Rightarrow> uheap \<Rightarrow> u64 \<times> uheap" where
  "malloc_take nunits prevp p s =
     (if h_size (hdr s p) = nunits then
        (p + 16, s\<lparr>hdr := set_ptr prevp (h_ptr (hdr s p)) (hdr s), freep := prevp\<rparr>)
      else
        let h = set_size p (h_size (hdr s p) - nunits) (hdr s);
            p' = hplus p (h_size (h p))
        in (p' + 16, s\<lparr>hdr := set_size p' nunits h, freep := prevp\<rparr>))"

partial_function (option) malloc_loop :: "u32 \<Rightarrow> u64 \<Rightarrow> u64 \<Rightarrow> uheap \<Rightarrow> (u64 \<times> uheap) option" where
  "malloc_loop nunits prevp p s =
     (if h_size (hdr s p) \<ge> nunits then Some (malloc_take nunits prevp p s)
      else if p = freep s then
        case morecore nunits s of
          None \<Rightarrow> None
        | Some (p, s) \<Rightarrow> if p = 0 then Some (0, s) else malloc_loop nunits p (h_ptr (hdr s p)) s
      else malloc_loop nunits p (h_ptr (hdr s p)) s)"

definition malloc :: "u64 \<Rightarrow> u32 \<Rightarrow> uheap \<Rightarrow> (u64 \<times> uheap) option" where
  "malloc base nbytes s =
     (let nunits = ucast ((ucast nbytes + 16 - 1) div 16 + 1 :: u64);
          s = (if freep s = 0 then s\<lparr>hdr := set_size base 0 (set_ptr base base (hdr s)), freep := base\<rparr> else s)
      in malloc_loop nunits (freep s) (h_ptr (hdr s (freep s))) s)"

subsection \<open>Blocks\<close>

text \<open>A block is the address of its header and its size in headers.\<close>

type_synonym block = "u64 \<times> u32"

definition bend :: "block \<Rightarrow> nat" where
  "bend b = unat (fst b) + 16 * unat (snd b)"

fun ordered :: "nat \<Rightarrow> block list \<Rightarrow> nat \<Rightarrow> bool" where
  "ordered lo [] hi \<longleftrightarrow> lo \<le> hi"
| "ordered lo (b # bs) hi \<longleftrightarrow> lo \<le> unat (fst b) \<and> snd b \<noteq> 0 \<and> ordered (bend b) bs hi"

definition apart :: "block \<Rightarrow> block \<Rightarrow> bool" where
  "apart a b \<longleftrightarrow> bend a \<le> unat (fst b) \<or> bend b \<le> unat (fst a)"

fun linked :: "(u64 \<Rightarrow> header) \<Rightarrow> u64 list \<Rightarrow> bool" where
  "linked h (p # q # r) \<longleftrightarrow> h_ptr (h p) = q \<and> linked h (q # r)"
| "linked h _ \<longleftrightarrow> True"

definition live_ok :: "nat \<Rightarrow> block list \<Rightarrow> block list \<Rightarrow> nat \<Rightarrow> bool" where
  "live_ok lo xs live hi \<longleftrightarrow> sorted_wrt apart live
     \<and> (\<forall>b\<in>set live. snd b \<noteq> 0 \<and> lo \<le> unat (fst b) \<and> bend b \<le> hi \<and> (\<forall>x\<in>set xs. apart b x))"

text \<open>The heap: \<open>xs\<close> are the free blocks in the order of their addresses, \<open>live\<close> the allocated ones.\<close>

definition heap_ok :: "u64 \<Rightarrow> nat \<Rightarrow> block list \<Rightarrow> block list \<Rightarrow> uheap \<Rightarrow> bool" where
  "heap_ok base lo xs live s \<longleftrightarrow>
     base \<noteq> 0 \<and> unat base + 16 \<le> lo \<and> unat (brk s) \<le> 2 ^ 36
   \<and> ordered lo xs (unat (brk s)) \<and> live_ok lo xs live (unat (brk s))
   \<and> (\<forall>b\<in>set (xs @ live). h_size (hdr s (fst b)) = snd b)
   \<and> (if freep s = 0 then xs = [] \<and> live = []
      else h_size (hdr s base) = 0 \<and> linked (hdr s) (base # map fst xs @ [base]) \<and> freep s \<in> set (base # map fst xs))"

subsection \<open>Lists of blocks\<close>

fun endof :: "nat \<Rightarrow> block list \<Rightarrow> nat" where
  "endof lo [] = lo"
| "endof lo (b # bs) = endof (bend b) bs"

lemma ordered_append: "ordered lo (ys @ zs) hi \<longleftrightarrow> ordered lo ys (endof lo ys) \<and> ordered (endof lo ys) zs hi"
  by (induction ys arbitrary: lo) auto

lemma ordered_le: "ordered lo xs hi \<Longrightarrow> lo \<le> hi"
  by (induction xs arbitrary: lo) (fastforce simp: bend_def)+

lemma ordered_mono: "ordered lo xs hi \<Longrightarrow> lo' \<le> lo \<Longrightarrow> hi \<le> hi' \<Longrightarrow> ordered lo' xs hi'"
  by (induction xs arbitrary: lo lo') auto

lemma ordered_mem: "ordered lo xs hi \<Longrightarrow> b \<in> set xs \<Longrightarrow> snd b \<noteq> 0 \<and> lo \<le> unat (fst b) \<and> bend b \<le> hi"
proof (induction xs arbitrary: lo)
  case (Cons x xs)
  then have "ordered (bend x) xs hi" "lo \<le> unat (fst x)" "snd x \<noteq> 0" by simp_all
  moreover from this have "bend x \<le> hi" "lo \<le> bend x" using ordered_le by (auto simp: bend_def)
  ultimately show ?case using Cons by (cases "b = x") fastforce+
qed simp

lemma bend_gt: "snd b \<noteq> 0 \<Longrightarrow> unat (fst b) + 16 \<le> bend b"
  using unat_gt_0 [of "snd b"] by (simp add: bend_def)

lemma ordered_distinct: "ordered lo xs hi \<Longrightarrow> distinct (map fst xs)"
proof (induction xs arbitrary: lo)
  case (Cons x xs)
  have o: "ordered (bend x) xs hi" "snd x \<noteq> 0" using Cons.prems by simp_all
  have "fst y \<noteq> fst x" if "y \<in> set xs" for y
    using ordered_mem [OF o(1) that] bend_gt [OF o(2)] by auto
  then show ?case using Cons.IH [OF o(1)] by force
qed simp

text \<open>The place of a block in the list.\<close>

lemma ordered_place:
  assumes "ordered lo xs hi" "\<forall>x\<in>set xs. apart b x" "snd b \<noteq> 0" "lo \<le> unat (fst b)" "bend b \<le> hi"
  shows "\<exists>ys zs. xs = ys @ zs \<and> ordered lo ys (unat (fst b)) \<and> ordered (bend b) zs hi"
  using assms
proof (induction xs arbitrary: lo)
  case (Cons x xs)
  show ?case
  proof (cases "bend b \<le> unat (fst x)")
    case True
    then show ?thesis using Cons.prems by (intro exI [of _ "[]"] exI [of _ "x # xs"]) simp
  next
    case False
    then have "bend x \<le> unat (fst b)" using Cons.prems(2) by (simp add: apart_def)
    then obtain ys zs where "xs = ys @ zs" "ordered (bend x) ys (unat (fst b))" "ordered (bend b) zs hi"
      using Cons.IH [of "bend x"] Cons.prems by auto
    then show ?thesis using Cons.prems(1) by (intro exI [of _ "x # ys"] exI [of _ zs]) simp
  qed
qed (auto intro: exI [of _ "[]"])

lemma ordered_fst_less: "ordered lo xs hi \<Longrightarrow> b \<in> set xs \<Longrightarrow> hi \<le> unat p \<Longrightarrow> fst b < p"
  using ordered_mem [of lo xs hi b] bend_gt [of b] by (auto simp: word_less_nat_alt)

lemma apart_sym: "apart a b \<longleftrightarrow> apart b a"
  by (auto simp: apart_def)

subsection \<open>Rings\<close>

lemma linked_append: "linked h (us @ p # vs) \<longleftrightarrow> linked h (us @ [p]) \<and> linked h (p # vs)"
proof (induction us)
  case (Cons u us)
  then show ?case by (cases us) auto
qed simp

lemma linked_cong: "(\<And>p. p \<in> set (butlast ps) \<Longrightarrow> h_ptr (h' p) = h_ptr (h p)) \<Longrightarrow> linked h' ps = linked h ps"
  by (induction h ps rule: linked.induct) auto

lemma linked_nth: "linked h (ps @ [q]) \<Longrightarrow> i < length ps \<Longrightarrow> h_ptr (h (ps ! i)) = (ps @ [q]) ! Suc i"
proof (induction ps arbitrary: i)
  case (Cons p ps)
  then show ?case by (cases i; cases ps) auto
qed simp

lemma linked_inj:
  assumes "linked h (b # ps @ [b])" "distinct (b # ps)" "x \<in> set (b # ps)" "y \<in> set (b # ps)" "h_ptr (h x) = h_ptr (h y)"
  shows "x = y"
proof -
  let ?as = "b # ps" and ?r = "ps @ [b]"
  have l: "linked h (?as @ [b])" using assms(1) by simp
  have n: "i < length ?as \<Longrightarrow> h_ptr (h (?as ! i)) = ?r ! i" for i using linked_nth [OF l, of i] by simp
  obtain i j where ij: "i < length ?as" "x = ?as ! i" "j < length ?as" "y = ?as ! j"
    using assms(3,4) by (metis in_set_conv_nth)
  then have "?r ! i = ?r ! j" using n assms(5) by metis
  moreover have "distinct ?r" using assms(2) by auto
  ultimately show ?thesis using ij by (metis nth_eq_iff_index_eq length_append_singleton length_Cons)
qed

lemma linked_rotate:
  assumes "linked h (b # ps @ [b])" "b # ps = us @ f # vs"
  shows "linked h (f # (vs @ us) @ [f])"
proof (cases us)
  case Nil
  then show ?thesis using assms by simp
next
  case (Cons u us')
  have "b # ps @ [b] = us @ f # vs @ [b]" using assms(2) by (metis append_Cons append_assoc)
  then have "linked h (us @ [f])" "linked h (f # vs @ [b])" "u = b"
    using assms linked_append [of h us f "vs @ [b]"] Cons by simp_all
  then show ?thesis using Cons \<open>u = b\<close> linked_append [of h "f # vs" b "us' @ [f]"] by simp
qed

subsection \<open>The search of free\<close>

lemma scan_up:
  assumes "linked h (p # vs @ [w])" "sorted_wrt (<) (p # vs)" "\<forall>v\<in>set (p # vs). v < bp" "bp < w \<or> w \<le> last (p # vs)"
  shows "free_scan bp p h = Some (last (p # vs))"
  using assms
proof (induction vs arbitrary: p)
  case Nil
  then show ?case by (subst free_scan.simps) (auto simp: Let_def)
next
  case (Cons v vs)
  then have "h_ptr (h p) = v" "p < v" "v < bp" by simp_all
  then have "free_scan bp p h = free_scan bp v h" by (subst free_scan.simps) (auto simp: Let_def)
  then show ?case using Cons by simp
qed

lemma scan_wrap:
  assumes "linked h (p # vs @ [b])" "sorted_wrt (<) (p # vs)" "bp < p" "b < bp"
  shows "free_scan bp p h = free_scan bp b h"
  using assms
proof (induction vs arbitrary: p)
  case Nil
  then show ?case by (subst free_scan.simps) (auto simp: Let_def)
next
  case (Cons v vs)
  then have v: "h_ptr (h p) = v" "p < v" "bp < v" by auto
  then have "free_scan bp p h = free_scan bp v h" using Cons.prems(3) by (subst free_scan.simps) (auto simp: Let_def)
  then show ?case using Cons.IH [of v] Cons.prems v(3) by simp
qed

text \<open>Whatever node the search starts from, it ends at the last node below the block.\<close>

lemma free_scan_finds:
  assumes l: "linked h (b # us @ vs @ [b])" and u: "sorted_wrt (<) (b # us @ vs)"
    and lt: "\<forall>v\<in>set (b # us). v < bp" and gt: "\<forall>v\<in>set vs. bp < v" and f: "f \<in> set (b # us @ vs)"
  shows "free_scan bp f h = Some (last (b # us))"
proof -
  have up: "free_scan bp g h = Some (last (b # us))" if "b # us = as @ g # cs" for as g cs
  proof (cases vs)
    case Nil
    have "b # us @ vs @ [b] = as @ g # cs @ [b]" using that Nil by (metis append.left_neutral append_Cons append_assoc)
    with l have "linked h (as @ g # cs @ [b])" by metis
    then have "linked h (g # cs @ [b])" using linked_append [of h as g "cs @ [b]"] by blast
    moreover have "sorted_wrt (<) (g # cs)" using u that Nil by (simp add: sorted_wrt_append)
    moreover have "b \<le> last (g # cs)"
    proof -
      have "last (g # cs) = last (b # us)" using that by (metis last_appendR list.distinct(1))
      moreover have "b \<le> last (b # us)" using u by (cases us rule: rev_cases) auto
      ultimately show ?thesis by simp
    qed
    ultimately show ?thesis using scan_up [of h g cs b bp] lt that by (metis Un_iff last_appendR list.distinct(1) set_append)
  next
    case (Cons v vs')
    have "b # us @ vs @ [b] = as @ g # (cs @ v # (vs' @ [b]))" using that Cons by (metis append_Cons append_assoc)
    with l have "linked h (as @ g # (cs @ v # (vs' @ [b])))" by metis
    then have "linked h (g # cs @ [v])"
      using linked_append [of h as g "cs @ v # (vs' @ [b])"] linked_append [of h "g # cs" v "vs' @ [b]"] by simp
    moreover have "sorted_wrt (<) (g # cs)" using u that by (metis sorted_wrt_append append_Cons)
    moreover have "bp < v" using gt Cons by simp
    ultimately show ?thesis using scan_up [of h g cs v bp] lt that by (metis Un_iff last_appendR list.distinct(1) set_append)
  qed
  show ?thesis
  proof (cases "f \<in> set (b # us)")
    case True
    then show ?thesis using up by (metis split_list)
  next
    case False
    then obtain as cs where vs: "vs = as @ f # cs" using f by (metis Un_iff append_Cons set_append split_list)
    then have "b # us @ vs @ [b] = (b # us @ as) @ f # (cs @ [b])" by simp
    then have "linked h (f # cs @ [b])" using l linked_append [of h "b # us @ as" f "cs @ [b]"] by simp
    moreover have "sorted_wrt (<) (f # cs)" using u vs by (simp add: sorted_wrt_append)
    moreover have "bp < f" "b < bp" using gt lt vs by simp_all
    ultimately have "free_scan bp f h = free_scan bp b h" by (rule scan_wrap)
    then show ?thesis using up [of "[]" b us] by simp
  qed
qed

subsection \<open>Free\<close>

lemma header_updates: "v\<lparr>h_size := n, h_ptr := q\<rparr> = \<lparr>h_ptr = q, h_size = n\<rparr>"
    "v\<lparr>h_ptr := q\<rparr> = \<lparr>h_ptr = q, h_size = h_size v\<rparr>" "v\<lparr>h_size := n\<rparr> = \<lparr>h_ptr = h_ptr v, h_size = n\<rparr>" for v :: header
  by (cases v; simp)+

lemmas hset = set_ptr_def set_size_def header_updates

lemma unat_ucast64: "unat (ucast (n :: u32) :: u64) = unat n"
  by transfer (simp add: take_bit_int_eq_self_iff nat_take_bit_eq)

lemma unat_hplus: "unat p + 16 * unat n < 2 ^ 64 \<Longrightarrow> unat (hplus p n) = unat p + 16 * unat n"
proof -
  assume a: "unat p + 16 * unat n < 2 ^ 64"
  have "unat (16 * ucast n :: u64) = 16 * unat n" using a by (simp add: unat_word_ariths unat_ucast64)
  then show ?thesis using a by (simp add: hplus_def unat_word_ariths)
qed

lemma hplus_eq_iff: "bend (p, n) \<le> 2 ^ 36 \<Longrightarrow> hplus p n = q \<longleftrightarrow> bend (p, n) = unat q"
  using unat_hplus [of p n] by (auto simp: bend_def word_unat_eq_iff)

text \<open>The two halves of the list around the block that is being freed.\<close>

definition pieces :: "u64 \<Rightarrow> nat \<Rightarrow> nat \<Rightarrow> (u64 \<Rightarrow> header) \<Rightarrow> block list \<Rightarrow> block \<Rightarrow> block list \<Rightarrow> bool" where
  "pieces base lo hi h ys b zs \<longleftrightarrow> linked h (base # map fst ys) \<and> linked h (fst b # map fst zs @ [base])
     \<and> ordered lo ys (unat (fst b)) \<and> snd b \<noteq> 0 \<and> ordered (bend b) zs hi
     \<and> h_size (h base) = 0 \<and> (\<forall>x\<in>set (ys @ b # zs). h_size (h (fst x)) = snd x)"

definition units :: "block list \<Rightarrow> nat" where
  "units xs = (\<Sum>x\<leftarrow>xs. unat (snd x))"

lemma units_simps [simp]: "units [] = 0" "units (x # xs) = unat (snd x) + units xs" "units (xs @ ys) = units xs + units ys"
  by (simp_all add: units_def)

text \<open>Joining two adjacent blocks.\<close>

lemma bend_join:
  assumes "bend (a, n) = unat c" "bend (c, m) \<le> 2 ^ 36" "16 \<le> unat a"
  shows "bend (a, n + m) = bend (c, m)" "unat (n + m) = unat n + unat m"
proof -
  have "unat n + unat m < 2 ^ 32" using assms by (simp add: bend_def)
  then show u: "unat (n + m) = unat n + unat m" by (simp add: unat_word_ariths)
  show "bend (a, n + m) = bend (c, m)" using assms(1) by (simp add: bend_def u)
qed

lemma apart_join:
  assumes "apart b (a, n)" "apart b (c, m)" "bend (a, n) = unat c" "bend (a, n + m) = bend (c, m)" "snd b \<noteq> 0"
  shows "apart b (a, n + m)"
  using assms bend_gt [of b] by (auto simp: apart_def)

lemma pieces_addr:
  assumes "pieces base lo hi h ys (a, n) zs" "unat base + 16 \<le> lo"
  shows "base \<noteq> a" "a \<notin> set (map fst ys)" "a \<notin> set (map fst zs)" "base \<notin> set (map fst ys)" "base \<notin> set (map fst zs)"
    "set (map fst ys) \<inter> set (map fst zs) = {}" "distinct (map fst ys)" "distinct (map fst zs)" "lo \<le> unat a" "bend (a, n) \<le> hi"
proof -
  have o: "ordered lo ys (unat a)" "n \<noteq> 0" "ordered (bend (a, n)) zs hi" using assms(1) by (simp_all add: pieces_def)
  have y: "lo \<le> unat (fst y) \<and> unat (fst y) < unat a" if "y \<in> set ys" for y
    using ordered_mem [OF o(1) that] bend_gt [of y] by auto
  have z: "unat a < unat (fst z)" if "z \<in> set zs" for z
    using ordered_mem [OF o(3) that] bend_gt [of "(a, n)"] o(2) by auto
  show "lo \<le> unat a" using ordered_le [OF o(1)] .
  then show "base \<noteq> a" "a \<notin> set (map fst ys)" "a \<notin> set (map fst zs)" "base \<notin> set (map fst ys)" "base \<notin> set (map fst zs)"
    using assms(2) y z by fastforce+
  show "set (map fst ys) \<inter> set (map fst zs) = {}" using y z by fastforce
  show "distinct (map fst ys)" "distinct (map fst zs)" using ordered_distinct o by blast+
  show "bend (a, n) \<le> hi" using ordered_le [OF o(3)] .
qed

text \<open>Setting the header of the freed block leaves both halves of the list linked.\<close>

lemma pieces_insert:
  assumes l: "linked h (base # map fst ys)" "linked h (map fst zs @ [base])" and b: "unat base + 16 \<le> lo"
    and o: "ordered lo ys (unat a)" "n \<noteq> 0" "ordered (bend (a, n)) zs hi"
    and sz: "h_size (h base) = 0" "\<forall>x\<in>set (ys @ zs). h_size (h (fst x)) = snd x"
  shows "pieces base lo hi (h(a := \<lparr>h_ptr = hd (map fst zs @ [base]), h_size = n\<rparr>)) ys (a, n) zs"
proof -
  let ?h = "h(a := \<lparr>h_ptr = hd (map fst zs @ [base]), h_size = n\<rparr>)"
  have ys: "a \<notin> fst ` set ys" using ordered_mem [OF o(1)] bend_gt by fastforce
  have zs: "a \<notin> fst ` set zs" using ordered_mem [OF o(3)] bend_gt [of "(a, n)"] o(2) by fastforce
  have ba: "base \<noteq> a" using ordered_le [OF o(1)] b by auto
  have "p \<noteq> a" if "p \<in> set (butlast (base # map fst ys))" for p
  proof -
    have "p \<in> set (base # map fst ys)" using that by (rule in_set_butlastD)
    then show ?thesis using ba ys by auto
  qed
  then have "linked ?h (base # map fst ys)" using l(1) linked_cong [of "base # map fst ys" ?h h] by auto
  moreover have "p \<noteq> a" if "p \<in> set (butlast (map fst zs @ [base]))" for p using that zs by auto
  then have "linked ?h (map fst zs @ [base])" using l(2) linked_cong [of "map fst zs @ [base]" ?h h] by auto
  then have "linked ?h (a # map fst zs @ [base])" by (cases zs) auto
  moreover have "h_size (?h (fst x)) = snd x" if "x \<in> set (ys @ (a, n) # zs)" for x
  proof (cases "x = (a, n)")
    case False
    then have "x \<in> set (ys @ zs)" using that by auto
    moreover from this have "fst x \<noteq> a" using ys zs by auto
    ultimately show ?thesis using sz(2) by simp
  qed simp
  ultimately show ?thesis using o sz(1) ba by (simp add: pieces_def)
qed

lemma linked_around:
  assumes "linked h (base # map fst ys @ map fst zs @ [base])"
  shows "linked h (base # map fst ys)" "linked h (last (base # map fst ys) # map fst zs @ [base])"
proof -
  let ?p = "last (base # map fst ys)"
  obtain us where us: "base # map fst ys = us @ [?p]" by (metis append_butlast_last_id list.distinct(1))
  then have "base # map fst ys @ map fst zs @ [base] = us @ ?p # (map fst zs @ [base])"
    by (metis append_Cons append_assoc append_Nil)
  with assms have "linked h (us @ ?p # (map fst zs @ [base]))" by metis
  then have "linked h (us @ [?p])" "linked h (?p # map fst zs @ [base])" using linked_append [of h us ?p] by blast+
  then show "linked h (base # map fst ys)" "linked h (?p # map fst zs @ [base])" using us by metis+
qed

lemma last_below:
  assumes "ordered lo ys (unat a)" "unat base + 16 \<le> lo" shows "last (base # map fst ys) < a"
proof (cases ys rule: rev_cases)
  case Nil
  then show ?thesis using assms by (simp add: word_less_nat_alt)
next
  case (snoc us y)
  then show ?thesis using ordered_mem [OF assms(1), of y] bend_gt [of y] by (simp add: word_less_nat_alt)
qed

lemma free_upper_pieces:
  assumes lk: "linked h (base # map fst ys @ map fst zs @ [base])" and b: "unat base + 16 \<le> lo" "hi \<le> 2 ^ 36"
    and o: "ordered lo ys (unat a)" "n \<noteq> 0" "ordered (bend (a, n)) zs hi"
    and sz: "h_size (h base) = 0" "\<forall>x\<in>set (ys @ (a, n) # zs). h_size (h (fst x)) = snd x" and p: "p = last (base # map fst ys)"
  shows "\<exists>v n' zs'. free_upper a p h = h(a := v) \<and> pieces base lo hi (h(a := v)) ys (a, n') zs'
    \<and> unat n' + units zs' = unat n + units zs \<and> n \<le> n'
    \<and> (\<forall>b. snd b \<noteq> 0 \<longrightarrow> (\<forall>x\<in>set ((a, n) # zs). apart b x) \<longrightarrow> (\<forall>x\<in>set ((a, n') # zs'). apart b x))"
proof -
  note l = linked_around [OF lk, folded p]
  have be: "bend (a, n) \<le> 2 ^ 36" using ordered_le [OF o(3)] b by simp
  have ab: "unat base + 16 \<le> unat a" using ordered_le [OF o(1)] b by simp
  have sa: "h_size (h a) = n" using sz by simp
  show ?thesis
  proof (cases "\<exists>c m zs'. zs = (c, m) # zs' \<and> bend (a, n) = unat c")
    case False
    let ?v = "\<lparr>h_ptr = hd (map fst zs @ [base]), h_size = n\<rparr>"
    have q: "h_ptr (h p) = hd (map fst zs @ [base])" "linked h (map fst zs @ [base])" using l(2) by (cases zs; simp)+
    have "hplus a n \<noteq> hd (map fst zs @ [base])"
    proof (cases zs)
      case Nil
      then show ?thesis using ab hplus_eq_iff [OF be, of base] by (simp add: bend_def)
    next
      case (Cons z zs')
      then show ?thesis using False hplus_eq_iff [OF be, of "fst z"] by (cases z) simp
    qed
    then have "free_upper a p h = h(a := ?v)" using sa q(1) by (simp add: free_upper_def hset)
    moreover have "pieces base lo hi (h(a := ?v)) ys (a, n) zs" using sz by (intro pieces_insert l q b o) auto
    ultimately show ?thesis by blast
  next
    case True
    then obtain c m zs' where z: "zs = (c, m) # zs'" "bend (a, n) = unat c" by blast
    have oc: "m \<noteq> 0" "ordered (bend (c, m)) zs' hi" using o(3) z by simp_all
    have mc: "bend (c, m) \<le> 2 ^ 36" using ordered_le [OF oc(2)] b by simp
    have j: "bend (a, n + m) = bend (c, m)" "unat (n + m) = unat n + unat m" using bend_join [OF z(2) mc] ab by simp_all
    have n0: "n + m \<noteq> 0" using j(2) o(2) unat_gt_0 [of n] by (metis add_gr_0 unat_0 less_irrefl)
    have ne: "a \<noteq> c" "p \<noteq> a" using z(2) bend_gt [of "(a, n)"] o(2) last_below [OF o(1) b(1)] p by auto
    let ?v = "\<lparr>h_ptr = hd (map fst zs' @ [base]), h_size = n + m\<rparr>"
    have lz: "linked h (map fst zs' @ [base])" "h_ptr (h c) = hd (map fst zs' @ [base])" "h_ptr (h p) = c"
      using l(2) z(1) by (cases zs'; simp)+
    have "hplus a n = c" using hplus_eq_iff [OF be, of c] z(2) by simp
    moreover have "h_size (h c) = m" using sz(2) z(1) by simp
    ultimately have "free_upper a p h = h(a := ?v)" using lz ne by (simp add: free_upper_def sa hset Let_def)
    moreover have "pieces base lo hi (h(a := ?v)) ys (a, n + m) zs'"
      using sz z oc by (intro pieces_insert l lz b o n0) (auto simp: j)
    moreover have "unat (n + m) + units zs' = unat n + units zs" "n \<le> n + m" using j(2) z(1) by (simp_all add: word_le_nat_alt)
    moreover have "\<forall>x\<in>set ((a, n + m) # zs'). apart b x" if "snd b \<noteq> 0" "\<forall>x\<in>set ((a, n) # zs). apart b x" for b
      using that apart_join [of b a n c m] z j(1) by simp
    ultimately show ?thesis by blast
  qed
qed

lemma linked_upd: "p \<notin> set (butlast ps) \<Longrightarrow> linked (h(p := v)) ps = linked h ps"
  by (rule linked_cong) auto

lemma ordered_insert:
  assumes "ordered lo ys (unat (fst b))" "snd b \<noteq> 0" "ordered (bend b) zs hi" shows "ordered lo (ys @ b # zs) hi"
  using assms ordered_append [of lo ys "b # zs" hi] ordered_append [of lo ys "[]" "unat (fst b)"] by simp

text \<open>What \<^verbatim>\<open>free\<close> leaves: the new free list, with \<open>n\<close> units in one of its blocks at least.\<close>

definition freed :: "u64 \<Rightarrow> nat \<Rightarrow> nat \<Rightarrow> block list \<Rightarrow> u32 \<Rightarrow> (u64 \<Rightarrow> header) \<Rightarrow> u64 \<Rightarrow> block list \<Rightarrow> bool" where
  "freed base lo hi xs n h p xs' \<longleftrightarrow> linked h (base # map fst xs' @ [base]) \<and> ordered lo xs' hi
    \<and> p \<in> set (base # map fst xs') \<and> h_size (h base) = 0 \<and> (\<forall>x\<in>set xs'. h_size (h (fst x)) = snd x)
    \<and> units xs' = units xs \<and> (\<exists>x\<in>set xs'. n \<le> snd x)
    \<and> (\<forall>b. snd b \<noteq> 0 \<longrightarrow> (\<forall>x\<in>set xs. apart b x) \<longrightarrow> (\<forall>x\<in>set xs'. apart b x))"

lemma lower_link:
  assumes pc: "pieces base lo hi h ys (a, n) zs" and b: "unat base + 16 \<le> lo" and p: "p = last (base # map fst ys)"
  shows "freed base lo hi (ys @ (a, n) # zs) n (h(p := \<lparr>h_ptr = a, h_size = h_size (h p)\<rparr>)) p (ys @ (a, n) # zs)"
proof -
  note ad = pieces_addr [OF pc b]
  let ?h = "h(p := \<lparr>h_ptr = a, h_size = h_size (h p)\<rparr>)" and ?xs = "ys @ (a, n) # zs"
  have l: "linked h (base # map fst ys)" "linked h (a # map fst zs @ [base])" and o: "ordered lo ys (unat a)"
    using pc by (simp_all add: pieces_def)
  obtain us where us: "base # map fst ys = us @ [p]" by (metis p append_butlast_last_id list.distinct(1))
  have d: "distinct (us @ [p])" using ad(4,7) unfolding us [symmetric] by simp
  have pz: "p \<in> set (base # map fst ys)" unfolding us by simp
  then have pz': "p \<notin> set (map fst zs)" using ad(5,6) by auto
  have "p \<noteq> a" using last_below [OF o b] p by auto
  then have "linked ?h (a # map fst zs @ [base])" using l(2) linked_upd [of p "a # map fst zs @ [base]"] pz' by simp
  moreover have "linked ?h (us @ [p])" using l(1) linked_upd [of p "us @ [p]"] d unfolding us by simp
  ultimately have "linked ?h (us @ p # a # map fst zs @ [base])" 
    using linked_append [of ?h us p "a # map fst zs @ [base]"] by simp
  moreover have "base # map fst ?xs @ [base] = us @ p # a # map fst zs @ [base]"
    using arg_cong [OF us, of "\<lambda>l. l @ a # map fst zs @ [base]"] by simp
  ultimately have "linked ?h (base # map fst ?xs @ [base])" by metis
  moreover have "ordered lo ?xs hi" using pc by (intro ordered_insert) (simp_all add: pieces_def)
  moreover have "h_size (?h x) = h_size (h x)" for x by simp
  moreover have "p \<in> set (base # map fst ?xs)" using pz by auto
  moreover have "h_size (h base) = 0" "\<forall>x\<in>set ?xs. h_size (h (fst x)) = snd x" using pc by (simp_all add: pieces_def)
  moreover have "\<exists>x\<in>set ?xs. n \<le> snd x" by auto
  ultimately show ?thesis unfolding freed_def by simp
qed

lemma lower_join:
  assumes pc: "pieces base lo hi h (ys @ [(p, m)]) (a, n) zs" and b: "unat base + 16 \<le> lo" "hi \<le> 2 ^ 36"
    and j: "bend (p, m) = unat a"
  shows "freed base lo hi (ys @ (p, m) # (a, n) # zs) n (h(p := \<lparr>h_ptr = h_ptr (h a), h_size = m + n\<rparr>)) p (ys @ (p, m + n) # zs)"
proof -
  note ad = pieces_addr [OF pc b(1)]
  let ?h = "h(p := \<lparr>h_ptr = h_ptr (h a), h_size = m + n\<rparr>)" and ?xs = "ys @ (p, m + n) # zs"
  have l: "linked h (base # map fst ys @ [p])" "linked h (a # map fst zs @ [base])" and o: "ordered lo (ys @ [(p, m)]) (unat a)"
    and oz: "n \<noteq> 0" "ordered (bend (a, n)) zs hi" and sz: "h_size (h base) = 0" "\<forall>x\<in>set (ys @ (a, n) # zs). h_size (h (fst x)) = snd x"
    using pc by (simp_all add: pieces_def)
  have oy: "ordered lo ys (unat p)" "m \<noteq> 0" using o ordered_append [of lo ys "[(p, m)]"] ordered_append [of lo ys "[]" "unat p"] by auto
  have be: "bend (a, n) \<le> 2 ^ 36" "16 \<le> unat p" using ad(10) b ordered_le [OF oy(1)] by simp_all
  note jn = bend_join [OF j be]
  have mn: "n \<le> m + n" "m + n \<noteq> 0" using jn(2) oy(2) unat_gt_0 [of m] by (auto simp: word_le_nat_alt)
  have pn: "p \<notin> set (map fst zs)" "p \<notin> set (base # map fst ys)" using ad(4,6,7) by auto
  have "linked h (map fst zs @ [base])" "h_ptr (h a) = hd (map fst zs @ [base])" using l(2) by (cases zs; simp)+
  moreover from this have "linked ?h (map fst zs @ [base])" using linked_upd [of p "map fst zs @ [base]"] pn by simp
  ultimately have "linked ?h (p # map fst zs @ [base])" by (cases zs) simp_all
  moreover have "linked ?h (base # map fst ys @ [p])" using l(1) linked_upd [of p "base # map fst ys @ [p]"] pn by simp
  ultimately have "linked ?h (base # map fst ?xs @ [base])"
    using linked_append [of ?h "base # map fst ys" p "map fst zs @ [base]"] by simp
  moreover have "ordered lo ?xs hi" using oy oz mn jn by (intro ordered_insert) simp_all
  moreover have "h_size (?h (fst x)) = snd x" if "x \<in> set ?xs" for x
  proof (cases "x = (p, m + n)")
    case False
    then have x: "x \<in> set (ys @ zs)" using that by auto
    then have "fst x \<noteq> p" using pn by auto
    then show ?thesis using x sz(2) by auto
  qed simp
  moreover have "\<forall>x\<in>set ?xs. apart c x" if "snd c \<noteq> 0" "\<forall>x\<in>set (ys @ (p, m) # (a, n) # zs). apart c x" for c
    using that apart_join [of c p m a n] j jn(1) by simp
  moreover have "p \<in> set (base # map fst ?xs)" "\<exists>x\<in>set ?xs. n \<le> snd x" using mn(1) by auto
  moreover have "h_size (?h base) = 0" using sz(1) pn(2) by auto
  moreover have "units ?xs = units (ys @ (p, m) # (a, n) # zs)" using jn(2) by simp
  ultimately show ?thesis unfolding freed_def by blast
qed

lemma free_lower_pieces:
  assumes pc: "pieces base lo hi h ys (a, n) zs" and b: "unat base + 16 \<le> lo" "hi \<le> 2 ^ 36"
    and p: "p = last (base # map fst ys)"
  shows "\<exists>v xs'. free_lower a p h = h(p := v) \<and> freed base lo hi (ys @ (a, n) # zs) n (h(p := v)) p xs'"
proof (cases "\<exists>ys' l. ys = ys' @ [(p, l)] \<and> bend (p, l) = unat a")
  case False
  have sz: "h_size (h base) = 0" "\<forall>x\<in>set ys. h_size (h (fst x)) = snd x" and o: "ordered lo ys (unat a)"
    using pc by (simp_all add: pieces_def)
  have be: "unat a \<le> 2 ^ 36" using pieces_addr(10) [OF pc b(1)] b(2) by (simp add: bend_def)
  have "hplus p (h_size (h p)) \<noteq> a"
  proof (cases ys rule: rev_cases)
    case Nil
    then show ?thesis using sz(1) p last_below [OF o b(1)] by (simp add: hplus_def)
  next
    case (snoc ys' y)
    then have "h_size (h p) = snd y" "p = fst y" "bend y \<le> 2 ^ 36" using sz(2) p be ordered_mem [OF o, of y] by auto
    then show ?thesis using False snoc hplus_eq_iff [of p "snd y" a] by (cases y) auto
  qed
  then have "free_lower a p h = h(p := \<lparr>h_ptr = a, h_size = h_size (h p)\<rparr>)" by (simp add: free_lower_def hset)
  then show ?thesis using lower_link [OF pc b(1) p] by blast
next
  case True
  then obtain ys' m where y: "ys = ys' @ [(p, m)]" "bend (p, m) = unat a" by blast
  have "h_size (h p) = m" "h_size (h a) = n" using pc y(1) by (simp_all add: pieces_def)
  moreover have "bend (p, m) \<le> 2 ^ 36" using y(2) pieces_addr(10) [OF pc b(1)] b(2) by (simp add: bend_def)
  moreover have "p \<noteq> a" using y(1) pieces_addr(2) [OF pc b(1)] by auto
  ultimately have "free_lower a p h = h(p := \<lparr>h_ptr = h_ptr (h a), h_size = m + n\<rparr>)"
    using hplus_eq_iff [of p m a] y(2) by (simp add: free_lower_def hset Let_def)
  then show ?thesis using lower_join [of base lo hi h ys' p m a n zs] pc b y by auto
qed

lemma ordered_sorted: "ordered lo xs hi \<Longrightarrow> sorted_wrt (<) (map fst xs)"
proof (induction xs arbitrary: lo)
  case (Cons x xs)
  then have o: "ordered (bend x) xs hi" "snd x \<noteq> 0" by simp_all
  then have "fst x < fst y" if "y \<in> set xs" for y
    using ordered_mem [OF o(1) that] bend_gt [OF o(2)] by (simp add: word_less_nat_alt)
  then show ?case using Cons.IH [OF o(1)] by simp
qed simp

lemma base_below: "ordered lo xs hi \<Longrightarrow> unat base + 16 \<le> lo \<Longrightarrow> x \<in> set xs \<Longrightarrow> base < fst x"
  using ordered_mem [of lo xs hi x] by (simp add: word_less_nat_alt)

text \<open>Where \<^verbatim>\<open>free\<close> finds the place for a block that is apart from the free ones.\<close>

lemma free_place:
  assumes b: "unat base + 16 \<le> lo" and o: "ordered lo ys (unat a)" "n \<noteq> 0" "ordered (bend (a, n)) zs hi"
    and l: "linked h (base # map fst (ys @ zs) @ [base])" and f: "f \<in> set (base # map fst (ys @ zs))"
  shows "free_scan a f h = Some (last (base # map fst ys))"
proof (rule free_scan_finds [where us = "map fst ys" and vs = "map fst zs"])
  show "linked h (base # map fst ys @ map fst zs @ [base])" using l by simp
  have ya: "v < a" if "v \<in> set (map fst ys)" for v
    using that ordered_fst_less [OF o(1), of _ a] by auto
  have az: "a < v" if "v \<in> set (map fst zs)" for v
  proof -
    from that have "v \<in> fst ` set zs" by simp
    then obtain z where "v = fst z" "z \<in> set zs" by (rule imageE)
    then show ?thesis using ordered_mem [OF o(3), of z] bend_gt [of "(a, n)"] o(2) by (simp add: word_less_nat_alt)
  qed
  have ba: "base < a" using ordered_le [OF o(1)] b by (simp add: word_less_nat_alt)
  show "\<forall>v\<in>set (base # map fst ys). v < a" "\<forall>v\<in>set (map fst zs). a < v" using ya az ba by auto
  have "base < v" if "v \<in> set (map fst ys)" for v using that base_below [OF o(1) b] by auto
  moreover have "v < w" if "v \<in> set (map fst ys)" "w \<in> set (map fst zs)" for v w
    by (rule less_trans [OF ya [OF that(1)] az [OF that(2)]])
  moreover have "base < w" if "w \<in> set (map fst zs)" for w by (rule less_trans [OF ba az [OF that]])
  ultimately show "sorted_wrt (<) (base # map fst ys @ map fst zs)"
    using ordered_sorted [OF o(1)] ordered_sorted [OF o(3)]
    unfolding sorted_wrt.simps(2) sorted_wrt_append set_append by blast
  show "f \<in> set (base # map fst ys @ map fst zs)" using f by simp
qed

lemma apart_fst: "apart b x \<Longrightarrow> snd b \<noteq> 0 \<Longrightarrow> snd x \<noteq> 0 \<Longrightarrow> fst b \<noteq> fst x"
  using bend_gt [of b] bend_gt [of x] by (auto simp: apart_def)

lemma heap_okD:
  assumes "heap_ok base lo xs live s"
  shows "base \<noteq> 0" "unat base + 16 \<le> lo" "unat (brk s) \<le> 2 ^ 36" "ordered lo xs (unat (brk s))"
    "live_ok lo xs live (unat (brk s))" "\<And>b. b \<in> set xs \<or> b \<in> set live \<Longrightarrow> h_size (hdr s (fst b)) = snd b"
  using assms by (auto simp: heap_ok_def)

lemma heap_ok_ring:
  assumes "heap_ok base lo xs live s" "freep s \<noteq> 0"
  shows "h_size (hdr s base) = 0" "linked (hdr s) (base # map fst xs @ [base])" "freep s \<in> set (base # map fst xs)"
  using assms by (auto simp: heap_ok_def)

text \<open>A change of the free list that leaves the allocated blocks apart from it.\<close>

lemma freed_heap:
  assumes ok: "heap_ok base lo xs ((a, n) # live) s" and fr: "freed base lo (unat (brk s)) ws m h' p xs'"
    and p: "p = base \<or> p \<in> fst ` set xs" and h': "\<And>x. x \<noteq> a \<Longrightarrow> x \<noteq> p \<Longrightarrow> h' x = hdr s x"
    and ap: "\<And>b. snd b \<noteq> 0 \<Longrightarrow> \<forall>x\<in>set ((a, n) # xs). apart b x \<Longrightarrow> \<forall>x\<in>set ws. apart b x"
  shows "p \<noteq> 0 \<and> heap_ok base lo xs' live (s\<lparr>hdr := h', freep := p\<rparr>)"
proof
  note ok = heap_okD [OF ok]
  have lv: "sorted_wrt apart live" "n \<noteq> 0"
    "\<And>b. b \<in> set live \<Longrightarrow> snd b \<noteq> 0 \<and> lo \<le> unat (fst b) \<and> bend b \<le> unat (brk s) \<and> (\<forall>x\<in>set ((a, n) # xs). apart b x)"
    using ok(5) apart_sym by (auto simp: live_ok_def)
  have pb: "base \<le> p"
  proof (cases "p = base")
    case False
    then obtain y where "y \<in> set xs" "p = fst y" using p by blast
    then show ?thesis using base_below [OF ok(4,2), of y] by simp
  qed simp
  show p0: "p \<noteq> 0" using pb ok(1) by (metis word_le_0_iff)
  have sz: "h_size (h' (fst b)) = snd b" if "b \<in> set live" for b
  proof -
    have "fst b \<noteq> a" using apart_fst [of b "(a, n)"] lv(2) lv(3) [OF that] by simp
    moreover have "fst b \<noteq> p"
    proof (cases "p = base")
      case True
      then show ?thesis using lv(3) [OF that] ok(2) by auto
    next
      case False
      then obtain y where y: "y \<in> set xs" "p = fst y" using p by blast
      then show ?thesis using apart_fst [of b y] lv(3) [OF that] ordered_mem [OF ok(4) y(1)] by auto
    qed
    ultimately show ?thesis using h' [of "fst b"] ok(6) [of b] that by simp
  qed
  have "\<forall>x\<in>set xs'. apart b x" if "b \<in> set live" for b
    using ap [of b] lv(3) [OF that] fr unfolding freed_def by blast
  then have "live_ok lo xs' live (unat (brk s))" using lv unfolding live_ok_def by blast
  then show "heap_ok base lo xs' live (s\<lparr>hdr := h', freep := p\<rparr>)"
    using ok(1-3) fr p0 sz unfolding heap_ok_def freed_def by auto
qed

lemma free_block:
  assumes ok: "heap_ok base lo xs ((a, n) # live) s"
  shows "\<exists>t xs'. free (a + 16) s = Some t \<and> heap_ok base lo xs' live t \<and> units xs' = units xs + unat n
    \<and> (\<exists>x\<in>set xs'. n \<le> snd x) \<and> freep t \<noteq> 0 \<and> brk t = brk s \<and> grants t = grants s"
proof -
  let ?hi = "unat (brk s)" and ?h = "hdr s"
  note g = heap_okD [OF ok]
  have "freep s \<noteq> 0" using ok by (auto simp: heap_ok_def)
  note r = heap_ok_ring [OF ok this]
  have a: "n \<noteq> 0" "lo \<le> unat a" "bend (a, n) \<le> ?hi" "\<forall>x\<in>set xs. apart (a, n) x" using g(5) by (simp_all add: live_ok_def)
  obtain ys zs where x: "xs = ys @ zs" "ordered lo ys (unat a)" "ordered (bend (a, n)) zs ?hi"
    using ordered_place [OF g(4) a(4)] a by auto
  define p where "p = last (base # map fst ys)"
  have sc: "free_scan a (freep s) ?h = Some p"
    unfolding p_def by (rule free_place [OF g(2) x(2) a(1) x(3)]) (use r x(1) in simp_all)
  have lk: "linked ?h (base # map fst ys @ map fst zs @ [base])" using r(2) x(1) by simp
  have sy: "\<forall>b\<in>set (ys @ (a, n) # zs). h_size (?h (fst b)) = snd b" using g(6) x(1) by auto
  obtain v n' zs' where up: "free_upper a p ?h = ?h(a := v)" "pieces base lo ?hi (?h(a := v)) ys (a, n') zs'"
    "unat n' + units zs' = unat n + units zs" "n \<le> n'"
    "\<And>b. snd b \<noteq> 0 \<Longrightarrow> \<forall>x\<in>set ((a, n) # zs). apart b x \<Longrightarrow> \<forall>x\<in>set ((a, n') # zs'). apart b x"
    using free_upper_pieces [OF lk g(2,3) x(2) a(1) x(3) r(1) sy p_def] by blast
  obtain w xs' where lw: "free_lower a p (?h(a := v)) = ?h(a := v, p := w)"
    "freed base lo ?hi (ys @ (a, n') # zs') n' (?h(a := v, p := w)) p xs'"
    using free_lower_pieces [OF up(2) g(2,3) p_def] by blast
  let ?t = "s\<lparr>hdr := ?h(a := v, p := w), freep := p\<rparr>"
  have "free (a + 16) s = Some ?t" using sc up(1) lw(1) by (simp add: free_def)
  moreover have "p \<noteq> 0 \<and> heap_ok base lo xs' live ?t"
  proof (rule freed_heap [OF ok lw(2)])
    show "p = base \<or> p \<in> fst ` set xs" unfolding p_def x(1) by (cases ys rule: rev_cases) auto
    fix b :: block assume "snd b \<noteq> 0" and ap: "\<forall>x\<in>set ((a, n) # xs). apart b x"
    then have "\<forall>x\<in>set ((a, n') # zs'). apart b x" by (intro up(5)) (auto simp: x(1))
    then show "\<forall>x\<in>set (ys @ (a, n') # zs'). apart b x" using ap by (auto simp: x(1))
  qed simp
  moreover have "units xs' = units xs + unat n" using lw(2) up(3) x(1) by (simp add: freed_def)
  moreover have "\<exists>x\<in>set xs'. n \<le> snd x" using lw(2) up(4) unfolding freed_def by (meson order_trans)
  ultimately show ?thesis by auto
qed

subsection \<open>Malloc\<close>

lemma malloc_fits:
  assumes "linked (hdr s) (pr # us @ [f])" "f = freep s" "f \<notin> set us" "\<exists>q\<in>set (us @ [f]). nunits \<le> h_size (hdr s q)"
  shows "\<exists>q p. malloc_loop nunits pr (hd (us @ [f])) s = Some (malloc_take nunits q p s)
    \<and> nunits \<le> h_size (hdr s p) \<and> h_ptr (hdr s q) = p \<and> q \<in> set (pr # us) \<and> p \<in> set (us @ [f])"
  using assms
proof (induction us arbitrary: pr)
  case Nil
  then show ?case by (subst malloc_loop.simps) auto
next
  case (Cons u us)
  show ?case
  proof (cases "nunits \<le> h_size (hdr s u)")
    case True
    then show ?thesis using Cons.prems by (subst malloc_loop.simps) auto
  next
    case False
    have "h_ptr (hdr s u) = hd (us @ [f])" using Cons.prems(1) by (cases us) auto
    then have "malloc_loop nunits pr u s = malloc_loop nunits u (hd (us @ [f])) s"
      using False Cons.prems by (subst malloc_loop.simps) auto
    then show ?thesis using Cons.IH [of u] Cons.prems False by fastforce
  qed
qed

lemma malloc_nofit:
  assumes "linked (hdr s) (pr # us @ [f])" "f = freep s" "f \<notin> set us" "\<forall>q\<in>set (us @ [f]). \<not> nunits \<le> h_size (hdr s q)"
  shows "malloc_loop nunits pr (hd (us @ [f])) s =
    (case morecore nunits s of None \<Rightarrow> None
     | Some (p, t) \<Rightarrow> if p = 0 then Some (0, t) else malloc_loop nunits p (h_ptr (hdr t p)) t)"
  using assms
proof (induction us arbitrary: pr)
  case Nil
  then show ?case by (subst malloc_loop.simps) auto
next
  case (Cons u us)
  have "h_ptr (hdr s u) = hd (us @ [f])" using Cons.prems(1) by (cases us) auto
  then have "malloc_loop nunits pr u s = malloc_loop nunits u (hd (us @ [f])) s"
    using Cons.prems by (subst malloc_loop.simps) auto
  then show ?case using Cons.IH [of u] Cons.prems by simp
qed

lemma ordered_apart:
  assumes "ordered lo (ys @ b # zs) hi" "x \<in> set ys \<or> x \<in> set zs" shows "apart b x"
proof -
  have o: "ordered lo ys (endof lo ys)" "endof lo ys \<le> unat (fst b)" "ordered (bend b) zs hi"
    using assms(1) ordered_append [of lo ys "b # zs" hi] by simp_all
  then show ?thesis using assms(2) ordered_mem [OF o(1), of x] ordered_mem [OF o(3), of x] by (auto simp: apart_def)
qed

lemma apart_sub: "apart b (p, n) \<Longrightarrow> unat p \<le> unat q \<Longrightarrow> bend (q, m) \<le> bend (p, n) \<Longrightarrow> apart b (q, m)"
  by (auto simp: apart_def)

text \<open>The two parts of a block that \<^verbatim>\<open>malloc\<close> divides.\<close>

lemma bend_split:
  assumes "bend (p, n) \<le> 2 ^ 36" "k \<le> n"
  shows "bend (p, n - k) = unat (hplus p (n - k))" "bend (hplus p (n - k), k) = bend (p, n)" "unat (n - k) + unat k = unat n"
proof -
  have u: "unat (n - k) = unat n - unat k" "unat k \<le> unat n" using assms(2) by (simp_all add: unat_sub word_le_nat_alt)
  then show "unat (n - k) + unat k = unat n" by simp
  have "unat p + 16 * unat (n - k) < 2 ^ 64" using assms(1) u by (simp add: bend_def)
  from unat_hplus [OF this] show "bend (p, n - k) = unat (hplus p (n - k))" "bend (hplus p (n - k), k) = bend (p, n)"
    using u by (simp_all add: bend_def)
qed

lemma ring_distinct: "ordered lo xs hi \<Longrightarrow> unat base + 16 \<le> lo \<Longrightarrow> distinct (base # map fst xs)"
proof -
  assume o: "ordered lo xs hi" "unat base + 16 \<le> lo"
  have "base \<notin> fst ` set xs" using base_below [OF o] by (metis imageE less_irrefl)
  then show ?thesis using ordered_distinct [OF o(1)] by simp
qed

text \<open>Unlinking the node after \<open>q\<close>.\<close>

lemma linked_unlink:
  assumes l: "linked h (base # map fst (ys @ (p, n) # zs) @ [base])" and d: "distinct (base # map fst (ys @ (p, n) # zs))"
    and q: "q = last (base # map fst ys)"
  shows "linked (set_ptr q (h_ptr (h p)) h) (base # map fst (ys @ zs) @ [base])"
proof -
  let ?h = "set_ptr q (h_ptr (h p)) h"
  have l1: "linked h (base # map fst ys)" and l2: "linked h (q # p # map fst zs @ [base])"
    using linked_around [of h base ys "(p, n) # zs"] l q by simp_all
  obtain us where us: "base # map fst ys = us @ [q]" by (metis q append_butlast_last_id list.distinct(1))
  have "distinct ((us @ [q]) @ p # map fst zs)" using d unfolding us [symmetric] by simp
  then have qn: "q \<notin> set us" "q \<notin> set (map fst zs)" by auto
  have "linked ?h (us @ [q])" using l1 linked_upd [of q "us @ [q]"] qn(1) unfolding us by (simp add: hset)
  moreover have "linked ?h (q # map fst zs @ [base])"
  proof -
    have "linked h (map fst zs @ [base])" "h_ptr (h p) = hd (map fst zs @ [base])" using l2 by (cases zs; simp)+
    moreover from this have "linked ?h (map fst zs @ [base])"
      using linked_upd [of q "map fst zs @ [base]"] qn(2) by (simp add: hset)
    ultimately show ?thesis by (cases zs) (simp_all add: hset)
  qed
  ultimately have "linked ?h (us @ q # (map fst zs @ [base]))" using linked_append [of ?h us q "map fst zs @ [base]"] by simp
  moreover have "base # map fst (ys @ zs) @ [base] = us @ q # (map fst zs @ [base])"
    using arg_cong [OF us, of "\<lambda>l. l @ map fst zs @ [base]"] by simp
  ultimately show ?thesis by metis
qed

text \<open>A block of the free list that becomes an allocated one.\<close>

lemma live_ok_take:
  assumes "live_ok lo (ys @ (p, n) # zs) live hi" and o: "ordered lo (ys @ (p, n) # zs) hi"
    and sub: "unat p \<le> unat a" "bend (a, k) \<le> bend (p, n)" "k \<noteq> 0"
    and xs: "set xs \<subseteq> set ys \<union> set zs \<union> {(p, m)}" "(p, m) \<in> set xs \<Longrightarrow> bend (p, m) \<le> unat a"
  shows "live_ok lo xs ((a, k) # live) hi"
proof -
  have pn: "lo \<le> unat p" "bend (p, n) \<le> hi" using ordered_mem [OF o, of "(p, n)"] by simp_all
  have lv: "sorted_wrt apart live" "\<And>b. b \<in> set live \<Longrightarrow> snd b \<noteq> 0 \<and> lo \<le> unat (fst b) \<and> bend b \<le> hi
      \<and> (\<forall>x\<in>set (ys @ (p, n) # zs). apart b x)"
    using assms(1) by (auto simp: live_ok_def)
  have new: "apart (a, k) x" if x: "x \<in> set xs" for x
  proof (cases "x = (p, m)")
    case True
    then show ?thesis using xs(2) x by (simp add: apart_def)
  next
    case False
    then have "apart (p, n) x" using xs(1) x ordered_apart [OF o, of x] by blast
    then show ?thesis using apart_sub [of x p n a k] sub apart_sym by blast
  qed
  have old: "apart b x" if b: "b \<in> set live" and x: "x \<in> set xs" for b x
  proof (cases "x = (p, m)")
    case True
    have "apart b (p, n)" using lv(2) [OF b] by simp
    moreover have "bend (p, m) \<le> bend (p, n)" using xs(2) x True sub(2) by (simp add: bend_def)
    ultimately show ?thesis using apart_sub [of b p n p m] True by simp
  next
    case False
    then have "x \<in> set (ys @ (p, n) # zs)" using x xs(1) by auto
    then show ?thesis using lv(2) [OF b] by blast
  qed
  have "apart (a, k) b" if "b \<in> set live" for b
    using lv(2) [OF that] apart_sub [of b p n a k] sub apart_sym by auto
  then show ?thesis using lv new old pn sub unfolding live_ok_def by auto
qed

lemma last_ring: "q = last (base # map fst ys) \<Longrightarrow> q \<in> set (base # map fst ys)"
  by (metis last_in_set list.distinct(1))

lemma take_whole:
  assumes ok: "heap_ok base lo (ys @ (p, n) # zs) live s" and f: "freep s \<noteq> 0" and q: "q = last (base # map fst ys)"
  shows "malloc_take n q p s = (p + 16, s\<lparr>hdr := set_ptr q (h_ptr (hdr s p)) (hdr s), freep := q\<rparr>)"
    and "heap_ok base lo (ys @ zs) ((p, n) # live) (s\<lparr>hdr := set_ptr q (h_ptr (hdr s p)) (hdr s), freep := q\<rparr>)"
proof -
  let ?h = "set_ptr q (h_ptr (hdr s p)) (hdr s)" and ?hi = "unat (brk s)"
  note g = heap_okD [OF ok] and r = heap_ok_ring [OF ok f]
  show "malloc_take n q p s = (p + 16, s\<lparr>hdr := ?h, freep := q\<rparr>)" using g(6) [of "(p, n)"] by (simp add: malloc_take_def)
  have "ordered lo (ys @ zs) ?hi"
  proof -
    have "ordered lo ys (endof lo ys)" "endof lo ys \<le> unat p" "ordered (bend (p, n)) zs ?hi"
      using g(4) ordered_append [of lo ys "(p, n) # zs" ?hi] by simp_all
    moreover from this have "ordered (endof lo ys) zs ?hi" by (elim ordered_mono) (simp_all add: bend_def)
    ultimately show ?thesis using ordered_append by blast
  qed
  moreover have "live_ok lo (ys @ zs) ((p, n) # live) ?hi"
  proof (rule live_ok_take [OF g(5,4), where m = 0])
    show "n \<noteq> 0" using ordered_mem [OF g(4), of "(p, n)"] by simp
    show "(p, 0) \<in> set (ys @ zs) \<Longrightarrow> bend (p, 0) \<le> unat p" by (simp add: bend_def)
  qed auto
  moreover have "linked ?h (base # map fst (ys @ zs) @ [base])"
    by (rule linked_unlink [OF r(2) ring_distinct [OF g(4,2)] q])
  moreover have sz: "h_size (?h x) = h_size (hdr s x)" for x by (simp add: hset)
  moreover have qm: "q \<in> set (base # map fst ys)" by (rule last_ring [OF q])
  then have "q \<noteq> 0" using g(1) base_below [OF g(4,2)] by fastforce
  ultimately show "heap_ok base lo (ys @ zs) ((p, n) # live) (s\<lparr>hdr := ?h, freep := q\<rparr>)"
    using g r(1) qm by (auto simp: heap_ok_def)
qed

lemma apart_inside: "apart (p, n) x \<Longrightarrow> unat p < unat a \<Longrightarrow> unat a < bend (p, n) \<Longrightarrow> fst x \<noteq> a"
  by (auto simp: apart_def bend_def)

lemma take_part:
  assumes ok: "heap_ok base lo (ys @ (p, n) # zs) live s" and f: "freep s \<noteq> 0" and q: "q = last (base # map fst ys)"
    and k: "k \<le> n" "k \<noteq> n" "k \<noteq> 0" and a: "a = hplus p (n - k)"
  shows "malloc_take k q p s = (a + 16, s\<lparr>hdr := set_size a k (set_size p (n - k) (hdr s)), freep := q\<rparr>)"
    and "heap_ok base lo (ys @ (p, n - k) # zs) ((a, k) # live) (s\<lparr>hdr := set_size a k (set_size p (n - k) (hdr s)), freep := q\<rparr>)"
proof -
  let ?h = "set_size a k (set_size p (n - k) (hdr s))" and ?hi = "unat (brk s)" and ?xs = "ys @ (p, n - k) # zs"
  note g = heap_okD [OF ok] and r = heap_ok_ring [OF ok f]
  show "malloc_take k q p s = (a + 16, s\<lparr>hdr := ?h, freep := q\<rparr>)"
    using g(6) [of "(p, n)"] k(2) a by (simp add: malloc_take_def Let_def hset)
  have "bend (p, n) \<le> 2 ^ 36" using ordered_mem [OF g(4), of "(p, n)"] g(3) by simp
  note sp = bend_split [OF this k(1), folded a]
  have nk: "n - k \<noteq> 0" using k(2) by simp
  have in_p: "unat p < unat a" "unat a < bend (p, n)"
    using sp(1) bend_gt [of "(p, n - k)"] nk sp(2) bend_gt [of "(a, k)"] k(3) by simp_all
  have ins: "fst x \<noteq> a \<and> fst x \<noteq> p" if "apart (p, n) x" "snd x \<noteq> 0" for x
    using apart_inside [OF that(1) in_p] apart_fst [OF that(1)] that(2) ordered_mem [OF g(4), of "(p, n)"] by auto
  have fx: "fst x \<noteq> a \<and> fst x \<noteq> p" if "x \<in> set ys \<or> x \<in> set zs" for x
    using ins [OF ordered_apart [OF g(4) that]] ordered_mem [OF g(4), of x] that by auto
  have fl: "fst x \<noteq> a \<and> fst x \<noteq> p" if "x \<in> set live" for x
    using ins [of x] g(5) that apart_sym by (auto simp: live_ok_def)
  have fb: "base \<noteq> a" "base \<noteq> p" using base_below [OF g(4,2), of "(p, n)"] in_p by (auto simp: word_less_nat_alt)
  have hs: "h_size (?h x) = h_size (hdr s x)" if "x \<noteq> a" "x \<noteq> p" for x using that by (simp add: hset)
  have "ordered lo ?xs ?hi"
    using g(4) nk sp in_p ordered_append [of lo ys "(p, n) # zs" ?hi] ordered_append [of lo ys "(p, n - k) # zs" ?hi]
      ordered_mono [of "bend (p, n)" zs ?hi "bend (p, n - k)" ?hi] by simp
  moreover have "live_ok lo ?xs ((a, k) # live) ?hi"
    by (rule live_ok_take [OF g(5,4), where m = "n - k"]) (use sp in_p k(3) in auto)
  moreover have "h_ptr (?h x) = h_ptr (hdr s x)" for x by (simp add: hset)
  then have "linked ?h (base # map fst ?xs @ [base])" using r(2) linked_cong [of _ ?h "hdr s"] by simp
  moreover have "h_size (?h (fst x)) = snd x" if x: "x \<in> set (?xs @ (a, k) # live)" for x
  proof -
    consider "x = (p, n - k)" | "x = (a, k)" | "x \<in> set ys \<or> x \<in> set zs" | "x \<in> set live" using x by auto
    then show ?thesis
    proof cases
      case 1 then show ?thesis using in_p by (auto simp: hset)
    next
      case 2 then show ?thesis by (simp add: hset)
    next
      case 3 then show ?thesis using hs fx g(6) [of x] by auto
    next
      case 4 then show ?thesis using hs fl g(6) [of x] by auto
    qed
  qed
  moreover have qm: "q \<in> set (base # map fst ys)" by (rule last_ring [OF q])
  then have "q \<noteq> 0" using g(1) base_below [OF g(4,2)] by fastforce
  moreover have "h_size (?h base) = 0" using hs fb r(1) by simp
  ultimately show "heap_ok base lo ?xs ((a, k) # live) (s\<lparr>hdr := ?h, freep := q\<rparr>)"
    using g(1-3) qm by (auto simp: heap_ok_def)
qed

lemma malloc_take_ok:
  assumes ok: "heap_ok base lo xs live s" and f: "freep s \<noteq> 0" and k: "k \<noteq> 0" "k \<le> h_size (hdr s p)"
    and p: "p \<in> set (base # map fst xs)" and q: "q \<in> set (base # map fst xs)" "h_ptr (hdr s q) = p"
  shows "\<exists>a xs' t. malloc_take k q p s = (a + 16, t) \<and> heap_ok base lo xs' ((a, k) # live) t \<and> units xs' + unat k = units xs"
proof -
  note g = heap_okD [OF ok] and r = heap_ok_ring [OF ok f]
  have "p \<noteq> base" using k r(1) by auto
  then obtain x where "x \<in> set xs" "p = fst x" using p by auto
  then obtain ys n zs where xs: "xs = ys @ (p, n) # zs" by (metis prod.collapse split_list)
  have n: "h_size (hdr s p) = n" using g(6) [of "(p, n)"] xs by simp
  have "h_ptr (hdr s (last (base # map fst ys))) = p" using linked_around(2) [of "hdr s" base ys "(p, n) # zs"] r(2) xs by simp
  moreover have "set (base # map fst ys) \<subseteq> set (base # map fst xs)" using xs by auto
  then have "last (base # map fst ys) \<in> set (base # map fst xs)" using last_ring [OF refl, of base ys] by blast
  ultimately have q': "q = last (base # map fst ys)"
    using linked_inj [OF r(2) ring_distinct [OF g(4,2)], of q "last (base # map fst ys)"] q by simp
  have kn: "k \<le> n" using k(2) n by simp
  show ?thesis
  proof (cases "k = n")
    case True
    then show ?thesis using take_whole [OF ok [unfolded xs] f q'] xs by (intro exI conjI) auto
  next
    case False
    have "bend (p, n) \<le> 2 ^ 36" using ordered_mem [OF g(4), of "(p, n)"] g(3) xs by simp
    then have "unat (n - k) + unat k = unat n" using bend_split(3) kn by blast
    then show ?thesis using take_part [OF ok [unfolded xs] f q' kn False k(1) refl] xs by (intro exI conjI) auto
  qed
qed

lemma malloc_loop_fits:
  assumes ok: "heap_ok base lo xs live s" and f: "freep s \<noteq> 0" and k: "k \<noteq> 0" "\<exists>x\<in>set xs. k \<le> snd x"
  shows "\<exists>a xs' t. malloc_loop k (freep s) (h_ptr (hdr s (freep s))) s = Some (a + 16, t)
    \<and> heap_ok base lo xs' ((a, k) # live) t \<and> units xs' + unat k = units xs"
proof -
  note g = heap_okD [OF ok] and r = heap_ok_ring [OF ok f]
  obtain us vs where uv: "base # map fst xs = us @ freep s # vs" using r(3) by (metis split_list)
  have l: "linked (hdr s) (freep s # (vs @ us) @ [freep s])" by (rule linked_rotate [OF r(2) uv])
  have d: "freep s \<notin> set (vs @ us)" using ring_distinct [OF g(4,2)] unfolding uv by auto
  have st: "set (freep s # vs @ us) = set (base # map fst xs)" unfolding uv by auto
  obtain x where x: "x \<in> set xs" "k \<le> snd x" using k(2) by blast
  have "set ((vs @ us) @ [freep s]) = set (base # map fst xs)" using st by simp
  moreover have "fst x \<in> set (base # map fst xs)" using x(1) by simp
  ultimately have "fst x \<in> set ((vs @ us) @ [freep s])" by blast
  then have "\<exists>y\<in>set ((vs @ us) @ [freep s]). k \<le> h_size (hdr s y)" using x g(6) [of x] by (intro bexI [of _ "fst x"]) auto
  from malloc_fits [OF l refl d this] obtain q p where qp:
    "malloc_loop k (freep s) (hd ((vs @ us) @ [freep s])) s = Some (malloc_take k q p s)" "k \<le> h_size (hdr s p)" "h_ptr (hdr s q) = p"
    "q \<in> set (freep s # vs @ us)" "p \<in> set ((vs @ us) @ [freep s])" by auto
  have "h_ptr (hdr s (freep s)) = hd ((vs @ us) @ [freep s])" using l by (cases "vs @ us") auto
  moreover have "q \<in> set (base # map fst xs)" "p \<in> set (base # map fst xs)" using qp(4,5) st by auto
  ultimately show ?thesis using qp(1) malloc_take_ok [OF ok f k(1) qp(2) _ _ qp(3)] by auto
qed

lemma sbrk_grows:
  assumes "n < 2 ^ 31" "0 < n"
  shows "(\<exists>t. sbrk (of_nat n) s = (SBRK_ERROR, t) \<and> (\<exists>g. t = s\<lparr>grants := g\<rparr>))
    \<or> (\<exists>g. sbrk (of_nat n) s = (brk s, s\<lparr>brk := brk s + of_nat n, grants := g\<rparr>))"
proof -
  have i: "sint (of_nat n :: u32) = int n" using assms by (simp add: signed_of_nat signed_take_bit_int_eq_self)
  then have c: "(scast (of_nat n :: u32) :: u64) = of_nat n" by (metis of_int_of_nat_eq of_int_sint scast_eq)
  have e: "\<exists>g. s = s\<lparr>grants := g\<rparr>" by (rule exI [of _ "grants s"]) simp
  show ?thesis using e assms(2) unfolding sbrk_def i c by (cases "grants s") auto
qed

lemma heap_ok_brk: "heap_ok base lo xs live s \<Longrightarrow> unat (brk s) \<le> unat v \<Longrightarrow> unat v \<le> 2 ^ 36 \<Longrightarrow>
    heap_ok base lo xs live (s\<lparr>brk := v, grants := g\<rparr>)"
  using ordered_mono [of lo xs "unat (brk s)" lo "unat v"] by (auto simp: heap_ok_def live_ok_def intro: order_trans)

lemma heap_ok_grants: "heap_ok base lo xs live (s\<lparr>grants := g\<rparr>) = heap_ok base lo xs live s"
  by (simp add: heap_ok_def)

text \<open>Fresh memory above all blocks is a block that nobody uses.\<close>

lemma heap_ok_fresh:
  assumes ok: "heap_ok base lo xs live s" and f: "freep s \<noteq> 0" and m: "m \<noteq> 0" "unat (brk s) + 16 * unat m \<le> 2 ^ 36"
    and v: "unat v = unat (brk s) + 16 * unat m"
  shows "heap_ok base lo xs ((brk s, m) # live) (s\<lparr>brk := v, grants := g, hdr := set_size (brk s) m (hdr s)\<rparr>)"
proof -
  let ?hi = "unat (brk s)" and ?h = "set_size (brk s) m (hdr s)"
  note g = heap_okD [OF ok] and r = heap_ok_ring [OF ok f]
  have lv: "\<And>b. b \<in> set live \<Longrightarrow> snd b \<noteq> 0 \<and> lo \<le> unat (fst b) \<and> bend b \<le> ?hi" using g(5) by (auto simp: live_ok_def)
  have be: "bend b \<le> ?hi \<and> snd b \<noteq> 0" if "b \<in> set xs \<or> b \<in> set live" for b
    using that ordered_mem [OF g(4), of b] lv [of b] by blast
  have ne: "fst b \<noteq> brk s" if "b \<in> set xs \<or> b \<in> set live" for b using be [OF that] bend_gt [of b] by auto
  have "lo \<le> ?hi" by (rule ordered_le [OF g(4)])
  then have nb: "base \<noteq> brk s" using g(2) by auto
  have ap: "apart (brk s, m) b \<and> apart b (brk s, m)" if "b \<in> set xs \<or> b \<in> set live" for b
    using be [OF that] by (simp add: apart_def)
  have "ordered lo xs (unat v)" using ordered_mono [OF g(4)] v by simp
  moreover have "live_ok lo xs ((brk s, m) # live) (unat v)"
    using g(5) ap m(1) v \<open>lo \<le> ?hi\<close> by (fastforce simp: live_ok_def bend_def)
  moreover have "h_ptr (?h x) = h_ptr (hdr s x)" for x by (simp add: hset)
  then have "linked ?h (base # map fst xs @ [base])" using r(2) linked_cong [of _ ?h "hdr s"] by simp
  moreover have "h_size (?h (fst b)) = snd b" if "b \<in> set (xs @ (brk s, m) # live)" for b
    using that ne g(6) [of b] by (cases "b = (brk s, m)") (auto simp: hset)
  ultimately show ?thesis using g(1,2) r f nb m(2) v by (auto simp: heap_ok_def hset)
qed

lemma morecore_ok:
  assumes ok: "heap_ok base lo xs live s" and f: "freep s \<noteq> 0"
    and m: "m = (if k < 4096 then 4096 else k)" "16 * unat m < 2 ^ 31" "unat (brk s) + 16 * unat m \<le> 2 ^ 36"
  shows "\<exists>p t xs'. morecore k s = Some (p, t) \<and> heap_ok base lo xs' live t \<and> (p \<noteq> 0 \<longrightarrow> freep t = p \<and> (\<exists>x\<in>set xs'. k \<le> snd x))"
proof -
  have mk: "k \<le> m" "4096 \<le> m" using m(1) by (auto simp: not_less)
  then have "4096 \<le> unat m" by (simp add: word_le_nat_alt)
  then have m0: "m \<noteq> 0" "k \<le> m" "0 < unat m" using mk by auto
  have "(ucast (ucast m * 16 :: u64) :: u32) = of_nat (16 * unat m)"
    using m(2) by (simp add: word_unat_eq_iff unat_word_ariths unsigned_ucast_eq take_bit_eq_mod)
  then have mc: "morecore k s = (case sbrk (of_nat (16 * unat m)) s of (p, s) \<Rightarrow>
      if p = SBRK_ERROR then Some (0, s)
      else case free (p + 16) (s\<lparr>hdr := set_size p m (hdr s)\<rparr>) of None \<Rightarrow> None | Some s \<Rightarrow> Some (freep s, s))"
    by (simp add: morecore_def m(1) [symmetric])
  from sbrk_grows [OF m(2)] m0(3) consider
      g where "sbrk (of_nat (16 * unat m)) s = (SBRK_ERROR, s\<lparr>grants := g\<rparr>)"
    | g where "sbrk (of_nat (16 * unat m)) s = (brk s, s\<lparr>brk := brk s + of_nat (16 * unat m), grants := g\<rparr>)"
    by fastforce
  then show ?thesis
  proof cases
    case 1
    then show ?thesis using ok by (auto simp: mc heap_ok_grants)
  next
    case 2
    let ?s = "s\<lparr>brk := brk s + of_nat (16 * unat m), grants := g, hdr := set_size (brk s) m (hdr s)\<rparr>"
    have v: "unat (brk s + of_nat (16 * unat m)) = unat (brk s) + 16 * unat m"
      using m(2,3) by (simp add: unat_word_ariths unat_ucast64)
    have "heap_ok base lo xs ((brk s, m) # live) ?s" by (rule heap_ok_fresh [OF ok f m0(1) m(3) v])
    from free_block [OF this] obtain t xs' where t: "free (brk s + 16) ?s = Some t" "heap_ok base lo xs' live t"
      "\<exists>x\<in>set xs'. m \<le> snd x" "freep t \<noteq> 0" by blast
    have "brk s \<noteq> SBRK_ERROR" using m(3) by (auto simp: SBRK_ERROR_def unsigned_minus_1_eq_mask mask_eq_exp_minus_1)
    then have "morecore k s = Some (freep t, t)" using 2 t(1) by (simp add: mc)
    moreover have "\<exists>x\<in>set xs'. k \<le> snd x" using t(3) m0(2) by (meson order_trans)
    ultimately show ?thesis using t by blast
  qed
qed

lemma malloc_loop_ok:
  assumes ok: "heap_ok base lo xs live s" and f: "freep s \<noteq> 0" and k: "k \<noteq> 0"
    and m: "m = (if k < 4096 then 4096 else k)" "16 * unat m < 2 ^ 31" "unat (brk s) + 16 * unat m \<le> 2 ^ 36"
  shows "\<exists>r t xs'. malloc_loop k (freep s) (h_ptr (hdr s (freep s))) s = Some (r, t)
    \<and> (if r = 0 then heap_ok base lo xs' live t else heap_ok base lo xs' ((r - 16, k) # live) t)"
proof -
  have fits: "\<exists>r t xs'. malloc_loop k (freep u) (h_ptr (hdr u (freep u))) u = Some (r, t)
    \<and> (if r = 0 then heap_ok base lo xs' live t else heap_ok base lo xs' ((r - 16, k) # live) t)"
    if u: "heap_ok base lo ws live u" "freep u \<noteq> 0" "\<exists>x\<in>set ws. k \<le> snd x" for u ws
  proof -
    obtain a xs' t where a: "malloc_loop k (freep u) (h_ptr (hdr u (freep u))) u = Some (a + 16, t)"
      "heap_ok base lo xs' ((a, k) # live) t" using malloc_loop_fits [OF u(1,2) k u(3)] by blast
    have "bend (a, k) \<le> 2 ^ 36" using heap_okD(3,5) [OF a(2)] by (auto simp: live_ok_def)
    then have "unat (a + 16) = unat a + 16" by (simp add: bend_def unat_word_ariths)
    then have "a + 16 \<noteq> 0" by (metis add_is_0 unat_0 zero_neq_numeral)
    then show ?thesis using a by (intro exI [of _ "a + 16"] exI [of _ t] exI [of _ xs']) simp
  qed
  show ?thesis
  proof (cases "\<exists>x\<in>set xs. k \<le> snd x")
    case True
    then show ?thesis using fits [OF ok f] by blast
  next
    case False
    note g = heap_okD [OF ok] and r = heap_ok_ring [OF ok f]
    obtain us vs where uv: "base # map fst xs = us @ freep s # vs" using r(3) by (metis split_list)
    have l: "linked (hdr s) (freep s # (vs @ us) @ [freep s])" by (rule linked_rotate [OF r(2) uv])
    have d: "freep s \<notin> set (vs @ us)" using ring_distinct [OF g(4,2)] unfolding uv by auto
    have "set ((vs @ us) @ [freep s]) = set (base # map fst xs)" unfolding uv by auto
    moreover have "\<not> k \<le> h_size (hdr s y)" if y: "y \<in> set (base # map fst xs)" for y
    proof (cases "y = base")
      case True
      then show ?thesis using r(1) k by simp
    next
      case n: False
      then have "y \<in> fst ` set xs" using y by simp
      then obtain x where "y = fst x" "x \<in> set xs" by (rule imageE)
      then show ?thesis using False g(6) [of x] by auto
    qed
    ultimately have nf: "\<forall>y\<in>set ((vs @ us) @ [freep s]). \<not> k \<le> h_size (hdr s y)" by blast
    have "h_ptr (hdr s (freep s)) = hd ((vs @ us) @ [freep s])" using l by (cases "vs @ us") auto
    then have e: "malloc_loop k (freep s) (h_ptr (hdr s (freep s))) s = (case morecore k s of None \<Rightarrow> None
       | Some (p, t) \<Rightarrow> if p = 0 then Some (0, t) else malloc_loop k p (h_ptr (hdr t p)) t)"
      using malloc_nofit [OF l refl d nf] by simp
    obtain p t xs' where t: "morecore k s = Some (p, t)" "heap_ok base lo xs' live t"
      "p \<noteq> 0 \<longrightarrow> freep t = p \<and> (\<exists>x\<in>set xs'. k \<le> snd x)" using morecore_ok [OF ok f m] by blast
    show ?thesis
    proof (cases "p = 0")
      case True
      then show ?thesis using e t by auto
    next
      case False
      then show ?thesis using e t fits [OF t(2)] by auto
    qed
  qed
qed

lemma nunits_eq:
  assumes "unat nbytes \<le> 2 ^ 31 - 64"
  shows "unat (ucast ((ucast (nbytes :: u32) + 16 - 1) div 16 + 1 :: u64) :: u32) = (unat nbytes + 15) div 16 + 1"
proof -
  have "unat ((ucast nbytes + 16 - 1) div 16 + 1 :: u64) = (unat nbytes + 15) div 16 + 1"
  proof -
    have "unat (ucast nbytes + 15 :: u64) = unat nbytes + 15" using assms by (simp add: unat_word_ariths unat_ucast64)
    then show ?thesis using assms by (simp add: unat_word_ariths unat_div unat_ucast64 add.commute [of 15])
  qed
  then show ?thesis using assms by (simp add: unsigned_ucast_eq take_bit_nat_eq_self)
qed

text \<open>C13 \<^verbatim>\<open>malloc\<close> keeps the heap and hands out memory that is nobody else's.  On a heap in order (the free blocks
  form a ring in the order of their addresses, free and allocated blocks are apart and inside the memory of the process),
  for a request below 2 GiB, it returns; the result is the null pointer, and the heap is in order with the same
  allocated blocks, or the address after the header of a new block that has room for the request and is apart from
  every allocated and every free block.  The kernel may grant or refuse more memory at any time.\<close>

theorem malloc_correct:
  assumes "heap_ok base lo xs live s" and "unat nbytes \<le> 2 ^ 31 - 64" and "unat (brk s) + unat nbytes + 2 ^ 17 \<le> 2 ^ 36"
  shows "\<exists>r t xs'. malloc base nbytes s = Some (r, t) \<and>
    (if r = 0 then heap_ok base lo xs' live t
     else \<exists>k. heap_ok base lo xs' ((r - 16, k) # live) t \<and> unat nbytes + 16 \<le> 16 * unat k)"
proof -
  define k :: u32 where "k = ucast ((ucast nbytes + 16 - 1) div 16 + 1 :: u64)"
  define m where "m = (if k < 4096 then 4096 else k)"
  let ?s = "if freep s = 0 then s\<lparr>hdr := set_size base 0 (set_ptr base base (hdr s)), freep := base\<rparr> else s"
  have k: "unat k = (unat nbytes + 15) div 16 + 1" unfolding k_def by (rule nunits_eq [OF assms(2)])
  then have k0: "k \<noteq> 0" "unat nbytes + 16 \<le> 16 * unat k" "16 * unat k \<le> unat nbytes + 31" by auto
  then have m: "16 * unat m < 2 ^ 31" "unat (brk s) + 16 * unat m \<le> 2 ^ 36" using assms(2,3) by (auto simp: m_def)
  have ok: "heap_ok base lo xs live ?s" "freep ?s \<noteq> 0" "brk ?s = brk s" using assms(1) by (auto simp: heap_ok_def hset)
  obtain r t xs' where "malloc_loop k (freep ?s) (h_ptr (hdr ?s (freep ?s))) ?s = Some (r, t)"
    "if r = 0 then heap_ok base lo xs' live t else heap_ok base lo xs' ((r - 16, k) # live) t"
    using malloc_loop_ok [OF ok(1,2) k0(1) m_def] m ok(3) by metis
  moreover from this(1) have "malloc base nbytes s = Some (r, t)" unfolding malloc_def Let_def k_def [symmetric] .
  ultimately show ?thesis using k0(2) by (intro exI [of _ r] exI [of _ t] exI [of _ xs']) auto
qed

text \<open>C14 \<^verbatim>\<open>free\<close> gives a block back: on a heap in order it returns, the heap is in order with the block no longer allocated,
  every other allocated block is as before, and no memory is lost: the free list has gained exactly the units of the
  block, also where it was joined with its neighbours.\<close>

theorem free_correct:
  assumes "heap_ok base lo xs ((a, n) # live) s"
  shows "\<exists>t xs'. free (a + 16) s = Some t \<and> heap_ok base lo xs' live t \<and> units xs' = units xs + unat n"
  using free_block [OF assms] by blast

text \<open>An empty heap, and the same heap after the first request.\<close>

definition heap0 :: uheap where
  "heap0 = \<lparr>hdr = \<lambda>_. \<lparr>h_ptr = 0, h_size = 0\<rparr>, freep = 0, brk = 0x4000, grants = [True]\<rparr>"

definition heap1 :: uheap where
  "heap1 = \<lparr>hdr = (\<lambda>_. \<lparr>h_ptr = 0, h_size = 0\<rparr>)(0x2000 := \<lparr>h_ptr = 0x4000, h_size = 0\<rparr>,
     0x4000 := \<lparr>h_ptr = 0x2000, h_size = 4088\<rparr>, 0x13F80 := \<lparr>h_ptr = 0, h_size = 8\<rparr>), freep = 0x2000, brk = 0x14000, grants = []\<rparr>"

lemma heap_demo_ok: "heap_ok 0x2000 0x4000 [] [] heap0" "heap_ok 0x2000 0x4000 [(0x4000, 4088)] [(0x13F80, 8)] heap1"
  by (simp_all add: heap_ok_def heap0_def heap1_def live_ok_def bend_def apart_def)

theorem malloc_correct_witness:
  "\<exists>r t xs'. malloc 0x2000 100 heap0 = Some (r, t) \<and>
    (if r = 0 then heap_ok 0x2000 0x4000 xs' [] t
     else \<exists>k. heap_ok 0x2000 0x4000 xs' [(r - 16, k)] t \<and> unat (100 :: u32) + 16 \<le> 16 * unat k)"
  by (rule malloc_correct [OF heap_demo_ok(1)]) (simp_all add: heap0_def)

theorem free_correct_witness:
  "\<exists>t xs'. free 0x13F90 heap1 = Some t \<and> heap_ok 0x2000 0x4000 xs' [] t \<and> units xs' = 4096"
  using free_correct [OF heap_demo_ok(2)] by simp

subsection \<open>Requests of 2 GiB\<close>

lemma sbrk_negative:
  assumes "unat (brk s) < 0x7FFFFFF0" shows "sbrk 0x80000010 s = (brk s, s)"
proof -
  have c: "(scast (0x80000010 :: u32) :: u64) = - 0x7FFFFFF0" by simp
  have "brk s \<le> brk s - 0x7FFFFFF0"
  proof -
    have "unat (brk s - 0x7FFFFFF0) = 2 ^ 64 + unat (brk s) - 0x7FFFFFF0"
      using assms by (simp add: unat_sub_if')
    then show ?thesis using assms by (simp add: word_le_nat_alt)
  qed
  then show ?thesis by (simp add: sbrk_def c)
qed



end
