(* ===== verification/User_Shell.thy ===== *)
theory User_Shell
  imports User_Text
begin

text \<open>
  The command parser of the shell, \<^verbatim>\<open>user/sh.c\<close>.  A pointer into the command line together with its
  end is the rest of the line.  The nodes of \<^verbatim>\<open>struct cmd\<close> are the constructors of a datatype; the
  strings are values, so that \<^verbatim>\<open>nulterminate\<close> has nothing to do.  \<^verbatim>\<open>parseexec\<close> fills the argument
  vector of a node that may already be wrapped in redirections; here the redirections are collected
  and wrapped around the finished node.  The call of \<^verbatim>\<open>panic\<close> is the error \<open>Msg\<close>.
\<close>

datatype cmd = Exec "u8 list list" | Redir cmd "u8 list" u32 nat | Pipe cmd cmd | Lst cmd cmd | Back cmd

datatype perr = Msg string | Fuel

definition MAXARGS :: nat where "MAXARGS = 10"

definition whitespace :: "u8 list" where "whitespace = [0x20, 0x09, 0x0D, 0x0A, 0x0B]"
definition symbols :: "u8 list" where "symbols = [0x3C, 0x7C, 0x3E, 0x26, 0x3B, 0x28, 0x29]"

definition ws :: "u8 \<Rightarrow> bool" where "ws c \<longleftrightarrow> u_strchr whitespace c \<noteq> None"
definition sym :: "u8 \<Rightarrow> bool" where "sym c \<longleftrightarrow> u_strchr symbols c \<noteq> None"

definition skip :: "u8 list \<Rightarrow> u8 list" where "skip s = dropWhile ws s"

text \<open>The token, its text and the rest of the line.\<close>

definition gettoken :: "u8 list \<Rightarrow> u8 \<times> u8 list \<times> u8 list" where
  "gettoken s =
     (case skip s of
        [] \<Rightarrow> (0, [], [])
      | c # cs \<Rightarrow>
          if c \<in> {0x7C, 0x28, 0x29, 0x3B, 0x26, 0x3C} then (c, [c], skip cs)
          else if c = 0x3E then
            (if peek_byte cs = 0x3E then (0x2B, [c, c], skip (tl cs)) else (c, [c], skip cs))
          else (0x61, takeWhile (\<lambda>x. \<not> ws x \<and> \<not> sym x) (c # cs), skip (dropWhile (\<lambda>x. \<not> ws x \<and> \<not> sym x) (c # cs))))"

definition peek :: "u8 list \<Rightarrow> u8 list \<Rightarrow> bool" where
  "peek s toks \<longleftrightarrow> (case skip s of [] \<Rightarrow> False | c # _ \<Rightarrow> u_strchr toks c \<noteq> None)"

lemma length_skip: "length (skip s) \<le> length s"
  by (simp add: skip_def length_dropWhile_le)

lemma length_gettoken: "gettoken s = (t, w, r) \<Longrightarrow> length r \<le> length s"
  and length_gettoken_less: "gettoken s = (t, w, r) \<Longrightarrow> skip s \<noteq> [] \<Longrightarrow> w \<noteq> [] \<Longrightarrow> length r < length s"
proof -
  assume g: "gettoken s = (t, w, r)"
  have d: "length (dropWhile P xs) \<le> length xs" for P and xs :: "u8 list" by (rule length_dropWhile_le)
  show "length r \<le> length s"
  proof (cases "skip s")
    case Nil
    then show ?thesis using g by (auto simp: gettoken_def)
  next
    case (Cons c cs)
    then have "length (c # cs) \<le> length s" using length_skip [of s] by simp
    moreover have "length r \<le> length (c # cs)"
      using g Cons length_skip [of cs] length_skip [of "tl cs"] d [of _ "c # cs"]
        order_trans [OF length_skip [of "dropWhile (\<lambda>x. \<not> ws x \<and> \<not> sym x) (c # cs)"] d]
      by (auto simp: gettoken_def split: if_splits)
    ultimately show ?thesis by simp
  qed
  show "length r < length s" if "skip s \<noteq> []" "w \<noteq> []"
  proof (cases "skip s")
    case (Cons c cs)
    then have "length (c # cs) \<le> length s" using length_skip [of s] by simp
    moreover have "length r < length (c # cs)"
    proof (cases "\<not> ws c \<and> \<not> sym c")
      case True
      then show ?thesis
        using g Cons length_skip [of cs] length_skip [of "tl cs"]
          order_trans [OF length_skip [of "dropWhile (\<lambda>x. \<not> ws x \<and> \<not> sym x) cs"] d [of _ cs]]
        by (auto simp: gettoken_def split: if_splits)
    next
      case False
      then show ?thesis
        using g Cons that(2) length_skip [of cs] length_skip [of "tl cs"]
        by (auto simp: gettoken_def split: if_splits)
    qed
    ultimately show ?thesis by simp
  qed (use that in simp)
qed

text \<open>\<^verbatim>\<open>redircmd\<close> for a redirection token.\<close>

definition redircmd :: "u8 \<Rightarrow> u8 list \<Rightarrow> cmd \<Rightarrow> cmd" where
  "redircmd tok w c =
     (if tok = 0x3C then Redir c w 0 0
      else if tok = 0x3E then Redir c w 0x601 1
      else Redir c w 0x201 1)"

definition redirs :: "(u8 \<times> u8 list) list \<Rightarrow> cmd \<Rightarrow> cmd" where
  "redirs rs c = fold (\<lambda>(tok, w) c. redircmd tok w c) rs c"

function parseredirs :: "u8 list \<Rightarrow> perr + ((u8 \<times> u8 list) list \<times> u8 list)" where
  "parseredirs s =
     (if peek s [0x3C, 0x3E] then
        (case gettoken s of (tok, _, s1) \<Rightarrow>
         case gettoken s1 of (t2, w, s2) \<Rightarrow>
         if t2 \<noteq> 0x61 then Inl (Msg ''missing file for redirection'')
         else case parseredirs s2 of Inl e \<Rightarrow> Inl e | Inr (rs, s3) \<Rightarrow> Inr ((tok, w) # rs, s3))
      else Inr ([], skip s))"
  by pat_completeness auto

lemma peek_skip: "peek s toks \<Longrightarrow> skip s \<noteq> []"
  by (auto simp: peek_def split: list.splits)

lemma peek_gettoken: "peek s [0x3C, 0x3E] \<Longrightarrow> gettoken s = (tok, w, s1) \<Longrightarrow> length s1 < length s"
  using peek_skip [of s] length_gettoken_less [of s tok w s1]
  by (auto simp: peek_def gettoken_def split: list.splits if_splits)

lemma redirs_less:
  "peek s [0x3C, 0x3E] \<Longrightarrow> (tok, w1, s1) = gettoken s \<Longrightarrow> (t2, w, s2) = gettoken s1 \<Longrightarrow> length s2 < length s"
  using peek_gettoken [of s tok w1 s1] length_gettoken [of s1 t2 w s2] by simp

termination parseredirs
  by (relation "measure length") (auto intro: redirs_less)

declare parseredirs.simps [simp del]

lemma length_parseredirs: "parseredirs s = Inr (rs, r) \<Longrightarrow> length r \<le> length s"
proof (induction s arbitrary: rs r rule: parseredirs.induct)
  case (1 s)
  show ?case
  proof (cases "peek s [0x3C, 0x3E]")
    case False
    then show ?thesis using 1(2) length_skip [of s] unfolding parseredirs.simps [of s] by simp
  next
    case True
    obtain tok w1 s1 t2 w s2 where g: "gettoken s = (tok, w1, s1)" "gettoken s1 = (t2, w, s2)"
      by (metis prod_cases3)
    then obtain rs' where "parseredirs s2 = Inr (rs', r)"
      using True 1(2) unfolding parseredirs.simps [of s] by (auto split: if_splits sum.splits)
    then have "length r \<le> length s2" using 1(1) [OF True g(1)[symmetric] refl g(2)[symmetric] refl] 1(2) True g
      unfolding parseredirs.simps [of s] by (auto split: if_splits sum.splits)
    then show ?thesis using peek_gettoken [OF True g(1)] length_gettoken [OF g(2)] by simp
  qed
qed

text \<open>The loop of \<^verbatim>\<open>parseexec\<close> over the arguments: the arguments and the redirections among them.\<close>

function parseargs :: "nat \<Rightarrow> u8 list \<Rightarrow> perr + (u8 list list \<times> (u8 \<times> u8 list) list \<times> u8 list)" where
  "parseargs argc s =
     (if peek s [0x7C, 0x29, 0x26, 0x3B] then Inr ([], [], skip s)
      else
        case gettoken s of (tok, w, s1) \<Rightarrow>
        if tok = 0 then Inr ([], [], s1)
        else if tok \<noteq> 0x61 then Inl (Msg ''syntax'')
        else if argc + 1 \<ge> MAXARGS then Inl (Msg ''too many args'')
        else
          case parseredirs s1 of
            Inl e \<Rightarrow> Inl e
          | Inr (rs, s2) \<Rightarrow>
              (case parseargs (argc + 1) s2 of
                 Inl e \<Rightarrow> Inl e
               | Inr (args, rs', s3) \<Rightarrow> Inr (w # args, rs @ rs', s3)))"
  by pat_completeness auto
termination
  by (relation "measure (\<lambda>(argc, s). MAXARGS - argc)") auto

declare parseargs.simps [simp del]

text \<open>The loop of \<^verbatim>\<open>parseline\<close> over ampersands.\<close>

function parseback :: "cmd \<Rightarrow> u8 list \<Rightarrow> cmd \<times> u8 list" where
  "parseback c s = (if peek s [0x26] then parseback (Back c) (snd (snd (gettoken s))) else (c, skip s))"
  by pat_completeness auto

lemma back_less: "peek s [0x26] \<Longrightarrow> length (snd (snd (gettoken s))) < length s"
  using peek_skip [of s "[0x26]"] length_gettoken_less [of s "fst (gettoken s)" "fst (snd (gettoken s))"]
  by (auto simp: peek_def gettoken_def split: list.splits if_splits)

termination parseback
  by (relation "measure (\<lambda>(c, s). length s)") (auto intro: back_less)

declare parseback.simps [simp del]

text \<open>The recursive descent.  Each call is one unit of fuel; lemma \<open>parse_fuel\<close> shows that four units
  per character are enough.\<close>

fun parseline :: "nat \<Rightarrow> u8 list \<Rightarrow> perr + (cmd \<times> u8 list)"
  and parsepipe :: "nat \<Rightarrow> u8 list \<Rightarrow> perr + (cmd \<times> u8 list)"
  and parseexec :: "nat \<Rightarrow> u8 list \<Rightarrow> perr + (cmd \<times> u8 list)" where
  "parseline 0 s = Inl Fuel"
| "parseline (Suc n) s =
     (case parsepipe n s of
        Inl e \<Rightarrow> Inl e
      | Inr (c, s1) \<Rightarrow>
          (case parseback c s1 of (c2, s2) \<Rightarrow>
           if peek s2 [0x3B] then
             (case parseline n (snd (snd (gettoken s2))) of
                Inl e \<Rightarrow> Inl e
              | Inr (d, s3) \<Rightarrow> Inr (Lst c2 d, s3))
           else Inr (c2, skip s2)))"
| "parsepipe 0 s = Inl Fuel"
| "parsepipe (Suc n) s =
     (case parseexec n s of
        Inl e \<Rightarrow> Inl e
      | Inr (c, s1) \<Rightarrow>
          if peek s1 [0x7C] then
            (case parsepipe n (snd (snd (gettoken s1))) of
               Inl e \<Rightarrow> Inl e
             | Inr (d, s2) \<Rightarrow> Inr (Pipe c d, s2))
          else Inr (c, skip s1))"
| "parseexec 0 s = Inl Fuel"
| "parseexec (Suc n) s =
     (if peek s [0x28] then
        (case parseline n (snd (snd (gettoken s))) of
           Inl e \<Rightarrow> Inl e
         | Inr (c, s1) \<Rightarrow>
             if \<not> peek s1 [0x29] then Inl (Msg ''syntax - missing )'')
             else
               (case parseredirs (snd (snd (gettoken s1))) of
                  Inl e \<Rightarrow> Inl e
                | Inr (rs, s2) \<Rightarrow> Inr (redirs rs c, s2)))
      else
        (case parseredirs s of
           Inl e \<Rightarrow> Inl e
         | Inr (rs, s1) \<Rightarrow>
             (case parseargs 0 s1 of
                Inl e \<Rightarrow> Inl e
              | Inr (args, rs', s2) \<Rightarrow> Inr (redirs (rs @ rs') (Exec args), s2))))"

definition parsecmd :: "u8 list \<Rightarrow> perr + cmd" where
  "parsecmd buf =
     (let s = takeWhile (\<lambda>c. c \<noteq> 0) buf in
      case parseline (4 * length s + 3) s of
        Inl e \<Rightarrow> Inl e
      | Inr (c, rest) \<Rightarrow> if skip rest \<noteq> [] then Inl (Msg ''syntax'') else Inr c)"

subsection \<open>The parser ends\<close>

lemma parseredirs_no_fuel: "parseredirs s \<noteq> Inl Fuel"
proof (induction s rule: parseredirs.induct)
  case (1 s)
  obtain tok w1 s1 t2 w s2 where g: "gettoken s = (tok, w1, s1)" "gettoken s1 = (t2, w, s2)"
    by (metis prod_cases3)
  then show ?case using 1 unfolding parseredirs.simps [of s] by (auto split: sum.splits)
qed

lemma parseargs_props:
  "parseargs k s \<noteq> Inl Fuel \<and> (\<forall>a rs r. parseargs k s = Inr (a, rs, r) \<longrightarrow> length r \<le> length s)"
proof (induction k s rule: parseargs.induct)
  case (1 k s)
  obtain tok w s1 where g: "gettoken s = (tok, w, s1)" by (metis prod_cases3)
  note len = length_skip [of s] length_gettoken [OF g]
  show ?case
  proof (cases "peek s [0x7C, 0x29, 0x26, 0x3B] \<or> tok = 0 \<or> tok \<noteq> 0x61 \<or> k + 1 \<ge> MAXARGS")
    case True
    then show ?thesis using len unfolding parseargs.simps [of k s] g by auto
  next
    case False
    show ?thesis
    proof (cases "parseredirs s1")
      case (Inl e)
      then show ?thesis using False parseredirs_no_fuel [of s1] unfolding parseargs.simps [of k s] g by auto
    next
      case (Inr p)
      then obtain rs s2 where p: "parseredirs s1 = Inr (rs, s2)" by (cases p) auto
      have "parseargs (k + 1) s2 \<noteq> Inl Fuel \<and> (\<forall>a rs r. parseargs (k + 1) s2 = Inr (a, rs, r) \<longrightarrow> length r \<le> length s2)"
        using 1 g False p by auto
      then show ?thesis using False p len length_parseredirs [OF p] unfolding parseargs.simps [of k s] g
        by (auto split: sum.splits)
    qed
  qed
qed

lemma length_parseback: "parseback c s = (d, r) \<Longrightarrow> length r \<le> length s"
proof (induction c s rule: parseback.induct)
  case (1 c s)
  then show ?case using length_skip [of s] back_less [of s] unfolding parseback.simps [of c s]
    by (auto split: if_splits)
qed

lemma peek1_less: "peek s [t] \<Longrightarrow> t \<in> {0x7C, 0x28, 0x29, 0x3B, 0x26, 0x3C} \<Longrightarrow> length (snd (snd (gettoken s))) < length s"
  using peek_skip [of s "[t]"] length_gettoken_less [of s "fst (gettoken s)" "fst (snd (gettoken s))"]
  by (auto simp: peek_def gettoken_def split: list.splits if_splits)

lemma parse_length:
  "\<forall>c r. parseline n s = Inr (c, r) \<longrightarrow> length r \<le> length s"
  "\<forall>c r. parsepipe n s = Inr (c, r) \<longrightarrow> length r \<le> length s"
  "\<forall>c r. parseexec n s = Inr (c, r) \<longrightarrow> length r \<le> length s"
proof (induction n s and n s and n s rule: parseline_parsepipe_parseexec.induct)
  case (2 n s)
  show ?case
  proof (intro allI impI)
    fix c r
    assume p: "parseline (Suc n) s = Inr (c, r)"
    then obtain c1 s1 where p1: "parsepipe n s = Inr (c1, s1)" by (auto split: sum.splits)
    obtain c2 s2 where p2: "parseback c1 s1 = (c2, s2)" by (metis surj_pair)
    show "length r \<le> length s"
      using p p1 p2 2 length_parseback [OF p2] peek1_less [of s2 "0x3B"] length_skip [of s2]
      by (fastforce split: sum.splits if_splits)
  qed
next
  case (4 n s)
  show ?case
  proof (intro allI impI)
    fix c r
    assume p: "parsepipe (Suc n) s = Inr (c, r)"
    then obtain c1 s1 where p1: "parseexec n s = Inr (c1, s1)" by (auto split: sum.splits)
    show "length r \<le> length s"
      using p p1 4 peek1_less [of s1 "0x7C"] length_skip [of s1] by (fastforce split: sum.splits if_splits)
  qed
next
  case (6 n s)
  show ?case
  proof (intro allI impI)
    fix c r
    assume p: "parseexec (Suc n) s = Inr (c, r)"
    show "length r \<le> length s"
    proof (cases "peek s [0x28]")
      case True
      then obtain c1 s1 rs where "parseline n (snd (snd (gettoken s))) = Inr (c1, s1)" "peek s1 [0x29]"
        "parseredirs (snd (snd (gettoken s1))) = Inr (rs, r)"
        using p by (auto split: sum.splits if_splits)
      then show ?thesis using 6(1) [OF True] peek1_less [OF True] peek1_less [of s1 "0x29"]
          length_parseredirs [of "snd (snd (gettoken s1))" rs r] by auto
    next
      case False
      then obtain rs s1 args rs' where "parseredirs s = Inr (rs, s1)" "parseargs 0 s1 = Inr (args, rs', r)"
        using p by (auto split: sum.splits)
      then show ?thesis using length_parseredirs [of s rs s1] parseargs_props [of 0 s1] by fastforce
    qed
  qed
qed simp_all

lemma parse_fuel:
  "4 * length s + 3 \<le> n \<Longrightarrow> parseline n s \<noteq> Inl Fuel"
  "4 * length s + 2 \<le> n \<Longrightarrow> parsepipe n s \<noteq> Inl Fuel"
  "4 * length s + 1 \<le> n \<Longrightarrow> parseexec n s \<noteq> Inl Fuel"
proof (induction n s and n s and n s rule: parseline_parsepipe_parseexec.induct)
  case (2 n s)
  show ?case
  proof (cases "parsepipe n s")
    case (Inl e)
    then show ?thesis using 2 by simp
  next
    case (Inr p)
    then obtain c1 s1 where p1: "parsepipe n s = Inr (c1, s1)" by (cases p) auto
    obtain c2 s2 where p2: "parseback c1 s1 = (c2, s2)" by (metis surj_pair)
    have l: "length s2 \<le> length s" using p1 parse_length(2) [of n s] length_parseback [OF p2] by auto
    show ?thesis
    proof (cases "peek s2 [0x3B]")
      case True
      then have "4 * length (snd (snd (gettoken s2))) + 3 \<le> n"
        using peek1_less [OF True] l 2(3) by simp
      then have "parseline n (snd (snd (gettoken s2))) \<noteq> Inl Fuel"
        using 2(2) [OF p1 refl p2 [symmetric] True] by simp
      then show ?thesis using p1 p2 True by (auto split: sum.splits)
    qed (use p1 p2 in auto)
  qed
next
  case (4 n s)
  show ?case
  proof (cases "parseexec n s")
    case (Inl e)
    then show ?thesis using 4 by simp
  next
    case (Inr p)
    then obtain c1 s1 where p1: "parseexec n s = Inr (c1, s1)" by (cases p) auto
    have l: "length s1 \<le> length s" using p1 parse_length(3) [of n s] by auto
    show ?thesis
    proof (cases "peek s1 [0x7C]")
      case True
      then have "4 * length (snd (snd (gettoken s1))) + 2 \<le> n"
        using peek1_less [OF True] l 4(3) by simp
      then have "parsepipe n (snd (snd (gettoken s1))) \<noteq> Inl Fuel"
        using 4(2) [OF p1 refl True] by simp
      then show ?thesis using p1 True by (auto split: sum.splits)
    qed (use p1 in auto)
  qed
next
  case (6 n s)
  show ?case
  proof (cases "peek s [0x28]")
    case True
    then have "parseline n (snd (snd (gettoken s))) \<noteq> Inl Fuel"
      using 6(1) [OF True] peek1_less [OF True] 6(2) by simp
    then show ?thesis using True parseredirs_no_fuel by (auto split: sum.splits)
  next
    case False
    then show ?thesis using parseredirs_no_fuel [of s] parseargs_props by (auto split: sum.splits)
  qed
qed simp_all

end
