(* ===== verification/Shell_Print.thy ===== *)
theory Shell_Print
  imports User_Shell
begin

text \<open>
  A printer for the command trees of \<^verbatim>\<open>user/sh.c\<close> and the proof that the shell's parser reads back every
  well-formed tree.  A tree is printed at one of the four levels of the grammar and put in
  parentheses where the grammar asks for a lower level.
\<close>

definition word :: "u8 list \<Rightarrow> bool" where
  "word w \<longleftrightarrow> w \<noteq> [] \<and> (\<forall>c \<in> set w. c \<noteq> 0 \<and> \<not> ws c \<and> \<not> sym c)"

fun wf_cmd :: "cmd \<Rightarrow> bool" where
  "wf_cmd (Exec args) \<longleftrightarrow> length args < MAXARGS \<and> list_all word args"
| "wf_cmd (Redir c f m fd) \<longleftrightarrow> wf_cmd c \<and> word f \<and> (m, fd) \<in> {(0, 0), (0x601, 1), (0x201, 1)}"
| "wf_cmd (Pipe a b) \<longleftrightarrow> wf_cmd a \<and> wf_cmd b"
| "wf_cmd (Lst a b) \<longleftrightarrow> wf_cmd a \<and> wf_cmd b"
| "wf_cmd (Back a) \<longleftrightarrow> wf_cmd a"

fun level :: "cmd \<Rightarrow> nat" where
  "level (Exec _) = 0"
| "level (Redir _ _ _ _) = 0"
| "level (Pipe _ _) = 1"
| "level (Back _) = 2"
| "level (Lst _ _) = 3"

definition parens :: "bool \<Rightarrow> u8 list \<Rightarrow> u8 list" where
  "parens b s = (if b then [0x28] @ s @ [0x29] else s)"

definition redir_token :: "u32 \<Rightarrow> u8 list" where
  "redir_token m = (if m = 0 then [0x3C] else if m = 0x601 then [0x3E] else [0x3E, 0x3E])"

fun body :: "cmd \<Rightarrow> u8 list" where
  "body (Exec args) = concat (map (\<lambda>w. w @ [0x20]) args)"
| "body (Redir c f m fd) = parens (level c > 0) (body c) @ redir_token m @ f @ [0x20]"
| "body (Pipe a b) = parens (level a > 0) (body a) @ [0x7C] @ parens (level b > 1) (body b)"
| "body (Back a) = parens (level a > 2) (body a) @ [0x26]"
| "body (Lst a b) = parens (level a > 2) (body a) @ [0x3B] @ body b"

definition print_at :: "nat \<Rightarrow> cmd \<Rightarrow> u8 list" where
  "print_at l c = parens (level c > l) (body c)"

subsection \<open>Tokens\<close>

lemma ws_simps [simp]: "ws 0x20" "\<not> ws 0x7C" "\<not> ws 0x28" "\<not> ws 0x29" "\<not> ws 0x3B" "\<not> ws 0x26" "\<not> ws 0x3C" "\<not> ws 0x3E"
  by (simp_all add: ws_def whitespace_def)

lemma skip_skip [simp]: "skip (skip s) = skip s"
  by (simp add: skip_def dropWhile_idem)

lemma skip_Cons: "skip (c # cs) = (if ws c then skip cs else c # cs)"
  by (simp add: skip_def)

lemma skip_space [simp]: "skip (0x20 # s) = skip s"
  by (simp add: skip_Cons)

lemma gettoken_skip [simp]: "gettoken (skip s) = gettoken s"
  by (simp add: gettoken_def)

lemma peek_skipped [simp]: "peek (skip s) t = peek s t"
  by (simp add: peek_def)

lemma parseredirs_skip [simp]: "parseredirs (skip s) = parseredirs s"
  by (simp add: parseredirs.simps [of s] parseredirs.simps [of "skip s"])

lemma parseargs_skip [simp]: "parseargs k (skip s) = parseargs k s"
  by (simp add: parseargs.simps [of k s] parseargs.simps [of k "skip s"])

lemma parseback_skip [simp]: "parseback c (skip s) = parseback c s"
  by (simp add: parseback.simps [of c s] parseback.simps [of c "skip s"])

lemma parse_skip [simp]:
  "parseexec n (skip s) = parseexec n s" "parsepipe n (skip s) = parsepipe n s" "parseline n (skip s) = parseline n s"
proof -
  show e: "parseexec n (skip s) = parseexec n s" for n by (cases n) simp_all
  show p: "parsepipe n (skip s) = parsepipe n s" for n by (cases n) (simp_all add: e)
  show "parseline n (skip s) = parseline n s" by (cases n) (simp_all add: p)
qed

lemma word_hd: "word w \<Longrightarrow> \<exists>c cs. w = c # cs \<and> c \<noteq> 0 \<and> \<not> ws c \<and> \<not> sym c"
  by (cases w) (auto simp: word_def)

lemma sym_iff: "sym c \<longleftrightarrow> c \<in> {0x3C, 0x7C, 0x3E, 0x26, 0x3B, 0x28, 0x29}"
  by (auto simp: sym_def symbols_def)

lemma u_strchr_iff: "u_strchr t c \<noteq> None \<longleftrightarrow> c \<in> set t"
  by (induction t) auto

lemma strchr_Some: "u_strchr t c = Some q \<Longrightarrow> c \<in> set t"
  using u_strchr_iff [of t c] by simp

lemma peek_word: "word w \<Longrightarrow> set toks \<subseteq> set symbols \<Longrightarrow> \<not> peek (w @ s) toks"
  using word_hd [of w] by (auto simp: peek_def skip_Cons sym_def strchr_None dest: strchr_Some)

lemma gettoken_word: "word w \<Longrightarrow> gettoken (w @ 0x20 # s) = (0x61, w, skip s)"
proof -
  assume w: "word w"
  then obtain c cs where c: "w = c # cs" "\<not> ws c" "\<not> sym c" using word_hd by blast
  have "takeWhile (\<lambda>x. \<not> ws x \<and> \<not> sym x) (w @ 0x20 # s) = w"
    "dropWhile (\<lambda>x. \<not> ws x \<and> \<not> sym x) (w @ 0x20 # s) = 0x20 # s"
    using w by (simp_all add: word_def takeWhile_append2 dropWhile_append2)
  then show ?thesis using c by (auto simp: gettoken_def skip_Cons sym_iff)
qed

lemma peek_Cons: "\<not> ws c \<Longrightarrow> peek (c # s) toks \<longleftrightarrow> c \<in> set toks"
  using u_strchr_iff [of toks c] by (simp add: peek_def skip_Cons)

lemma gettoken_sym: "c \<in> {0x7C, 0x28, 0x29, 0x3B, 0x26, 0x3C} \<Longrightarrow> gettoken (c # s) = (c, [c], skip s)"
  by (auto simp: gettoken_def skip_Cons)

lemma parseredirs_skipped: "parseredirs s = Inr (rs, r) \<Longrightarrow> skip r = r"
proof (induction s arbitrary: rs rule: parseredirs.induct)
  case (1 s)
  obtain tok w1 s1 t2 w s2 where g: "gettoken s = (tok, w1, s1)" "gettoken s1 = (t2, w, s2)"
    by (metis prod_cases3)
  then show ?case using 1 unfolding parseredirs.simps [of s] by (auto split: sum.splits if_splits)
qed

lemma parseredirs_none: "\<not> peek s [0x3C, 0x3E] \<Longrightarrow> parseredirs s = Inr ([], skip s)"
  by (simp add: parseredirs.simps)

definition redir_byte :: "u32 \<Rightarrow> u8" where
  "redir_byte m = (if m = 0 then 0x3C else if m = 0x601 then 0x3E else 0x2B)"

lemma gettoken_redir: "word f \<Longrightarrow> \<exists>w. gettoken (redir_token m @ f @ 0x20 # s) = (redir_byte m, w, f @ 0x20 # s)"
  using word_hd [of f] by (auto simp: redir_token_def redir_byte_def gettoken_def skip_Cons sym_iff)

lemma parseredirs_one:
  assumes "word f" and "parseredirs s = Inr (rs, r)"
  shows "parseredirs (redir_token m @ f @ 0x20 # s) = Inr ((redir_byte m, f) # rs, r)"
proof -
  have "peek (redir_token m @ f @ 0x20 # s) [0x3C, 0x3E]" by (simp add: redir_token_def peek_Cons)
  then show ?thesis using assms gettoken_redir [OF assms(1), of m s]
    by (auto simp: parseredirs.simps [of "redir_token m @ f @ 0x20 # s"] gettoken_word)
qed

lemma redircmd_byte: "(m, fd) \<in> {(0, 0), (0x601, 1), (0x201, 1)} \<Longrightarrow> redircmd (redir_byte m) f c = Redir c f m fd"
  by (auto simp: redircmd_def redir_byte_def)

subsection \<open>The levels of the grammar\<close>

definition stop :: "u8 list \<Rightarrow> u8 list \<Rightarrow> bool" where
  "stop toks s \<longleftrightarrow> skip s = [] \<or> peek s toks"

lemma stop_skip [simp]: "stop t (skip s) = stop t s"
  by (simp add: stop_def)

lemma stop_mono: "stop t s \<Longrightarrow> set t \<subseteq> set t' \<Longrightarrow> stop t' s"
  using u_strchr_iff [of t] u_strchr_iff [of t'] by (fastforce simp: stop_def peek_def split: list.splits)

lemma stop_peek: "stop t s \<Longrightarrow> set t \<inter> set t' = {} \<Longrightarrow> \<not> peek s t'"
  using u_strchr_iff [of t] u_strchr_iff [of t'] by (fastforce simp: stop_def peek_def split: list.splits)

lemma stop_Cons: "\<not> ws c \<Longrightarrow> stop t (c # s) \<longleftrightarrow> c \<in> set t"
  by (simp add: stop_def peek_Cons skip_Cons)

abbreviation "stop_exec \<equiv> stop [0x7C, 0x29, 0x26, 0x3B]"
abbreviation "stop_pipe \<equiv> stop [0x29, 0x26, 0x3B]"
abbreviation "stop_back \<equiv> stop [0x29, 0x3B]"
abbreviation "stop_line \<equiv> stop [0x29]"

definition at_exec :: "cmd \<Rightarrow> bool" where
  "at_exec c \<longleftrightarrow> (\<forall>n rest rs r. 4 * length (print_at 0 c @ rest) + 1 \<le> n \<longrightarrow> parseredirs rest = Inr (rs, r) \<longrightarrow>
     stop_exec r \<longrightarrow> parseexec n (print_at 0 c @ rest) = Inr (redirs rs c, skip r))"

definition at_pipe :: "cmd \<Rightarrow> bool" where
  "at_pipe c \<longleftrightarrow> (\<forall>n rest. 4 * length (print_at 1 c @ rest) + 2 \<le> n \<longrightarrow> stop_pipe rest \<longrightarrow>
     parsepipe n (print_at 1 c @ rest) = Inr (c, skip rest))"

definition at_back :: "cmd \<Rightarrow> bool" where
  "at_back c \<longleftrightarrow> (\<forall>n rest. 4 * length (print_at 2 c @ rest) + 2 \<le> n \<longrightarrow> stop_pipe rest \<longrightarrow>
     (\<exists>c0 s. parsepipe n (print_at 2 c @ rest) = Inr (c0, s) \<and> parseback c0 s = parseback c rest))"

definition at_line :: "cmd \<Rightarrow> bool" where
  "at_line c \<longleftrightarrow> (\<forall>n rest. 4 * length (print_at 3 c @ rest) + 3 \<le> n \<longrightarrow> stop_line rest \<longrightarrow>
     parseline n (print_at 3 c @ rest) = Inr (c, skip rest))"

lemma parseargs_end: "stop_exec s \<Longrightarrow> parseargs k s = Inr ([], [], skip s)"
  by (cases "skip s") (auto simp: parseargs.simps [of k s] stop_def gettoken_def)

lemma parseargs_words:
  assumes "list_all word args" and "args \<noteq> []" and "k + length args < MAXARGS"
    and "parseredirs rest = Inr (rs, r)" and "stop_exec r"
  shows "parseargs k (concat (map (\<lambda>w. w @ [0x20]) args) @ rest) = Inr (args, rs, skip r)"
  using assms(1-3)
proof (induction args arbitrary: k)
  case (Cons w args)
  let ?s = "concat (map (\<lambda>w. w @ [0x20]) args) @ rest"
  have w: "word w" using Cons by simp
  have np: "\<not> peek (w @ 0x20 # ?s) [0x7C, 0x29, 0x26, 0x3B]" by (rule peek_word [OF w]) (simp add: symbols_def)
  note step = parseargs.simps [of k "w @ 0x20 # ?s"] np gettoken_word [OF w]
  show ?case
  proof (cases args)
    case Nil
    then show ?thesis using assms(4, 5) Cons.prems step by (simp add: parseargs_end MAXARGS_def)
  next
    case (Cons v vs)
    have "\<not> peek ?s [0x3C, 0x3E]"
      using peek_word [of v "[0x3C, 0x3E]" "0x20 # concat (map (\<lambda>w. w @ [0x20]) vs) @ rest"] Cons.prems(1) Cons
      by (simp add: symbols_def)
    then have "parseredirs ?s = Inr ([], skip ?s)" by (rule parseredirs_none)
    moreover have "parseargs (k + 1) ?s = Inr (args, rs, skip r)"
      using Cons.IH [of "k + 1"] Cons.prems Cons by simp
    ultimately show ?thesis using Cons.prems(3) step by simp
  qed
qed simp

lemma exec_words:
  assumes "list_all word args" and "length args < MAXARGS"
  shows "at_exec (Exec args)"
  unfolding at_exec_def
proof (intro allI impI)
  fix n rest rs r
  let ?s = "print_at 0 (Exec args) @ rest"
  assume n: "4 * length ?s + 1 \<le> n" and rd: "parseredirs rest = Inr (rs, r)" and st: "stop_exec r"
  obtain m where m: "n = Suc m" using n by (cases n) auto
  show "parseexec n ?s = Inr (redirs rs (Exec args), skip r)"
  proof (cases args)
    case Nil
    have "\<not> peek rest [0x28]"
    proof (cases "peek rest [0x3C, 0x3E]")
      case True
      then show ?thesis by (auto simp: peek_def split: list.splits dest!: strchr_Some)
    next
      case False
      then show ?thesis using rd st stop_peek [of "[0x7C, 0x29, 0x26, 0x3B]" rest "[0x28]"]
        by (auto simp: parseredirs_none)
    qed
    then show ?thesis using Nil rd m st by (simp add: print_at_def parens_def parseargs_end)
  next
    case (Cons v vs)
    have v: "word v" using assms Cons by simp
    have s: "?s = v @ 0x20 # concat (map (\<lambda>w. w @ [0x20]) vs) @ rest"
      using Cons by (simp add: print_at_def parens_def)
    have "\<not> peek ?s [0x28]" "\<not> peek ?s [0x3C, 0x3E]"
      unfolding s by (rule peek_word [OF v]; simp add: symbols_def)+
    moreover have "parseargs 0 ?s = Inr (args, rs, skip r)"
      using parseargs_words [OF assms(1) _ _ rd st, of 0] assms(2) Cons by (simp add: print_at_def parens_def)
    ultimately show ?thesis using m by (simp add: parseredirs_none)
  qed
qed

lemma exec_redir:
  assumes "at_exec c" and "word f" and "(m, fd) \<in> {(0, 0), (0x601, 1), (0x201, 1)}"
  shows "at_exec (Redir c f m fd)"
  unfolding at_exec_def
proof (intro allI impI)
  fix n rest rs r
  let ?s = "print_at 0 (Redir c f m fd) @ rest"
  assume n: "4 * length ?s + 1 \<le> n" and rd: "parseredirs rest = Inr (rs, r)" and st: "stop_exec r"
  have s: "?s = print_at 0 c @ redir_token m @ f @ 0x20 # rest" by (simp add: print_at_def parens_def)
  show "parseexec n ?s = Inr (redirs rs (Redir c f m fd), skip r)"
    using assms(1) [unfolded at_exec_def, rule_format, OF n [unfolded s] parseredirs_one [OF assms(2) rd] st]
    unfolding s by (simp add: redirs_def redircmd_byte [OF assms(3)])
qed

lemma exec_block:
  assumes "at_line c" and "level c > 0"
  shows "at_exec c"
  unfolding at_exec_def
proof (intro allI impI)
  fix n rest rs r
  let ?s = "print_at 0 c @ rest"
  assume n: "4 * length ?s + 1 \<le> n" and rd: "parseredirs rest = Inr (rs, r)" and st: "stop_exec r"
  have p3: "print_at 3 c = body c" by (cases c) (simp_all add: print_at_def parens_def)
  have s: "?s = 0x28 # print_at 3 c @ 0x29 # rest" unfolding p3 using assms(2) by (simp add: print_at_def parens_def)
  obtain m where m: "n = Suc m" "4 * length (print_at 3 c @ 0x29 # rest) + 3 \<le> m"
    using n unfolding s by (cases n) auto
  have "parseline m (print_at 3 c @ 0x29 # rest) = Inr (c, skip (0x29 # rest))"
    using assms(1) m(2) by (simp add: at_line_def stop_Cons)
  then show "parseexec n ?s = Inr (redirs rs c, skip r)"
    unfolding s m(1) using rd parseredirs_skipped [OF rd] by (simp add: peek_Cons gettoken_sym skip_Cons)
qed

lemma redirs_Nil [simp]: "redirs [] c = c"
  by (simp add: redirs_def)

lemma exec_pipe:
  assumes "at_exec c" and "level c \<noteq> 1"
  shows "at_pipe c"
  unfolding at_pipe_def
proof (intro allI impI)
  fix n rest
  let ?s = "print_at 1 c @ rest"
  assume n: "4 * length ?s + 2 \<le> n" and st: "stop_pipe rest"
  have p: "print_at 1 c = print_at 0 c" using assms(2) by (simp add: print_at_def parens_def)
  obtain m where m: "n = Suc m" "4 * length ?s + 1 \<le> m" using n by (cases n) auto
  have "parseredirs rest = Inr ([], skip rest)" "stop_exec (skip rest)" "\<not> peek rest [0x7C]"
    using st stop_mono [OF st, of "[0x7C, 0x29, 0x26, 0x3B]"]
    by (auto intro!: parseredirs_none elim!: stop_peek)
  then have "parseexec m (print_at 0 c @ rest) = Inr (redirs [] c, skip (skip rest))"
    using assms(1) m(2) unfolding at_exec_def p by blast
  with \<open>\<not> peek rest [0x7C]\<close> show "parsepipe n ?s = Inr (c, skip rest)"
    unfolding m(1) p by simp
qed

lemma pipe_pipe:
  assumes "at_exec a" and "at_pipe b"
  shows "at_pipe (Pipe a b)"
  unfolding at_pipe_def
proof (intro allI impI)
  fix n rest
  let ?s = "print_at 1 (Pipe a b) @ rest"
  assume n: "4 * length ?s + 2 \<le> n" and st: "stop_pipe rest"
  let ?t = "print_at 1 b @ rest"
  have s: "?s = print_at 0 a @ 0x7C # ?t" by (simp add: print_at_def parens_def)
  obtain m where m: "n = Suc m" "4 * length (print_at 0 a @ 0x7C # ?t) + 1 \<le> m" "4 * length ?t + 2 \<le> m"
    using n unfolding s by (cases n) auto
  have "parseredirs (0x7C # ?t) = Inr ([], 0x7C # ?t)"
    by (simp add: parseredirs_none peek_Cons skip_Cons)
  then have "parseexec m (print_at 0 a @ 0x7C # ?t) = Inr (a, 0x7C # ?t)"
    using assms(1) m(2) by (simp add: at_exec_def stop_Cons skip_Cons)
  moreover have "parsepipe m ?t = Inr (b, skip rest)"
    using assms(2) m(3) st by (simp add: at_pipe_def)
  ultimately show "parsepipe n ?s = Inr (Pipe a b, skip rest)"
    unfolding s m(1) by (simp add: peek_Cons gettoken_sym)
qed

lemma pipe_back:
  assumes "at_pipe c" and "level c \<noteq> 2"
  shows "at_back c"
  unfolding at_back_def
proof (intro allI impI)
  fix n rest
  assume n: "4 * length (print_at 2 c @ rest) + 2 \<le> n" and st: "stop_pipe rest"
  have p: "print_at 2 c = print_at 1 c" using assms(2) by (auto simp: print_at_def parens_def)
  show "\<exists>c0 s. parsepipe n (print_at 2 c @ rest) = Inr (c0, s) \<and> parseback c0 s = parseback c rest"
    using assms(1) n st by (simp add: at_pipe_def p)
qed

lemma back_back:
  assumes "at_back c"
  shows "at_back (Back c)"
  unfolding at_back_def
proof (intro allI impI)
  fix n rest
  let ?s = "print_at 2 (Back c) @ rest"
  assume n: "4 * length ?s + 2 \<le> n" and st: "stop_pipe rest"
  have s: "?s = print_at 2 c @ 0x26 # rest" by (simp add: print_at_def parens_def)
  have "parseback c (0x26 # rest) = parseback (Back c) rest"
    by (simp add: parseback.simps [of c "0x26 # rest"] peek_Cons gettoken_sym)
  moreover have "stop_pipe (0x26 # rest)" by (simp add: stop_Cons)
  ultimately show "\<exists>c0 s. parsepipe n ?s = Inr (c0, s) \<and> parseback c0 s = parseback (Back c) rest"
    using assms [unfolded at_back_def, rule_format, OF n [unfolded s]] unfolding s by simp
qed

lemma back_line:
  assumes "at_back c" and "level c \<noteq> 3"
  shows "at_line c"
  unfolding at_line_def
proof (intro allI impI)
  fix n rest
  let ?s = "print_at 3 c @ rest"
  assume n: "4 * length ?s + 3 \<le> n" and st: "stop_line rest"
  have p: "print_at 3 c = print_at 2 c" using assms(2) by (auto simp: print_at_def parens_def)
  obtain m where m: "n = Suc m" "4 * length ?s + 2 \<le> m" using n by (cases n) auto
  obtain c0 s where b: "parsepipe m ?s = Inr (c0, s)" "parseback c0 s = parseback c rest"
    using assms(1) [unfolded at_back_def, rule_format, OF m(2) [unfolded p] stop_mono [OF st]] unfolding p by auto
  moreover have "parseback c rest = (c, skip rest)" "\<not> peek rest [0x3B]"
    using stop_peek [OF st] by (simp_all add: parseback.simps [of c rest])
  ultimately show "parseline n ?s = Inr (c, skip rest)"
    unfolding m(1) by simp
qed

lemma list_line:
  assumes "at_back a" and "at_line b"
  shows "at_line (Lst a b)"
  unfolding at_line_def
proof (intro allI impI)
  fix n rest
  let ?s = "print_at 3 (Lst a b) @ rest"
  let ?t = "print_at 3 b @ rest"
  assume n: "4 * length ?s + 3 \<le> n" and st: "stop_line rest"
  have "print_at 3 b = body b" by (cases b) (simp_all add: print_at_def parens_def)
  then have s: "?s = print_at 2 a @ 0x3B # ?t" by (simp add: print_at_def parens_def)
  obtain m where m: "n = Suc m" "4 * length (print_at 2 a @ 0x3B # ?t) + 2 \<le> m" "4 * length ?t + 3 \<le> m"
    using n unfolding s by (cases n) auto
  have st2: "stop_pipe (0x3B # ?t)" by (simp add: stop_Cons)
  obtain c0 r where b: "parsepipe m (print_at 2 a @ 0x3B # ?t) = Inr (c0, r)" "parseback c0 r = parseback a (0x3B # ?t)"
    using assms(1) [unfolded at_back_def, rule_format, OF m(2) st2] by blast
  moreover have "parseback a (0x3B # ?t) = (a, 0x3B # ?t)"
    by (simp add: parseback.simps [of a "0x3B # ?t"] peek_Cons skip_Cons)
  moreover have "parseline m ?t = Inr (b, skip rest)"
    using assms(2) m(3) st by (simp add: at_line_def)
  ultimately show "parseline n ?s = Inr (Lst a b, skip rest)"
    unfolding s m(1) by (simp add: peek_Cons gettoken_sym)
qed

lemma exec_all: "at_exec c \<Longrightarrow> level c = 0 \<Longrightarrow> at_exec c \<and> at_pipe c \<and> at_back c \<and> at_line c"
  using exec_pipe [of c] pipe_back [of c] back_line [of c] by simp

lemma parse_print: "wf_cmd c \<Longrightarrow> at_exec c \<and> at_pipe c \<and> at_back c \<and> at_line c"
proof (induction c)
  case (Pipe a b)
  then have "at_pipe (Pipe a b)" by (auto intro: pipe_pipe)
  then have "at_back (Pipe a b)" by (auto intro: pipe_back)
  then have "at_line (Pipe a b)" by (auto intro: back_line)
  with \<open>at_pipe (Pipe a b)\<close> \<open>at_back (Pipe a b)\<close> show ?case by (auto intro: exec_block)
next
  case (Lst a b)
  then have "at_line (Lst a b)" by (auto intro: list_line)
  then have "at_exec (Lst a b)" by (auto intro: exec_block)
  then have "at_pipe (Lst a b)" by (auto intro: exec_pipe)
  with \<open>at_line (Lst a b)\<close> \<open>at_exec (Lst a b)\<close> show ?case by (auto intro: pipe_back)
next
  case (Back a)
  then have "at_back (Back a)" by (auto intro: back_back)
  then have "at_line (Back a)" by (auto intro: back_line)
  then have "at_exec (Back a)" by (auto intro: exec_block)
  with \<open>at_back (Back a)\<close> \<open>at_line (Back a)\<close> show ?case by (auto intro: exec_pipe)
next
  case (Redir c f m fd)
  then have "at_exec (Redir c f m fd)" by (intro exec_redir) auto
  then show ?case by (rule exec_all) simp
next
  case (Exec args)
  then have "at_exec (Exec args)" by (intro exec_words) auto
  then show ?case by (rule exec_all) simp
qed

lemma body_nonzero: "wf_cmd c \<Longrightarrow> 0 \<notin> set (body c)"
  by (induction c) (auto simp: parens_def redir_token_def word_def list_all_iff)

text \<open>C29 The shell's parser terminates on every input: with four units of fuel per character and three more
  the recursive descent gives a command or a syntax error, and never runs out of fuel.\<close>

theorem parsecmd_terminates: "parsecmd s \<noteq> Inl Fuel"
  using parse_fuel(1) [of "takeWhile (\<lambda>c. c \<noteq> 0) s"] by (auto simp: parsecmd_def Let_def split: sum.splits)

text \<open>C23 The shell's parser reads back what a printer of command trees writes: every tree whose words are
  nonempty and free of white space and operators, with at most nine arguments per command and the
  three kinds of redirection, is the parse of its text, with parentheses only where the grammar of
  \<^verbatim>\<open>parseline\<close>, \<^verbatim>\<open>parsepipe\<close> and \<^verbatim>\<open>parseexec\<close> needs them.\<close>

theorem parsecmd_body:
  assumes "wf_cmd c"
  shows "parsecmd (body c) = Inr c"
proof -
  have "print_at 3 c = body c" by (cases c) (simp_all add: print_at_def parens_def)
  moreover have t: "takeWhile (\<lambda>c. c \<noteq> 0) (body c) = body c"
    using body_nonzero [OF assms] by (auto simp: takeWhile_eq_all_conv)
  moreover have "parseline (4 * length (print_at 3 c @ []) + 3) (print_at 3 c @ []) = Inr (c, skip [])"
    by (rule parse_print [OF assms, THEN conjunct2, THEN conjunct2, THEN conjunct2, unfolded at_line_def, rule_format])
      (simp_all add: stop_def skip_def)
  ultimately show ?thesis unfolding parsecmd_def Let_def t by (simp add: skip_def)
qed

theorem parsecmd_body_witness:
  "parsecmd (body (Pipe (Redir (Back (Exec [[0x6C, 0x73]])) [0x66] 0x601 1) (Exec [[0x77, 0x63], [0x2D]]))) =
     Inr (Pipe (Redir (Back (Exec [[0x6C, 0x73]])) [0x66] 0x601 1) (Exec [[0x77, 0x63], [0x2D]]))"
  by (rule parsecmd_body) (simp add: word_def ws_def whitespace_def sym_iff MAXARGS_def)

end
