(* ===== verification/Spec2Isabelle.thy ===== *)
theory Spec2Isabelle
  imports User_Copy Proc_Sync Log_Atomic Console_Edit Spinlock Trap User_Programs User_Malloc Shell_Print
begin

text \<open>
  A verification library for the teaching operating system xv6 for RISC-V under \<^verbatim>\<open>src/xv6\<close>: the kernel and the
  user programs that come with it.  All file names below are relative to \<^verbatim>\<open>src/xv6\<close>.

  \<^bold>\<open>The program.\<close>  The kernel gives processes their memory (page allocator \<^verbatim>\<open>kalloc.c\<close>, page tables \<^verbatim>\<open>vm.c\<close>),
  runs them (\<^verbatim>\<open>proc.c\<close>, locks \<^verbatim>\<open>spinlock.c\<close> and \<^verbatim>\<open>sleeplock.c\<close>), stores files (disk buffers \<^verbatim>\<open>bio.c\<close>, write-ahead log
  \<^verbatim>\<open>log.c\<close>, inodes, directories and paths \<^verbatim>\<open>fs.c\<close>, open files and pipes \<^verbatim>\<open>file.c\<close> and \<^verbatim>\<open>pipe.c\<close>), talks to the
  terminal (\<^verbatim>\<open>uart.c\<close>, \<^verbatim>\<open>console.c\<close>, \<^verbatim>\<open>printk.c\<close>) and is entered by traps and system calls (\<^verbatim>\<open>trap.c\<close>, \<^verbatim>\<open>syscall.c\<close>,
  \<^verbatim>\<open>sysproc.c\<close>, \<^verbatim>\<open>sysfile.c\<close>, \<^verbatim>\<open>exec.c\<close>, \<^verbatim>\<open>plic.c\<close>).  The user side is a small C library and programs on top of it.

  \<^bold>\<open>The form of the model.\<close>  A kernel routine is a definition of the same name in the state monad of
  \<^verbatim>\<open>Xv6_Prelude\<close>: it takes the kernel state and ends with \<open>Ok\<close> (value and state), \<open>Panic\<close> (the text of the panic),
  \<open>Sleep\<close> (the thread has given up the processor, with the state that the scheduler sees) or \<open>Hang\<close> (an endless loop).
  The state is a record that grows with the layers: \<open>kernel\<close> (memory, free list, printed messages), \<open>vmkernel\<close>,
  \<open>pkernel\<close> (process table), \<open>bkernel\<close> (disk and buffers), \<open>lkernel\<close> (log), \<open>fkernel\<close> (inodes), \<open>ckernel\<close> (UART and
  console), \<open>ikernel\<close> (files and pipes), \<open>tkernel\<close> (registers, interrupt controller); a routine of a lower layer works
  on every extension of its record.  C integers are machine words of their width, pointers into kernel memory are
  64-bit words, pointers into a kernel table are indices, and a C string is a list of bytes.
  \<^item> Memory is a map from 64-bit addresses to bytes; page tables, the free list and user pages lie in it.
  \<^item> The critical sections of the spin locks are the atomic steps; theory \<^verbatim>\<open>Spinlock\<close> justifies this for the locks
    themselves.  Sleep locks keep their fields.  A wait channel is a symbolic name.  A routine that has to wait ends with
    \<open>Sleep\<close>; it starts again from its condition when it is woken, as the code does.
  \<^item> A message of \<^verbatim>\<open>printk\<close> is recorded in \<open>klog\<close>; theory \<^verbatim>\<open>Printk\<close> gives the characters.
  \<^item> Kernel buffers that are copied to or from user memory are passed by value.
  \<^item> Symbols of the linker and of the assembly files are fields of the state; the padding bytes of \<^verbatim>\<open>struct stat\<close>, the
    disk interrupt handler in \<^verbatim>\<open>Trap\<close> and the file system in \<^verbatim>\<open>find\<close> are parameters.
  \<^item> The disk is a map from block numbers to blocks together with the list of the writes so far; \<open>disk_rw\<close> is what
    \<^verbatim>\<open>virtio_disk_rw\<close> and the device have done when the routine returns.  A crash leaves a prefix of the writes.
  \<^item> The UART answers reads of its status register from a list; a driver that spins on a device that never gets ready
    has the outcome \<open>Hang\<close>.  An access outside a C array is the outcome \<open>ub\<close>, a null pointer access in the kernel is
    the panic of \<^verbatim>\<open>kerneltrap\<close>.

  \<^bold>\<open>The theories.\<close>
  \<^item> \<^verbatim>\<open>Xv6_Prelude\<close>: types, outcomes, the monad, the total-correctness calculus \<open>runs\<close>, the frame rules \<open>keeps\<close>, the
    byte memory.  \<^verbatim>\<open>Riscv\<close>: \<^verbatim>\<open>kernel/riscv.h\<close>, \<^verbatim>\<open>memlayout.h\<close>, \<^verbatim>\<open>param.h\<close>.  \<^verbatim>\<open>Bytes\<close>: little-endian fields.
  \<^item> \<^verbatim>\<open>Kstring\<close>: \<^verbatim>\<open>kernel/string.c\<close>.  \<open>memmove\<close> is the simultaneous copy for every overlap; \<open>safestrcpy\<close> terminates its
    result within the bound.
  \<^item> \<^verbatim>\<open>Kalloc\<close>: \<^verbatim>\<open>kernel/kalloc.c\<close>.  The allocator implements a list of free pages: \<open>kinit\<close> collects every page once,
    \<open>kalloc\<close> and \<open>kfree\<close> are inverse and touch nothing else.
  \<^item> \<^verbatim>\<open>Vm\<close>: \<^verbatim>\<open>kernel/vm.c\<close>.  \<^verbatim>\<open>Page_Table\<close>: page tables refine maps from virtual pages to entries; \<open>mappages\<close> maps exactly
    what it is asked for and keeps the tree well formed.  \<^verbatim>\<open>User_Copy\<close>: \<open>copyin\<close> reads back what \<open>copyout\<close> wrote.
  \<^item> \<^verbatim>\<open>Proc_Base\<close>: the process table of \<^verbatim>\<open>kernel/proc.c\<close>.  \<^verbatim>\<open>Proc_Sync\<close>: \<open>wakeup\<close> and \<open>kkill\<close> do exactly what they say, no
    wakeup is lost under any interleaving (an inductive step relation), a scheduler round is fair, \<open>growproc\<close> keeps the
    bound on the size of a process, and \<open>kkill 0\<close> marks a free slot.
  \<^item> \<^verbatim>\<open>Spinlock\<close>: \<^verbatim>\<open>kernel/spinlock.c\<close>, one memory access per step, on any number of CPUs: mutual exclusion, exactness of the
    checks, nesting of \<open>push_off\<close> and \<open>pop_off\<close>.
  \<^item> \<^verbatim>\<open>Bio\<close>: \<^verbatim>\<open>kernel/sleeplock.c\<close> and \<^verbatim>\<open>kernel/bio.c\<close>.  \<^verbatim>\<open>Bcache\<close>: the doubly linked list of buffers refines a list in the
    order of last use.  \<^verbatim>\<open>Block_Rules\<close>: one rule per operation of the cache over an abstract description of it.
  \<^item> \<^verbatim>\<open>Log\<close>: \<^verbatim>\<open>kernel/log.c\<close>.  \<^verbatim>\<open>Log_Crash\<close> and \<^verbatim>\<open>Log_Atomic\<close>: a transaction installs all its writes, and after a crash at any
    of its disk writes recovery leaves all or none of them; a full log makes the commit panic for lack of buffers.
  \<^item> \<^verbatim>\<open>Fs\<close>: \<^verbatim>\<open>kernel/fs.c\<close>.  \<^verbatim>\<open>File\<close>: \<^verbatim>\<open>kernel/file.c\<close> and \<^verbatim>\<open>kernel/pipe.c\<close>.  \<^verbatim>\<open>Console\<close>: \<^verbatim>\<open>kernel/uart.c\<close> and
    \<^verbatim>\<open>kernel/console.c\<close>.
  \<^item> \<^verbatim>\<open>Ring_Buffer\<close>: the locale \<open>byte_queue\<close> is the contract of a queue of bytes, the locale \<open>byte_ring\<close> its implementation
    by a circular buffer with free-running 32-bit indices.  \<^verbatim>\<open>Pipe_Queue\<close> interprets it for pipes: \<open>pipewrite\<close>
    appends and \<open>piperead\<close> takes from the front.  \<^verbatim>\<open>Console_Edit\<close> interprets it for the console buffer: the
    interrupt handler refines line editing on two queues.
  \<^item> \<^verbatim>\<open>Exec\<close>, \<^verbatim>\<open>Proc\<close>, \<^verbatim>\<open>Sysfile\<close>, \<^verbatim>\<open>Trap\<close>: \<^verbatim>\<open>kernel/exec.c\<close>, the rest of \<^verbatim>\<open>kernel/proc.c\<close>, the system calls, traps, the
    interrupt controller and \<^verbatim>\<open>kernel/main.c\<close>, as definitions.
  \<^item> \<^verbatim>\<open>Printk\<close>: \<^verbatim>\<open>kernel/printk.c\<close> and \<^verbatim>\<open>user/printf.c\<close>: numbers are printed canonically.
  \<^item> \<^verbatim>\<open>User_Text\<close>: \<^verbatim>\<open>user/ulib.c\<close>, \<^verbatim>\<open>grep.c\<close>, \<^verbatim>\<open>wc.c\<close>: the matcher decides its pattern language, \<open>grep\<close> prints exactly the
    matching lines of a file with lines that fit its buffer, \<open>atoi\<close> inverts printing.  \<^verbatim>\<open>User_Malloc\<close>: \<^verbatim>\<open>user/umalloc.c\<close>:
    the heap invariant, blocks never overlap, nothing leaks.  \<^verbatim>\<open>User_Programs\<close>: threads, the prime sieve and
    \<open>find\<close>.  \<^verbatim>\<open>User_Shell\<close> and \<^verbatim>\<open>Shell_Print\<close>: the shell's parser reads back every printed command tree and ends on
    every input.

  \<^bold>\<open>Fuel and bounds.\<close>  Loops over consecutive user pages have the fuel \<open>vm_fuel = 2 ^ 26 + 2\<close>, more than the pages
  below \<open>MAXVA\<close>; \<open>freerange\<close> has \<open>2 ^ 52\<close>, the number of pages of the address space; page-table recursion has the depth
  of the tree; the erase loop of the console and the receive loop of the UART have the number of characters; the shell
  parser has \<open>4 * n + 3\<close> for a line of length \<open>n\<close>, and its termination theorem shows that this is enough.  Searches
  without a bound (\<open>strlen\<close>, the loops of the allocator) are partial functions with the result \<open>None\<close> when they do not
  end; the theorems about them show that they end.  The theorems about the heap assume a process below 64 GiB, where
  the 32-bit block sizes cannot overflow, and requests below 2 GiB, beyond which \<open>malloc\<close> is wrong.

  \<^bold>\<open>Not modelled.\<close>  The rings that \<^verbatim>\<open>kernel/virtio_disk.c\<close> shares with the device, whose effect is \<open>disk_rw\<close>; the
  control-register accessors of \<^verbatim>\<open>riscv.h\<close>, \<^verbatim>\<open>start.c\<close> and the assembly files other than \<^verbatim>\<open>user/thread_switch.S\<close>, which
  are hardware setup; the start of the harts other than the first; \<^verbatim>\<open>mkfs/mkfs.c\<close>, a host program; the programs that
  only sequence system calls (\<^verbatim>\<open>cat\<close>, \<^verbatim>\<open>echo\<close>, \<^verbatim>\<open>init\<close>, \<^verbatim>\<open>kill\<close>, \<^verbatim>\<open>ln\<close>, \<^verbatim>\<open>ls\<close>, \<^verbatim>\<open>mkdir\<close>, \<^verbatim>\<open>rm\<close>, \<^verbatim>\<open>sync\<close>, the execution part of the
  shell) and the test programs.
\<close>

end
